theory Spec2Isabelle
  imports Main "HOL-Library.Word"
begin


section \<open>The tape alphabet and the emitted transitions\<close>

text \<open>
  The enumeration \<open>symbol_t\<close> of \<open>tm.c\<close> names eleven symbols; the table
  \<open>symbol_names\<close> has a twelfth entry (printed as a period) and every emitter loops over
  \<open>num_symbols = 12\<close> values, so the value 11 is a symbol of the machine as well. It is the
  constructor \<open>SYM11\<close> here.
\<close>

datatype symbol_t =
  BLANK | START | END | ZERO | ONE | REGISTER | ADDRESS | VALUE | OUTPUT | SRC | DST | SYM11

definition all_symbols :: "symbol_t list" where
  "all_symbols =
     [BLANK, START, END, ZERO, ONE, REGISTER, ADDRESS, VALUE, OUTPUT, SRC, DST, SYM11]"

definition word_size :: nat where
  "word_size = 8"

text \<open>The direction names \<open>L\<close>, \<open>N\<close>, \<open>R\<close> printed by \<open>tm_transition\<close>.\<close>

datatype dname = DirL | DirN | DirR

text \<open>
  One emitted line \<open>q a r b dname\<close>: in state \<open>q\<close> reading \<open>a\<close>, go to state \<open>r\<close>,
  write \<open>b\<close> and move as \<open>dname\<close> says.
\<close>

datatype transition =
  Transition (t_state: int) (t_read: symbol_t) (t_next: int) (t_write: symbol_t) (t_dir: dname)

section \<open>The generator's state and its failures\<close>

text \<open>
  The globals \<open>next_state\<close> and \<open>q_reject\<close>, and the lines written so far. The comment
  lines (\<open>// ...\<close>) are not part of the transition table and are left out.

  Both globals, the program counters and the states are C \<open>int\<close>s. The model computes
  with the integers; the two agree as long as no \<open>int\<close> computation of the program leaves
  the range up to \<open>int_max\<close>, and beyond that the behaviour of the C program is undefined.
  The condition \<open>counter_fits\<close> (stated after \<open>target_tm\<close>) says that the state counter
  never leaves this range; theorems that would be false of a wrapped counter assume it.
\<close>

definition int_max :: int where
  "int_max = 2147483647"

record gen =
  next_state :: int
  q_reject :: int
  out :: "transition list"

datatype gen_error =
  InvalidDirection int | NotImplemented | InvalidSrcType | InvalidJmpType | AssertionFailed

type_synonym 'a gm = "gen \<Rightarrow> (gen_error + 'a) \<times> gen"

definition ret :: "'a \<Rightarrow> 'a gm" where
  "ret x = (\<lambda>g. (Inr x, g))"

definition bnd :: "'a gm \<Rightarrow> ('a \<Rightarrow> 'b gm) \<Rightarrow> 'b gm" where
  "bnd m f = (\<lambda>g. case m g of (Inl e, g') \<Rightarrow> (Inl e, g') | (Inr x, g') \<Rightarrow> f x g')"

text \<open>
  Modelled from the spec: \<open>error\<close> of \<open>target/util.h\<close> (not under src/) is fatal: it
  aborts code generation immediately with a diagnostic, and the aborted generation produces
  no transition table.
\<close>

definition error :: "gen_error \<Rightarrow> 'a gm" where
  "error e = (\<lambda>g. (Inl e, g\<lparr>out := []\<rparr>))"

text \<open>
  Modelled from the spec: \<open>emit_line\<close> of \<open>target/util.h\<close> (not under src/) appends one
  line to the sequential stream of emitted transition records.
\<close>

definition emit_line :: "transition \<Rightarrow> unit gm" where
  "emit_line t = (\<lambda>g. (Inr (), g\<lparr>out := out g @ [t]\<rparr>))"

text \<open>
  \<open>new_state\<close> is \<open>return next_state++\<close>. The increment is the integers' here; it is the
  program's as long as the counter is below \<open>int_max\<close>.
\<close>

definition new_state :: "int gm" where
  "new_state = (\<lambda>g. (Inr (next_state g), g\<lparr>next_state := next_state g + 1\<rparr>))"

definition get_q_reject :: "int gm" where
  "get_q_reject = (\<lambda>g. (Inr (q_reject g), g))"

definition intcmp :: "int \<Rightarrow> int \<Rightarrow> int" where
  "intcmp x y = (if x > y then 1 else if x < y then -1 else 0)"

section \<open>Primitive transition emitters\<close>

definition tm_transition :: "int \<Rightarrow> symbol_t \<Rightarrow> symbol_t \<Rightarrow> int \<Rightarrow> int \<Rightarrow> int gm" where
  "tm_transition q a b d r =
     bnd (if d = -1 then ret DirL
          else if d = 0 then ret DirN
          else if d = 1 then ret DirR
          else error (InvalidDirection d))
       (\<lambda>dn. bnd (emit_line (Transition q a r b dn)) (\<lambda>_. ret r))"

text \<open>The loop \<open>for (symbol_t s = 0; s < num_symbols; s++)\<close> of every emitter.\<close>

fun for_symbols :: "symbol_t list \<Rightarrow> (symbol_t \<Rightarrow> int gm) \<Rightarrow> unit gm" where
  "for_symbols [] f = ret ()"
| "for_symbols (s # ss) f = bnd (f s) (\<lambda>_. for_symbols ss f)"

definition tm_write :: "int \<Rightarrow> symbol_t \<Rightarrow> int \<Rightarrow> int \<Rightarrow> int gm" where
  "tm_write q b d r =
     bnd (for_symbols all_symbols (\<lambda>a. tm_transition q a b d r)) (\<lambda>_. ret r)"

definition tm_write_if ::
  "int \<Rightarrow> symbol_t \<Rightarrow> symbol_t \<Rightarrow> int \<Rightarrow> int \<Rightarrow> symbol_t \<Rightarrow> int \<Rightarrow> int \<Rightarrow> int gm" where
  "tm_write_if q a ba da ra b d r =
     bnd (for_symbols all_symbols
            (\<lambda>s. if s = a then tm_transition q s ba da ra else tm_transition q s b d r))
       (\<lambda>_. ret r)"

definition tm_write_if2 ::
  "int \<Rightarrow> symbol_t \<Rightarrow> symbol_t \<Rightarrow> int \<Rightarrow> int \<Rightarrow> symbol_t \<Rightarrow> symbol_t \<Rightarrow> int \<Rightarrow> int \<Rightarrow>
   symbol_t \<Rightarrow> int \<Rightarrow> int \<Rightarrow> int gm" where
  "tm_write_if2 q a1 b1 d1 r1 a2 b2 d2 r2 b d r =
     bnd (for_symbols all_symbols
            (\<lambda>s. if s = a1 then tm_transition q s b1 d1 r1
                 else if s = a2 then tm_transition q s b2 d2 r2
                 else tm_transition q s b d r))
       (\<lambda>_. ret r)"

definition tm_move :: "int \<Rightarrow> int \<Rightarrow> int \<Rightarrow> int gm" where
  "tm_move q d r =
     bnd (for_symbols all_symbols (\<lambda>s. tm_transition q s s d r)) (\<lambda>_. ret r)"

definition tm_move_if :: "int \<Rightarrow> symbol_t \<Rightarrow> int \<Rightarrow> int \<Rightarrow> int \<Rightarrow> int \<Rightarrow> int gm" where
  "tm_move_if q a da ra d r =
     bnd (for_symbols all_symbols
            (\<lambda>s. if s = a then tm_transition q s s da ra else tm_transition q s s d r))
       (\<lambda>_. ret r)"

definition tm_move_if2 ::
  "int \<Rightarrow> symbol_t \<Rightarrow> int \<Rightarrow> int \<Rightarrow> symbol_t \<Rightarrow> int \<Rightarrow> int \<Rightarrow> int \<Rightarrow> int \<Rightarrow> int gm" where
  "tm_move_if2 q a da ra b db rb d r =
     bnd (for_symbols all_symbols
            (\<lambda>s. if s = a then tm_transition q s s da ra
                 else if s = b then tm_transition q s s db rb
                 else tm_transition q s s d r))
       (\<lambda>_. ret r)"

definition tm_noop :: "int \<Rightarrow> int \<Rightarrow> int gm" where
  "tm_noop q r = tm_move q 0 r"

section \<open>Composite tape operations\<close>

text \<open>
  \<open>tm_write_bits\<close>: the loop runs \<open>i = n - 1\<close> down to \<open>1\<close>; the last bit is written
  after it. The argument \<open>x\<close> is an \<open>unsigned int\<close>; \<open>(1 << i) & x\<close> tests its bit \<open>i\<close>.
\<close>

fun tm_write_bits_loop :: "nat \<Rightarrow> int \<Rightarrow> 32 word \<Rightarrow> int gm" where
  "tm_write_bits_loop 0 q x = ret q"
| "tm_write_bits_loop (Suc i) q x =
     bnd new_state (\<lambda>n1. bnd (tm_move q 1 n1) (\<lambda>q.
     bnd new_state (\<lambda>n2. bnd (tm_write q (if bit x (Suc i) then ONE else ZERO) 1 n2) (\<lambda>q.
     tm_write_bits_loop i q x))))"

definition tm_write_bits :: "int \<Rightarrow> 32 word \<Rightarrow> int \<Rightarrow> int \<Rightarrow> int gm" where
  "tm_write_bits q x n r =
     bnd (tm_write_bits_loop (nat (n - 1)) q x) (\<lambda>q.
     bnd new_state (\<lambda>n1. bnd (tm_move q 1 n1) (\<lambda>q.
     tm_write q (if bit x 0 then ONE else ZERO) 1 r)))"

definition tm_write_word :: "int \<Rightarrow> 32 word \<Rightarrow> int \<Rightarrow> int gm" where
  "tm_write_word q x r = tm_write_bits q x (int word_size) r"

definition tm_write_byte :: "int \<Rightarrow> 32 word \<Rightarrow> int \<Rightarrow> int gm" where
  "tm_write_byte q x r = tm_write_bits q x 8 r"

definition tm_find :: "int \<Rightarrow> int \<Rightarrow> symbol_t \<Rightarrow> int \<Rightarrow> int \<Rightarrow> int gm" where
  "tm_find q d a r_yes r_no =
     (let marker = (if d < 0 then START else END) in
      bnd (tm_move_if2 q a 0 r_yes marker 0 r_no d q) (\<lambda>_. ret r_yes))"

definition tm_rewind :: "int \<Rightarrow> int \<Rightarrow> int gm" where
  "tm_rewind q r = bnd (tm_move_if q START 0 r (-1) q) (\<lambda>_. ret r)"

definition tm_ffwd :: "int \<Rightarrow> int \<Rightarrow> int gm" where
  "tm_ffwd q r = bnd (tm_move_if q END 0 r 1 q) (\<lambda>_. ret r)"

text \<open>
  \<open>tm_find_register\<close>: the loop over \<open>i = word_size - 1\<close> down to \<open>0\<close>; the equation for
  \<open>Suc i\<close> is the iteration that compares bit \<open>i\<close> of \<open>reg\<close>. A register is its index.
\<close>

fun tm_find_register_loop :: "nat \<Rightarrow> int \<Rightarrow> nat \<Rightarrow> int \<Rightarrow> int gm" where
  "tm_find_register_loop 0 qstart reg q = ret q"
| "tm_find_register_loop (Suc i) qstart reg q =
     bnd new_state (\<lambda>n1. bnd (tm_move q 1 n1) (\<lambda>q.
     bnd new_state (\<lambda>q_match.
     bnd get_q_reject (\<lambda>rej.
     bnd (tm_move_if2 q (if bit reg i then ONE else ZERO) 1 q_match END 0 rej 1 qstart) (\<lambda>_.
     tm_find_register_loop i qstart reg q_match)))))"

definition tm_find_register :: "int \<Rightarrow> nat \<Rightarrow> int \<Rightarrow> int gm" where
  "tm_find_register q reg r =
     (let qstart = q in
      bnd new_state (\<lambda>n1. bnd get_q_reject (\<lambda>rej. bnd (tm_find q 1 REGISTER n1 rej) (\<lambda>q.
      bnd new_state (\<lambda>n2. bnd (tm_move q 1 n2) (\<lambda>q.
      bnd (tm_find_register_loop word_size qstart reg q) (\<lambda>q.
      bnd new_state (\<lambda>n3. bnd (tm_move q 1 n3) (\<lambda>q.
      bnd get_q_reject (\<lambda>rej.
      bnd (tm_move_if q VALUE 1 r 0 rej) (\<lambda>_. ret r)))))))))))"

definition BLANK_BEFORE_DST :: nat where
  "BLANK_BEFORE_DST = 4"

definition BLANK_AFTER_DST :: nat where
  "BLANK_AFTER_DST = 8"

definition tm_copy_helper :: "int \<Rightarrow> int \<Rightarrow> nat \<Rightarrow> int \<Rightarrow> int gm" where
  "tm_copy_helper q d mode r =
     bnd new_state (\<lambda>n. bnd (tm_write q SRC 0 n) (\<lambda>q.
     (let q_nextbit = q in
      bnd new_state (\<lambda>n. bnd (tm_write q BLANK 1 n) (\<lambda>q.
      bnd new_state (\<lambda>q0. bnd new_state (\<lambda>q1.
      bnd new_state (\<lambda>n. bnd (tm_move_if2 q ZERO 1 q0 ONE 1 q1 0 n) (\<lambda>q_clean.
      bnd new_state (\<lambda>q.
      bnd get_q_reject (\<lambda>rej.
      bnd new_state (\<lambda>n. bnd (tm_write q0 SRC 1 n) (\<lambda>q0.
      bnd new_state (\<lambda>n. bnd (tm_find q0 d DST n rej) (\<lambda>q0.
      bnd (if and mode BLANK_BEFORE_DST \<noteq> 0
           then bnd new_state (\<lambda>n. tm_write q0 BLANK 1 n) else ret q0) (\<lambda>q0.
      bnd (tm_write q0 ZERO 1 q) (\<lambda>q0.
      bnd new_state (\<lambda>n. bnd (tm_write q1 SRC 1 n) (\<lambda>q1.
      bnd new_state (\<lambda>n. bnd (tm_find q1 d DST n rej) (\<lambda>q1.
      bnd (if and mode BLANK_BEFORE_DST \<noteq> 0
           then bnd new_state (\<lambda>n. tm_write q1 BLANK 1 n) else ret q1) (\<lambda>q1.
      bnd (tm_write q1 ONE 1 q) (\<lambda>q1.
      bnd (if and mode BLANK_AFTER_DST \<noteq> 0
           then bnd new_state (\<lambda>n. tm_move q 1 n) else ret q) (\<lambda>q.
      bnd new_state (\<lambda>n. bnd (tm_write q DST 0 n) (\<lambda>q.
      bnd (tm_find q (- d) SRC q_nextbit rej) (\<lambda>_.
      bnd new_state (\<lambda>n. bnd (tm_find q_clean d DST n rej) (\<lambda>q.
      tm_write q BLANK 0 r)))))))))))))))))))))))))))))"

definition tm_copy :: "int \<Rightarrow> int \<Rightarrow> int \<Rightarrow> int gm" where
  "tm_copy q d r = tm_copy_helper q d BLANK_BEFORE_DST r"

definition tm_copy_to_scratch :: "int \<Rightarrow> int \<Rightarrow> int \<Rightarrow> int gm" where
  "tm_copy_to_scratch q d r = tm_copy_helper q d BLANK_AFTER_DST r"

definition tm_copy_compact :: "int \<Rightarrow> int \<Rightarrow> int \<Rightarrow> int gm" where
  "tm_copy_compact q d r = tm_copy_helper q d 0 r"

definition tm_add :: "int \<Rightarrow> int \<Rightarrow> int gm" where
  "tm_add q r =
     (let s0 = q in
      bnd new_state (\<lambda>s1.
      bnd new_state (\<lambda>m0. bnd new_state (\<lambda>m1. bnd new_state (\<lambda>m2.
      bnd get_q_reject (\<lambda>rej.
      bnd (tm_write_if2 s0 ZERO BLANK (-1) m0 ONE BLANK (-1) m1 BLANK 0 r) (\<lambda>_.
      bnd (tm_write_if2 s1 ZERO BLANK (-1) m1 ONE BLANK (-1) m2 BLANK 0 r) (\<lambda>_.
      bnd (tm_write_if2 m0 ZERO ZERO (-1) s0 ONE ONE (-1) s0 ZERO 0 rej) (\<lambda>_.
      bnd (tm_write_if2 m1 ZERO ONE (-1) s0 ONE ZERO (-1) s1 ZERO 0 rej) (\<lambda>_.
      bnd (tm_write_if2 m2 ZERO ZERO (-1) s1 ONE ONE (-1) s1 ZERO 0 rej) (\<lambda>_.
      ret r)))))))))))"

definition tm_sub :: "int \<Rightarrow> int \<Rightarrow> int gm" where
  "tm_sub q r =
     (let s0 = q in
      bnd new_state (\<lambda>s1.
      bnd new_state (\<lambda>m0. bnd new_state (\<lambda>m1. bnd new_state (\<lambda>m2.
      bnd get_q_reject (\<lambda>rej.
      bnd (tm_write_if2 s0 ZERO BLANK (-1) m0 ONE BLANK (-1) m1 BLANK 0 r) (\<lambda>_.
      bnd (tm_write_if2 s1 ZERO BLANK (-1) m1 ONE BLANK (-1) m2 BLANK 0 r) (\<lambda>_.
      bnd (tm_write_if2 m0 ZERO ZERO (-1) s0 ONE ONE (-1) s0 ZERO 0 rej) (\<lambda>_.
      bnd (tm_write_if2 m1 ZERO ONE (-1) s1 ONE ZERO (-1) s0 ZERO 0 rej) (\<lambda>_.
      bnd (tm_write_if2 m2 ZERO ZERO (-1) s1 ONE ONE (-1) s1 ZERO 0 rej) (\<lambda>_.
      ret r)))))))))))"

section \<open>The intermediate representation\<close>

text \<open>
  Modelled from the spec: the declarations of \<open>ir/ir.h\<close> (not under src/). An operand is
  a register reference or an immediate integer; \<open>tm.c\<close> also handles an operand that is
  neither (\<open>OTHER\<close>). The opcodes are the seven that \<open>target_tm\<close> names and one for
  every other opcode. An instruction carries its program counter; the linked lists of
  instructions and of data are lists.
\<close>

datatype Value = REG nat | IMM int | OTHER

datatype Op = MOV | ADD | SUB | JMP | PUTC | EXIT | DUMP | OTHER_OP

record Inst =
  op :: Op
  dst :: Value
  src :: Value
  jmp :: Value
  pc :: int

record Module =
  module_text :: "Inst list"
  module_data :: "int list"

section \<open>The instruction translator\<close>

text \<open>
  The body of the \<open>switch\<close> of \<open>target_tm\<close>, from the current state \<open>q\<close>; it returns
  the current state after the instruction. A failed \<open>assert\<close> aborts like \<open>error\<close>.
\<close>

text \<open>
  The shared body of \<open>case ADD: case SUB:\<close>.
\<close>

definition tm_arith :: "int \<Rightarrow> Inst \<Rightarrow> int gm" where
  "tm_arith q inst =
    (case dst inst of
       REG dr \<Rightarrow>
         bnd new_state (\<lambda>n. bnd (tm_find_register q dr n) (\<lambda>q.
         bnd new_state (\<lambda>n. bnd (tm_move q 1 n) (\<lambda>q.
         bnd (case src inst of
                REG sr \<Rightarrow>
                  if dr = sr then error NotImplemented
                  else
                    bnd new_state (\<lambda>n. bnd (tm_move q 1 n) (\<lambda>q.
                    bnd new_state (\<lambda>n. bnd (tm_write q DST 0 n) (\<lambda>q.
                    bnd new_state (\<lambda>n. bnd (tm_rewind q n) (\<lambda>q.
                    bnd new_state (\<lambda>n. bnd (tm_find_register q sr n) (\<lambda>q.
                    bnd new_state (\<lambda>n.
                      bnd (tm_copy_to_scratch q (intcmp (int dr) (int sr)) n) (\<lambda>q.
                    bnd new_state (\<lambda>n. tm_move q (-1) n)))))))))))
              | IMM v \<Rightarrow> bnd new_state (\<lambda>n. tm_write_word q (word_of_int v) n)
              | OTHER \<Rightarrow> error InvalidSrcType) (\<lambda>q.
         bnd new_state (\<lambda>n. bnd (tm_move q (-1) n) (\<lambda>q.
         bnd (if op inst = ADD then bnd new_state (\<lambda>n. tm_add q n)
              else if op inst = SUB then bnd new_state (\<lambda>n. tm_sub q n)
              else ret q) (\<lambda>q.
         bnd new_state (\<lambda>n. tm_rewind q n)))))))))
     | _ \<Rightarrow> error AssertionFailed)"

definition tm_inst :: "int \<Rightarrow> Inst \<Rightarrow> int gm" where
  "tm_inst q inst =
    (case op inst of
       MOV \<Rightarrow>
        (case dst inst of
           REG dr \<Rightarrow>
            (case src inst of
               REG sr \<Rightarrow>
                 if dr = sr then ret q
                 else
                   bnd new_state (\<lambda>n. bnd (tm_find_register q dr n) (\<lambda>q.
                   bnd new_state (\<lambda>n. bnd (tm_write q DST (-1) n) (\<lambda>q.
                   bnd new_state (\<lambda>n. bnd (tm_rewind q n) (\<lambda>q.
                   bnd new_state (\<lambda>n. bnd (tm_find_register q sr n) (\<lambda>q.
                   bnd new_state (\<lambda>n. bnd (tm_copy q (intcmp (int dr) (int sr)) n) (\<lambda>q.
                   bnd new_state (\<lambda>n. tm_rewind q n)))))))))))
             | IMM v \<Rightarrow>
                 bnd new_state (\<lambda>n. bnd (tm_find_register q dr n) (\<lambda>q.
                 bnd new_state (\<lambda>n. bnd (tm_write_word q (word_of_int v) n) (\<lambda>q.
                 bnd new_state (\<lambda>n. tm_rewind q n)))))
             | OTHER \<Rightarrow> error InvalidSrcType)
         | _ \<Rightarrow> error AssertionFailed)
     | ADD \<Rightarrow> tm_arith q inst
     | SUB \<Rightarrow> tm_arith q inst
     | JMP \<Rightarrow>
        (case jmp inst of
           REG _ \<Rightarrow> error NotImplemented
         | IMM t \<Rightarrow> tm_noop q t
         | OTHER \<Rightarrow> error InvalidJmpType)
     | PUTC \<Rightarrow>
         bnd new_state (\<lambda>n. bnd (tm_ffwd q n) (\<lambda>q.
         bnd new_state (\<lambda>n. bnd (tm_write q OUTPUT 1 n) (\<lambda>q.
         bnd (case src inst of
                REG sr \<Rightarrow>
                  bnd new_state (\<lambda>n. bnd (tm_write q DST (-1) n) (\<lambda>q.
                  bnd new_state (\<lambda>n. bnd (tm_rewind q n) (\<lambda>q.
                  bnd new_state (\<lambda>n. bnd (tm_find_register q sr n) (\<lambda>q.
                  bnd new_state (\<lambda>n. tm_copy q 1 n)))))))
              | IMM v \<Rightarrow> bnd new_state (\<lambda>n. tm_write_byte q (word_of_int v) n)
              | OTHER \<Rightarrow> error InvalidSrcType) (\<lambda>q.
         bnd new_state (\<lambda>n. bnd (tm_write q BLANK 1 n) (\<lambda>q.
         bnd new_state (\<lambda>n. bnd (tm_write q END 0 n) (\<lambda>q.
         bnd new_state (\<lambda>n. tm_rewind q n))))))))))
     | EXIT \<Rightarrow>
         bnd new_state (\<lambda>n. bnd (tm_write q DST 1 n) (\<lambda>q.
         bnd new_state (\<lambda>q_clear.
         (let q_findo = q in
          bnd new_state (\<lambda>n. bnd (tm_find q 1 OUTPUT n q_clear) (\<lambda>q.
          bnd new_state (\<lambda>n. bnd (tm_write q BLANK 1 n) (\<lambda>q.
          bnd new_state (\<lambda>n. bnd (tm_copy_compact q (-1) n) (\<lambda>q.
          bnd (tm_write q DST 1 q_findo) (\<lambda>_.
          bnd new_state (\<lambda>n. bnd (tm_ffwd q_clear n) (\<lambda>q_clear.
          bnd (tm_write_if q_clear DST BLANK 0 (-1) BLANK (-1) q_clear) (\<lambda>_.
          ret q))))))))))))))
     | DUMP \<Rightarrow> ret q
     | OTHER_OP \<Rightarrow> error NotImplemented)"

section \<open>The program driver\<close>

text \<open>
  The first loop of \<open>target_tm\<close>: the state counter starts above the highest pc. The sum
  \<open>pc + 1\<close> is the integers' here; it is the program's for every pc below \<open>int_max\<close>.
\<close>

definition seed_next_state :: "Inst list \<Rightarrow> int" where
  "seed_next_state insts = foldl (\<lambda>n inst. if pc inst \<ge> n then pc inst + 1 else n) 0 insts"

text \<open>The loop \<open>for (Reg reg = 0; reg < 6; reg++)\<close>, over the list of its values.\<close>

fun tm_init_registers :: "nat list \<Rightarrow> int \<Rightarrow> int gm" where
  "tm_init_registers [] q = ret q"
| "tm_init_registers (reg # regs) q =
     bnd new_state (\<lambda>n. bnd (tm_write q BLANK 1 n) (\<lambda>q.
     bnd new_state (\<lambda>n. bnd (tm_write q REGISTER 1 n) (\<lambda>q.
     bnd new_state (\<lambda>n. bnd (tm_write_word q (of_nat reg) n) (\<lambda>q.
     bnd new_state (\<lambda>n. bnd (tm_write q BLANK 1 n) (\<lambda>q.
     bnd new_state (\<lambda>n. bnd (tm_write q VALUE 1 n) (\<lambda>q.
     bnd new_state (\<lambda>n. bnd (tm_write_word q 0 n) (\<lambda>q.
     tm_init_registers regs q))))))))))))"

text \<open>
  The loop \<open>while (data)\<close>, with the address counter \<open>mp\<close>. For each datum the source
  first prints a comment line, whose format it picks with \<open>isprint(data->v)\<close>. Comment
  lines are not part of the table, but \<open>isprint\<close> is defined only for the values of
  \<open>unsigned char\<close> and for \<open>EOF\<close>: outside \<open>data_in_range\<close> the behaviour of the C program
  is undefined, and theorems about arbitrary data segments assume it.
\<close>

definition data_in_range :: "int list \<Rightarrow> bool" where
  "data_in_range vs = (\<forall>v \<in> set vs. -1 \<le> v \<and> v \<le> 255)"

fun tm_init_memory :: "int list \<Rightarrow> nat \<Rightarrow> int \<Rightarrow> int gm" where
  "tm_init_memory [] mp q = ret q"
| "tm_init_memory (v # rest) mp q =
     bnd new_state (\<lambda>n. bnd (tm_write q BLANK 1 n) (\<lambda>q.
     bnd new_state (\<lambda>n. bnd (tm_write q ADDRESS 1 n) (\<lambda>q.
     bnd new_state (\<lambda>n. bnd (tm_write_word q (of_nat mp) n) (\<lambda>q.
     bnd new_state (\<lambda>n. bnd (tm_write q BLANK 1 n) (\<lambda>q.
     bnd new_state (\<lambda>n. bnd (tm_write q VALUE 1 n) (\<lambda>q.
     bnd new_state (\<lambda>n. bnd (tm_write_word q (word_of_int v) n) (\<lambda>q.
     tm_init_memory rest (Suc mp) q))))))))))))"

text \<open>Everything \<open>target_tm\<close> emits before its instruction loop.\<close>

definition tm_prologue :: "Module \<Rightarrow> int gm" where
  "tm_prologue m =
     (\<lambda>g. (bnd new_state (\<lambda>rej. (\<lambda>g. (bnd new_state (\<lambda>n. bnd (tm_write 0 START 1 n) (\<lambda>q.
              bnd (tm_init_registers [0, 1, 2, 3, 4, 5] q) (\<lambda>q.
              bnd (tm_init_memory (module_data m) 0 q) (\<lambda>q.
              bnd new_state (\<lambda>n. bnd (tm_write q BLANK 1 n) (\<lambda>q.
              bnd new_state (\<lambda>n. bnd (tm_write q END (-1) n) (\<lambda>q.
              bnd new_state (\<lambda>n. tm_rewind q n)))))))))) (g\<lparr>q_reject := rej\<rparr>))))
           (g\<lparr>next_state := seed_next_state (module_text m)\<rparr>))"

text \<open>
  The instruction loop, with \<open>prev_pc\<close> and the current state \<open>q\<close>: the stitch to a new pc,
  then the instruction.
\<close>

fun tm_text :: "int \<Rightarrow> int \<Rightarrow> Inst list \<Rightarrow> int gm" where
  "tm_text prev_pc q [] = ret q"
| "tm_text prev_pc q (inst # rest) =
     bnd (if pc inst \<noteq> prev_pc \<and> q \<noteq> pc inst then tm_noop q (pc inst) else ret q) (\<lambda>q.
     bnd (tm_inst q inst) (\<lambda>q.
     tm_text (pc inst) q rest))"

definition target_tm :: "Module \<Rightarrow> int gm" where
  "target_tm m = bnd (tm_prologue m) (\<lambda>q. tm_text 0 q (module_text m))"

text \<open>The generator starts with nothing written.\<close>

definition gen0 :: gen where
  "gen0 = \<lparr>next_state = 0, q_reject = 0, out = []\<rparr>"

text \<open>
  The state counter of the whole generation stays within C's \<open>int\<close>. The counter only
  grows, from above the highest pc, so this bounds every pc and every state the generator
  allocates; under it no \<open>int\<close> of the program overflows and the model computes what the
  program computes.
\<close>

definition counter_fits :: "Module \<Rightarrow> bool" where
  "counter_fits m = (next_state (snd (target_tm m gen0)) \<le> int_max)"

text \<open>The modules on which the behaviour of the C program is defined.\<close>

definition run_defined :: "Module \<Rightarrow> bool" where
  "run_defined m = (data_in_range (module_data m) \<and> counter_fits m)"

section \<open>The machine that runs the table\<close>

text \<open>
  Modelled from the spec: the interpreter of the emitted table is external. A transition
  is \<open>(state, read-symbol) \<rightarrow> (next-state, write-symbol, move)\<close>; the machine has one
  tape, one head and one active state. A configuration is the state, the tape (a symbol
  for every cell) and the head position. The machine takes the first line of the table that
  matches its state and the symbol under the head; with no such line it halts.
\<close>

type_synonym config = "int \<times> (int \<Rightarrow> symbol_t) \<times> int"

definition lookup :: "transition list \<Rightarrow> int \<Rightarrow> symbol_t \<Rightarrow> transition option" where
  "lookup T q a = find (\<lambda>t. t_state t = q \<and> t_read t = a) T"

definition offset :: "dname \<Rightarrow> int" where
  "offset d = (case d of DirL \<Rightarrow> -1 | DirN \<Rightarrow> 0 | DirR \<Rightarrow> 1)"

definition step :: "transition list \<Rightarrow> config \<Rightarrow> config option" where
  "step T c =
     (case c of (q, tape, h) \<Rightarrow>
        (case lookup T q (tape h) of
           None \<Rightarrow> None
         | Some t \<Rightarrow> Some (t_next t, tape(h := t_write t), h + offset (t_dir t))))"

text \<open>\<open>run T n c\<close>: the configuration after exactly \<open>n\<close> steps, if the machine makes that many.\<close>

fun run :: "transition list \<Rightarrow> nat \<Rightarrow> config \<Rightarrow> config option" where
  "run T 0 c = Some c"
| "run T (Suc n) c = (case step T c of None \<Rightarrow> None | Some c' \<Rightarrow> run T n c')"

text \<open>The lines an emitter writes, started with nothing written.\<close>

definition code_of :: "'a gm \<Rightarrow> gen \<Rightarrow> transition list" where
  "code_of m g = out (snd (m (g\<lparr>out := []\<rparr>)))"

section \<open>Auxiliary definitions for the proofs\<close>

definition adv :: "int \<Rightarrow> transition list \<Rightarrow> gen \<Rightarrow> gen" where
  "adv k ts g = g\<lparr>next_state := next_state g + k, out := out g @ ts\<rparr>"

abbreviation emit :: "transition list \<Rightarrow> gen \<Rightarrow> gen" where
  "emit ts \<equiv> adv 0 ts"

definition dir_ok :: "int \<Rightarrow> bool" where
  "dir_ok d = (d = -1 \<or> d = 0 \<or> d = 1)"

definition dn :: "int \<Rightarrow> dname" where
  "dn d = (if d = -1 then DirL else if d = 0 then DirN else DirR)"

definition block :: "int \<Rightarrow> (symbol_t \<Rightarrow> symbol_t \<times> int \<times> int) \<Rightarrow> transition list" where
  "block q f = map (\<lambda>a. case f a of (b, d, r) \<Rightarrow> Transition q a r b (dn d)) all_symbols"

definition bsym :: "bool \<Rightarrow> symbol_t" where
  "bsym b = (if b then ONE else ZERO)"

fun write_bits_loop_code :: "nat \<Rightarrow> int \<Rightarrow> 32 word \<Rightarrow> int \<Rightarrow> transition list" where
  "write_bits_loop_code 0 q x n = []"
| "write_bits_loop_code (Suc i) q x n =
     block q (\<lambda>s. (s, 1, n)) @ block n (\<lambda>s. (bsym (bit x (Suc i)), 1, n + 1)) @
     write_bits_loop_code i (n + 1) x (n + 2)"

definition write_bits_code :: "int \<Rightarrow> 32 word \<Rightarrow> int \<Rightarrow> int \<Rightarrow> transition list" where
  "write_bits_code q x r n =
     write_bits_loop_code 7 q x n @ block (n + 13) (\<lambda>s. (s, 1, n + 14)) @
     block (n + 14) (\<lambda>s. (bsym (bit x 0), 1, r))"

definition find_code :: "int \<Rightarrow> int \<Rightarrow> symbol_t \<Rightarrow> int \<Rightarrow> int \<Rightarrow> transition list" where
  "find_code q d a r_yes r_no =
     block q (\<lambda>s. if s = a then (s, 0, r_yes)
        else if s = (if d < 0 then START else END) then (s, 0, r_no) else (s, d, q))"

fun find_register_loop_code ::
  "nat \<Rightarrow> int \<Rightarrow> nat \<Rightarrow> int \<Rightarrow> int \<Rightarrow> int \<Rightarrow> transition list" where
  "find_register_loop_code 0 qstart reg rej q n = []"
| "find_register_loop_code (Suc i) qstart reg rej q n =
     block q (\<lambda>s. (s, 1, n)) @
     block n (\<lambda>s. if s = bsym (bit reg i) then (s, 1, n + 1)
                   else if s = END then (s, 0, rej) else (s, 1, qstart)) @
     find_register_loop_code i qstart reg rej (n + 1) (n + 2)"

definition find_register_code :: "int \<Rightarrow> nat \<Rightarrow> int \<Rightarrow> int \<Rightarrow> int \<Rightarrow> transition list" where
  "find_register_code q reg r n rej =
     find_code q 1 REGISTER n rej @ block n (\<lambda>s. (s, 1, n + 1)) @
     find_register_loop_code 8 q reg rej (n + 1) (n + 2) @
     block (n + 17) (\<lambda>s. (s, 1, n + 18)) @
     block (n + 18) (\<lambda>s. if s = VALUE then (s, 1, r) else (s, 0, rej))"

definition copy_helper_code ::
  "int \<Rightarrow> int \<Rightarrow> bool \<Rightarrow> bool \<Rightarrow> int \<Rightarrow> int \<Rightarrow> int \<Rightarrow> transition list" where
  "copy_helper_code q d bb ba r n rej =
     (let w0 = n + 8;
          s1 = (if bb then n + 9 else n + 8);
          f1 = s1 + 1;
          w1 = s1 + 2;
          b2 = (if bb then s1 + 3 else s1 + 2);
          dd = (if ba then b2 + 1 else b2);
          cl = dd + 1
      in block q (\<lambda>s. (SRC, 0, n)) @
         block n (\<lambda>s. (BLANK, 1, n + 1)) @
         block (n + 1) (\<lambda>s. if s = ZERO then (s, 1, n + 2)
                             else if s = ONE then (s, 1, n + 3) else (s, 0, n + 4)) @
         block (n + 2) (\<lambda>s. (SRC, 1, n + 6)) @
         find_code (n + 6) d DST (n + 7) rej @
         (if bb then block (n + 7) (\<lambda>s. (BLANK, 1, w0)) else []) @
         block (if bb then w0 else n + 7) (\<lambda>s. (ZERO, 1, n + 5)) @
         block (n + 3) (\<lambda>s. (SRC, 1, s1)) @
         find_code s1 d DST f1 rej @
         (if bb then block f1 (\<lambda>s. (BLANK, 1, w1)) else []) @
         block (if bb then w1 else f1) (\<lambda>s. (ONE, 1, n + 5)) @
         (if ba then block (n + 5) (\<lambda>s. (s, 1, b2)) else []) @
         block (if ba then b2 else n + 5) (\<lambda>s. (DST, 0, dd)) @
         find_code dd (- d) SRC n rej @
         find_code (n + 4) d DST cl rej @
         block cl (\<lambda>s. (BLANK, 0, r)))"

definition add_code :: "int \<Rightarrow> int \<Rightarrow> int \<Rightarrow> int \<Rightarrow> transition list" where
  "add_code q r n rej =
     block q (\<lambda>s. if s = ZERO then (BLANK, -1, n + 1)
                   else if s = ONE then (BLANK, -1, n + 2) else (BLANK, 0, r)) @
     block n (\<lambda>s. if s = ZERO then (BLANK, -1, n + 2)
                   else if s = ONE then (BLANK, -1, n + 3) else (BLANK, 0, r)) @
     block (n + 1) (\<lambda>s. if s = ZERO then (ZERO, -1, q)
                   else if s = ONE then (ONE, -1, q) else (ZERO, 0, rej)) @
     block (n + 2) (\<lambda>s. if s = ZERO then (ONE, -1, q)
                   else if s = ONE then (ZERO, -1, n) else (ZERO, 0, rej)) @
     block (n + 3) (\<lambda>s. if s = ZERO then (ZERO, -1, n)
                   else if s = ONE then (ONE, -1, n) else (ZERO, 0, rej))"

definition sub_code :: "int \<Rightarrow> int \<Rightarrow> int \<Rightarrow> int \<Rightarrow> transition list" where
  "sub_code q r n rej =
     block q (\<lambda>s. if s = ZERO then (BLANK, -1, n + 1)
                   else if s = ONE then (BLANK, -1, n + 2) else (BLANK, 0, r)) @
     block n (\<lambda>s. if s = ZERO then (BLANK, -1, n + 2)
                   else if s = ONE then (BLANK, -1, n + 3) else (BLANK, 0, r)) @
     block (n + 1) (\<lambda>s. if s = ZERO then (ZERO, -1, q)
                   else if s = ONE then (ONE, -1, q) else (ZERO, 0, rej)) @
     block (n + 2) (\<lambda>s. if s = ZERO then (ONE, -1, n)
                   else if s = ONE then (ZERO, -1, q) else (ZERO, 0, rej)) @
     block (n + 3) (\<lambda>s. if s = ZERO then (ZERO, -1, n)
                   else if s = ONE then (ONE, -1, n) else (ZERO, 0, rej))"

definition srcs :: "transition list \<Rightarrow> int set" where
  "srcs N = t_state ` set N"

definition tgts :: "transition list \<Rightarrow> int set" where
  "tgts N = t_next ` set N"

definition full :: "transition list \<Rightarrow> bool" where
  "full N = (\<forall>t \<in> set N. \<forall>a. \<exists>t' \<in> set N. t_state t' = t_state t \<and> t_read t' = a)"

definition edge :: "transition list \<Rightarrow> int \<Rightarrow> int \<Rightarrow> bool" where
  "edge N a b = (\<exists>t \<in> set N. t_state t = a \<and> t_next t = b)"

definition reach :: "transition list \<Rightarrow> int \<Rightarrow> int \<Rightarrow> bool" where
  "reach N = rtranclp (edge N)"

definition chain ::
  "int set \<Rightarrow> int set \<Rightarrow> int \<Rightarrow> int option \<Rightarrow> int \<Rightarrow> int \<Rightarrow> transition list \<Rightarrow> bool" where
  "chain XS XT q ro n k N =
     (srcs N \<subseteq> insert q XS \<union> {n ..< n + k} \<and>
      tgts N \<subseteq> insert q XS \<union> XT \<union> {n ..< n + k} \<and>
      full N \<and> (N \<noteq> [] \<longrightarrow> t_state (hd N) = q) \<and>
      (\<forall>r. ro = Some r \<longrightarrow>
         r \<in> insert q XS \<union> {n ..< n + k} \<and> reach N q r \<and> (N = [] \<longrightarrow> r = q)))"

text \<open>The generator's state after a run that allocated and wrote what \<open>g\<close> holds: an abort
  leaves no table.\<close>

definition kept :: "gen_error + 'a \<Rightarrow> gen \<Rightarrow> gen" where
  "kept r g = (case r of Inl e \<Rightarrow> g\<lparr>out := []\<rparr> | Inr x \<Rightarrow> g)"

definition unit_ok :: "int set \<Rightarrow> int set \<Rightarrow> int \<Rightarrow> int gm \<Rightarrow> bool" where
  "unit_ok XS XT q m =
     (\<forall>g. q_reject g \<in> XT \<longrightarrow>
        (\<exists>k N. snd (m g) = kept (fst (m g)) (adv k N g) \<and> 0 \<le> k \<and>
           chain XS XT q (case fst (m g) of Inl e \<Rightarrow> None | Inr r \<Rightarrow> Some r) (next_state g) k N))"

definition exit_code :: "int \<Rightarrow> int \<Rightarrow> int \<Rightarrow> transition list" where
  "exit_code q n rej =
     block q (\<lambda>s. (DST, 1, n)) @
     find_code n 1 OUTPUT (n + 2) (n + 1) @
     block (n + 2) (\<lambda>s. (BLANK, 1, n + 3)) @
     copy_helper_code (n + 3) (-1) False False (n + 4) (n + 5) rej @
     block (n + 4) (\<lambda>s. (DST, 1, n)) @
     block (n + 1) (\<lambda>s. if s = END then (s, 0, n + 17) else (s, 1, n + 1)) @
     block (n + 17) (\<lambda>s. if s = DST then (BLANK, 0, -1) else (BLANK, -1, n + 17))"

definition jmp_targets :: "Inst \<Rightarrow> int set" where
  "jmp_targets inst =
     (case op inst of JMP \<Rightarrow> (case jmp inst of IMM t \<Rightarrow> {t} | _ \<Rightarrow> {}) | _ \<Rightarrow> {})"

text \<open>The generator's state once \<open>target_tm\<close> has set its two globals.\<close>

definition seeded :: "Module \<Rightarrow> gen \<Rightarrow> gen" where
  "seeded m g =
     g\<lparr>next_state := seed_next_state (module_text m) + 1,
       q_reject := seed_next_state (module_text m)\<rparr>"

text \<open>The prologue after the two globals are set.\<close>

definition prologue_body :: "Module \<Rightarrow> int gm" where
  "prologue_body m =
     bnd new_state (\<lambda>n. bnd (tm_write 0 START 1 n) (\<lambda>q.
     bnd (tm_init_registers [0, 1, 2, 3, 4, 5] q) (\<lambda>q.
     bnd (tm_init_memory (module_data m) 0 q) (\<lambda>q.
     bnd new_state (\<lambda>n. bnd (tm_write q BLANK 1 n) (\<lambda>q.
     bnd new_state (\<lambda>n. bnd (tm_write q END (-1) n) (\<lambda>q.
     bnd new_state (\<lambda>n. tm_rewind q n)))))))))"

definition text_states :: "Module \<Rightarrow> int set" where
  "text_states m = (\<Union>i \<in> set (module_text m). insert (pc i) (jmp_targets i))"

definition halt_states :: "Module \<Rightarrow> int set" where
  "halt_states m = (if \<exists>i \<in> set (module_text m). op i = EXIT then {-1} else {})"

text \<open>The six register blocks of the prologue, from state \<open>q\<close> with first free state \<open>n\<close>.\<close>

fun init_registers_code :: "nat list \<Rightarrow> int \<Rightarrow> int \<Rightarrow> transition list" where
  "init_registers_code [] q n = []"
| "init_registers_code (reg # regs) q n =
     block q (\<lambda>a. (BLANK, 1, n)) @ block n (\<lambda>a. (REGISTER, 1, n + 1)) @
     write_bits_code (n + 1) (of_nat reg) (n + 2) (n + 3) @
     block (n + 2) (\<lambda>a. (BLANK, 1, n + 18)) @ block (n + 18) (\<lambda>a. (VALUE, 1, n + 19)) @
     write_bits_code (n + 19) 0 (n + 20) (n + 21) @
     init_registers_code regs (n + 20) (n + 36)"

fun init_memory_code :: "int list \<Rightarrow> nat \<Rightarrow> int \<Rightarrow> int \<Rightarrow> transition list" where
  "init_memory_code [] mp q n = []"
| "init_memory_code (v # vs) mp q n =
     block q (\<lambda>a. (BLANK, 1, n)) @ block n (\<lambda>a. (ADDRESS, 1, n + 1)) @
     write_bits_code (n + 1) (of_nat mp) (n + 2) (n + 3) @
     block (n + 2) (\<lambda>a. (BLANK, 1, n + 18)) @ block (n + 18) (\<lambda>a. (VALUE, 1, n + 19)) @
     write_bits_code (n + 19) (word_of_int v) (n + 20) (n + 21) @
     init_memory_code vs (Suc mp) (n + 20) (n + 36)"

text \<open>Everything the prologue writes; \<open>n\<close> is the first free state after the reject state.\<close>

definition prologue_code :: "Module \<Rightarrow> int \<Rightarrow> transition list" where
  "prologue_code m n =
     (let l = 36 * int (length (module_data m));
          q2 = (if module_data m = [] then n + 201 else n + 201 + l)
      in block 0 (\<lambda>a. (START, 1, n)) @
         init_registers_code [0, 1, 2, 3, 4, 5] n (n + 1) @
         init_memory_code (module_data m) 0 (n + 201) (n + 217) @
         block q2 (\<lambda>a. (BLANK, 1, n + 217 + l)) @
         block (n + 217 + l) (\<lambda>a. (END, -1, n + 218 + l)) @
         block (n + 218 + l)
           (\<lambda>s. if s = START then (s, 0, n + 219 + l) else (s, -1, n + 218 + l)))"

definition same_reg_arith :: "Inst \<Rightarrow> bool" where
  "same_reg_arith inst = (\<exists>r. dst inst = REG r \<and> src inst = REG r)"

text \<open>
  The four unsupported shapes: a register-indirect jump or a jump operand of an invalid kind,
  a same-register register-to-register \<open>ADD\<close> or \<open>SUB\<close>, an unrecognised opcode, and a
  source operand of an invalid kind.
\<close>

definition unsupported :: "Inst \<Rightarrow> bool" where
  "unsupported inst =
     (case op inst of
        JMP \<Rightarrow> (case jmp inst of IMM t \<Rightarrow> False | _ \<Rightarrow> True)
      | ADD \<Rightarrow> src inst = OTHER \<or> same_reg_arith inst
      | SUB \<Rightarrow> src inst = OTHER \<or> same_reg_arith inst
      | MOV \<Rightarrow> src inst = OTHER
      | PUTC \<Rightarrow> src inst = OTHER
      | OTHER_OP \<Rightarrow> True
      | _ \<Rightarrow> False)"

definition failed :: "(gen_error + 'a) \<times> gen \<Rightarrow> bool" where
  "failed rg = (case fst rg of Inl e \<Rightarrow> True | Inr x \<Rightarrow> False)"

text \<open>The table \<open>T\<close> answers for state \<open>q\<close> as the block \<open>block q f\<close> does.\<close>

definition has :: "transition list \<Rightarrow> int \<Rightarrow> (symbol_t \<Rightarrow> symbol_t \<times> int \<times> int) \<Rightarrow> bool" where
  "has T q f =
     (\<forall>a. lookup T q a =
        Some (Transition q a (snd (snd (f a))) (fst (f a)) (dn (fst (snd (f a))))))"

definition runs :: "transition list \<Rightarrow> config \<Rightarrow> config \<Rightarrow> bool" where
  "runs T c c' = (\<exists>n. run T n c = Some c')"

text \<open>
  Ripple-carry addition and ripple-borrow subtraction on pairs (main bit, scratch bit),
  least significant pair first: the result bits and the outgoing carry or borrow.
\<close>

fun add_bits :: "bool \<Rightarrow> (bool \<times> bool) list \<Rightarrow> bool list \<times> bool" where
  "add_bits c [] = ([], c)"
| "add_bits c ((x, y) # ps) =
     (let r = add_bits ((x \<and> y) \<or> (c \<and> (x \<or> y))) ps
      in (((x \<noteq> y) \<noteq> c) # fst r, snd r))"

fun sub_bits :: "bool \<Rightarrow> (bool \<times> bool) list \<Rightarrow> bool list \<times> bool" where
  "sub_bits c [] = ([], c)"
| "sub_bits c ((x, y) # ps) =
     (let r = sub_bits ((\<not> x \<and> (y \<or> c)) \<or> (y \<and> c)) ps
      in (((x \<noteq> y) \<noteq> c) # fst r, snd r))"

fun bits_val :: "bool list \<Rightarrow> nat" where
  "bits_val [] = 0"
| "bits_val (b # bs) = of_bool b + 2 * bits_val bs"

text \<open>A tape that holds \<open>a\<close> in the main cells 1, 3, ..., 15 and \<open>b\<close> in the scratch cells
  2, 4, ..., 16, most significant bit first, and blanks elsewhere.\<close>

definition interleaved :: "8 word \<Rightarrow> 8 word \<Rightarrow> int \<Rightarrow> symbol_t" where
  "interleaved a b i =
     (if 1 \<le> i \<and> i \<le> 16
      then (if odd i then bsym (bit a (nat ((15 - i) div 2))) else bsym (bit b (nat ((16 - i) div 2))))
      else BLANK)"

text \<open>The table \<open>T\<close> answers as \<open>N\<close> does for every state that has lines in \<open>N\<close>.\<close>

definition sub_table :: "transition list \<Rightarrow> transition list \<Rightarrow> bool" where
  "sub_table N T = (\<forall>q \<in> srcs N. \<forall>a. lookup T q a = lookup N q a)"

text \<open>The table \<open>T\<close> holds the blocks of \<open>tm_find_register q reg r\<close> with first free state
  \<open>n\<close>.\<close>

definition fr_table ::
  "transition list \<Rightarrow> int \<Rightarrow> nat \<Rightarrow> int \<Rightarrow> int \<Rightarrow> int \<Rightarrow> bool" where
  "fr_table T q reg r n rej =
     (has T q (\<lambda>s. if s = REGISTER then (s, 0, n) else if s = END then (s, 0, rej) else (s, 1, q)) \<and>
      has T n (\<lambda>s. (s, 1, n + 1)) \<and>
      (\<forall>j < 8. has T (n + 1 + 2 * int j) (\<lambda>s. (s, 1, n + 2 + 2 * int j)) \<and>
         has T (n + 2 + 2 * int j)
           (\<lambda>s. if s = bsym (bit reg (7 - j)) then (s, 1, n + 3 + 2 * int j)
                else if s = END then (s, 0, rej) else (s, 1, q))) \<and>
      has T (n + 17) (\<lambda>s. (s, 1, n + 18)) \<and>
      has T (n + 18) (\<lambda>s. if s = VALUE then (s, 1, r) else (s, 0, rej)))"

text \<open>A register block with its marker at cell \<open>m\<close>: the marker, the eight index bits (most
  significant first) each after a scratch cell, and the value marker; no other register marker
  and no end sentinel within the block's header.\<close>

definition reg_block :: "(int \<Rightarrow> symbol_t) \<Rightarrow> int \<Rightarrow> nat \<Rightarrow> bool" where
  "reg_block tape m idx =
     (tape m = REGISTER \<and> (\<forall>k < 8. tape (m + 2 + 2 * int k) = bsym (bit idx (7 - k))) \<and>
      tape (m + 18) = VALUE \<and>
      (\<forall>i. m < i \<and> i \<le> m + 18 \<longrightarrow> tape i \<noteq> REGISTER \<and> tape i \<noteq> END))"

definition no_marker :: "(int \<Rightarrow> symbol_t) \<Rightarrow> int \<Rightarrow> int \<Rightarrow> bool" where
  "no_marker tape a b = (\<forall>i. a \<le> i \<and> i < b \<longrightarrow> tape i \<noteq> REGISTER \<and> tape i \<noteq> END)"

definition same8 :: "nat \<Rightarrow> nat \<Rightarrow> bool" where
  "same8 idx reg = (\<forall>k < 8. bit idx k = bit reg k)"

text \<open>The register blocks of a tape from cell \<open>h\<close> on, in tape order, up to the end sentinel
  at cell \<open>e\<close>.\<close>

fun blocks :: "(int \<Rightarrow> symbol_t) \<Rightarrow> int \<Rightarrow> (int \<times> nat) list \<Rightarrow> int \<Rightarrow> bool" where
  "blocks tape h [] e = (h \<le> e \<and> no_marker tape h e \<and> tape e = END)"
| "blocks tape h (b # bs) e =
     (h \<le> fst b \<and> no_marker tape h (fst b) \<and> reg_block tape (fst b) (snd b) \<and>
      blocks tape (fst b + 1) bs e)"

text \<open>The tape whose cells \<open>0, 1, \<dots>\<close> hold the given symbols; every other cell is blank.\<close>

definition tape_of :: "symbol_t list \<Rightarrow> int \<Rightarrow> symbol_t" where
  "tape_of cells i = (if 0 \<le> i \<and> i < int (length cells) then cells ! nat i else BLANK)"

text \<open>A word as \<open>tm_write_bits\<close> lays it out: a scratch cell before each bit, the most
  significant bit first.\<close>

fun spread_bits :: "nat \<Rightarrow> nat \<Rightarrow> symbol_t list" where
  "spread_bits w 0 = []"
| "spread_bits w (Suc i) = BLANK # bsym (bit w i) # spread_bits w i"

definition spread :: "nat \<Rightarrow> symbol_t list" where
  "spread w = spread_bits w 8"

text \<open>A register block as \<open>tm_init_registers\<close> writes it, for an index and a value.\<close>

definition reg_cells :: "nat \<times> nat \<Rightarrow> symbol_t list" where
  "reg_cells b = [BLANK, REGISTER] @ spread (fst b) @ [BLANK, VALUE] @ spread (snd b)"

text \<open>The cells \<open>cs\<close> lie on the tape from cell \<open>off\<close> on.\<close>

definition cells_at :: "(int \<Rightarrow> symbol_t) \<Rightarrow> int \<Rightarrow> symbol_t list \<Rightarrow> bool" where
  "cells_at tape off cs = (\<forall>i < length cs. tape (off + int i) = cs ! i)"

fun reg_blocks :: "int \<Rightarrow> (nat \<times> nat) list \<Rightarrow> (int \<times> nat) list" where
  "reg_blocks off [] = []"
| "reg_blocks off (b # bs) = (off + 1, fst b) # reg_blocks (off + 36) bs"

text \<open>The position in the list of the first register block whose index agrees with \<open>reg\<close> on
  the eight bits that \<open>tm_find_register\<close> compares.\<close>

fun first_reg :: "nat \<Rightarrow> (nat \<times> nat) list \<Rightarrow> nat option" where
  "first_reg reg [] = None"
| "first_reg reg (b # bs) =
     (if same8 (fst b) reg then Some 0 else map_option Suc (first_reg reg bs))"

text \<open>The transitions of a state emitted by \<open>tm_find q d a r_yes r_no\<close>.\<close>

definition findf :: "int \<Rightarrow> symbol_t \<Rightarrow> int \<Rightarrow> int \<Rightarrow> int \<Rightarrow> symbol_t \<Rightarrow> symbol_t \<times> int \<times> int" where
  "findf d a ry rn q =
     (\<lambda>s. if s = a then (s, 0, ry)
          else if s = (if d < 0 then START else END) then (s, 0, rn) else (s, d, q))"

text \<open>The states of \<open>tm_copy_helper\<close> without the mode \<open>BLANK_AFTER_DST\<close>: the state that
  searches the destination marker for a bit, and the state that searches the source marker.\<close>

definition cp_find :: "int \<Rightarrow> bool \<Rightarrow> bool \<Rightarrow> int" where
  "cp_find n bb b = (if b then (if bb then n + 9 else n + 8) else n + 6)"

definition cp_back :: "int \<Rightarrow> bool \<Rightarrow> int" where
  "cp_back n bb = (if bb then n + 12 else n + 10)"

definition cp_off :: "bool \<Rightarrow> int" where
  "cp_off bb = (if bb then 1 else 0)"

text \<open>The copy loop over the bits \<open>bs\<close> of the source word, from the source marker position
  \<open>P\<close> and the destination marker position \<open>D\<close>.\<close>

definition cp_post ::
  "bool \<Rightarrow> bool list \<Rightarrow> int \<Rightarrow> int \<Rightarrow> (int \<Rightarrow> symbol_t) \<Rightarrow> (int \<Rightarrow> symbol_t) \<Rightarrow> bool" where
  "cp_post bb bs P D tape tape' =
     ((\<forall>j < length bs. tape' (D + (cp_off bb + 1) * int j + cp_off bb) = bsym (bs ! j)) \<and>
      (bb \<longrightarrow> (\<forall>j < length bs. tape' (D + 2 * int j) = BLANK)) \<and>
      tape' (D + (cp_off bb + 1) * int (length bs)) = BLANK \<and>
      (\<forall>j \<le> length bs. tape' (P + 2 * int j) = BLANK) \<and>
      (\<forall>i. \<not> (D \<le> i \<and> i \<le> D + (cp_off bb + 1) * int (length bs)) \<and>
           (\<forall>j \<le> length bs. i \<noteq> P + 2 * int j) \<longrightarrow> tape' i = tape i))"

definition putc_imm_code :: "int \<Rightarrow> 32 word \<Rightarrow> int \<Rightarrow> transition list" where
  "putc_imm_code q x n =
     block q (\<lambda>s. if s = END then (s, 0, n) else (s, 1, q)) @
     block n (\<lambda>s. (OUTPUT, 1, n + 1)) @
     write_bits_code (n + 1) x (n + 2) (n + 3) @
     block (n + 2) (\<lambda>s. (BLANK, 1, n + 18)) @
     block (n + 18) (\<lambda>s. (END, 0, n + 19)) @
     block (n + 19) (\<lambda>s. if s = START then (s, 0, n + 20) else (s, -1, n + 19))"

definition putc_reg_code :: "int \<Rightarrow> nat \<Rightarrow> int \<Rightarrow> int \<Rightarrow> transition list" where
  "putc_reg_code q sr n rej =
     block q (\<lambda>s. if s = END then (s, 0, n) else (s, 1, q)) @
     block n (\<lambda>s. (OUTPUT, 1, n + 1)) @
     block (n + 1) (\<lambda>s. (DST, -1, n + 2)) @
     block (n + 2) (\<lambda>s. if s = START then (s, 0, n + 3) else (s, -1, n + 2)) @
     find_register_code (n + 3) sr (n + 4) (n + 5) rej @
     copy_helper_code (n + 4) 1 True False (n + 24) (n + 25) rej @
     block (n + 24) (\<lambda>s. (BLANK, 1, n + 39)) @
     block (n + 39) (\<lambda>s. (END, 0, n + 40)) @
     block (n + 40) (\<lambda>s. if s = START then (s, 0, n + 41) else (s, -1, n + 40))"

fun blocks_upto :: "(int \<Rightarrow> symbol_t) \<Rightarrow> int \<Rightarrow> (int \<times> nat) list \<Rightarrow> bool" where
  "blocks_upto tape h [] = True"
| "blocks_upto tape h (b # bs) =
     (h \<le> fst b \<and> no_marker tape h (fst b) \<and> reg_block tape (fst b) (snd b) \<and>
      blocks_upto tape (fst b + 1) bs)"

text \<open>An output cell with its byte, as PUTC leaves it.\<close>

definition out_cells :: "nat \<Rightarrow> symbol_t list" where
  "out_cells v = OUTPUT # spread v @ [BLANK]"

text \<open>Cells that hold none of the markers the emitted states search for.\<close>

definition plain :: "symbol_t list \<Rightarrow> bool" where
  "plain cs = (START \<notin> set cs \<and> END \<notin> set cs \<and> REGISTER \<notin> set cs \<and> SRC \<notin> set cs \<and>
     DST \<notin> set cs)"

text \<open>The cell of the end sentinel on a well-formed tape.\<close>

definition wf_end :: "(nat \<times> nat) list \<Rightarrow> symbol_t list \<Rightarrow> int" where
  "wf_end regs rest = 1 + 36 * int (length regs) + int (length rest)"

text \<open>Emitters that never abort.\<close>

definition succeeds :: "'a gm \<Rightarrow> bool" where
  "succeeds m = (\<forall>g. \<not> failed (m g))"

text \<open>The instructions the generator accepts: a supported shape, and a register as the
  destination of MOV, ADD and SUB (the \<open>assert\<close> of the source).\<close>

definition accepted :: "Inst \<Rightarrow> bool" where
  "accepted inst =
     (\<not> unsupported inst \<and>
      (op inst = MOV \<or> op inst = ADD \<or> op inst = SUB \<longrightarrow> (\<exists>r. dst inst = REG r)))"

text \<open>The diagnostic of an instruction that the generator does not accept: \<open>not implemented\<close>,
  \<open>invalid src type\<close>, \<open>invalid jmp type\<close>, or the failed \<open>assert\<close>.\<close>

definition diagnostic :: "Inst \<Rightarrow> gen_error" where
  "diagnostic inst =
     (case op inst of
        JMP \<Rightarrow> (case jmp inst of REG r \<Rightarrow> NotImplemented | _ \<Rightarrow> InvalidJmpType)
      | MOV \<Rightarrow> (case dst inst of REG r \<Rightarrow> InvalidSrcType | _ \<Rightarrow> AssertionFailed)
      | ADD \<Rightarrow> (case dst inst of
                  REG r \<Rightarrow> (case src inst of OTHER \<Rightarrow> InvalidSrcType | _ \<Rightarrow> NotImplemented)
                | _ \<Rightarrow> AssertionFailed)
      | SUB \<Rightarrow> (case dst inst of
                  REG r \<Rightarrow> (case src inst of OTHER \<Rightarrow> InvalidSrcType | _ \<Rightarrow> NotImplemented)
                | _ \<Rightarrow> AssertionFailed)
      | PUTC \<Rightarrow> InvalidSrcType
      | _ \<Rightarrow> NotImplemented)"

text \<open>An aborted run: the diagnostic, and no table.\<close>

definition aborts :: "(gen_error + 'a) \<times> gen \<Rightarrow> gen_error \<Rightarrow> bool" where
  "aborts rg e = (fst rg = Inl e \<and> out (snd rg) = [])"

definition prog_jmp_reg :: Module where
  "prog_jmp_reg =
     \<lparr>module_text = [\<lparr>op = JMP, dst = OTHER, src = OTHER, jmp = REG 0, pc = 0\<rparr>],
      module_data = []\<rparr>"

definition prog_exit :: Module where
  "prog_exit =
     \<lparr>module_text = [\<lparr>op = EXIT, dst = OTHER, src = OTHER, jmp = OTHER, pc = 0\<rparr>],
      module_data = []\<rparr>"

definition prog_mov :: Module where
  "prog_mov =
     \<lparr>module_text = [\<lparr>op = MOV, dst = REG 0, src = IMM 5, jmp = OTHER, pc = 0\<rparr>],
      module_data = []\<rparr>"

definition prog_jmp_over :: Module where
  "prog_jmp_over =
     \<lparr>module_text = [\<lparr>op = JMP, dst = OTHER, src = OTHER, jmp = IMM 2, pc = 0\<rparr>,
                     \<lparr>op = DUMP, dst = OTHER, src = OTHER, jmp = OTHER, pc = 1\<rparr>,
                     \<lparr>op = PUTC, dst = OTHER, src = IMM 0, jmp = OTHER, pc = 2\<rparr>],
      module_data = []\<rparr>"

text \<open>A well-formed tape: the start sentinel, the register blocks, then the rest of the used
  tape (memory blocks and output cells, no register marker among them), then the end
  sentinel.\<close>

definition wf_tape :: "(nat \<times> nat) list \<Rightarrow> symbol_t list \<Rightarrow> symbol_t list" where
  "wf_tape regs rest = START # concat (map reg_cells regs) @ rest @ [END]"

text \<open>A memory block as \<open>tm_init_memory\<close> writes it, for an address and a value.\<close>

definition mem_cells :: "nat \<times> nat \<Rightarrow> symbol_t list" where
  "mem_cells b = [BLANK, ADDRESS] @ spread (fst b) @ [BLANK, VALUE] @ spread (snd b)"

text \<open>The tape as the prologue of \<open>target_tm\<close> leaves it (the start sentinel, the register
  blocks, the memory blocks, a blank and the end sentinel), with the output cells that PUTC
  instructions have put before the end sentinel since.\<close>

definition machine_tape :: "(nat \<times> nat) list \<Rightarrow> (nat \<times> nat) list \<Rightarrow> nat list \<Rightarrow> symbol_t list" where
  "machine_tape regs mem outs =
     wf_tape regs (concat (map mem_cells mem) @ BLANK # concat (map out_cells outs))"

text \<open>A loop: the block at pc 0 writes a character, the block at pc 1 jumps back to pc 0.\<close>

definition prog_loop :: Module where
  "prog_loop =
     \<lparr>module_text = [\<lparr>op = PUTC, dst = OTHER, src = IMM 65, jmp = OTHER, pc = 0\<rparr>,
                     \<lparr>op = JMP, dst = OTHER, src = OTHER, jmp = IMM 0, pc = 1\<rparr>],
      module_data = []\<rparr>"

lemma adv_simps [simp]:
  "next_state (adv k ts g) = next_state g + k"
  "q_reject (adv k ts g) = q_reject g"
  "out (adv k ts g) = out g @ ts"
  "adv k ts (adv j us g) = adv (j + k) (us @ ts) g"
  by (simp_all add: adv_def)

lemma adv_Nil [simp]: "adv 0 [] g = g"
  by (simp add: adv_def)

lemma bnd_ret [simp]: "bnd (ret x) f = f x"
  by (simp add: bnd_def ret_def)

lemma bnd_error [simp]: "bnd (error e) f = error e"
  by (simp add: bnd_def error_def)

lemma bnd_new_state:
  "bnd new_state f g = f (next_state g) (adv 1 [] g)"
  by (simp add: bnd_def new_state_def adv_def)

lemma bnd_get_q_reject: "bnd get_q_reject f g = f (q_reject g) g"
  by (simp add: bnd_def get_q_reject_def)

lemma bnd_assoc [simp]: "bnd (bnd m f) h = bnd m (\<lambda>x. bnd (f x) h)"
  by (auto simp: bnd_def fun_eq_iff split: prod.splits sum.splits)

lemmas gm_simps = bnd_new_state bnd_get_q_reject

lemma bnd_Inr: "m g = (Inr x, g') \<Longrightarrow> bnd m f g = f x g'"
  by (simp add: gm_simps bnd_def)

lemma bnd_Inl: "m g = (Inl e, g') \<Longrightarrow> bnd m f g = (Inl e, g')"
  by (simp add: gm_simps bnd_def)

lemma dir_ok_simps [simp]: "dir_ok 1" "dir_ok 0" "dir_ok (-1)" "dir_ok (intcmp x y)"
  "dir_ok (- d) = dir_ok d"
  by (auto simp: dir_ok_def intcmp_def)

lemma tm_transition_code:
  "dir_ok d \<Longrightarrow> tm_transition q a b d r g = (Inr r, emit [Transition q a r b (dn d)] g)"
  by (auto simp: dir_ok_def tm_transition_def dn_def bnd_def emit_line_def adv_def ret_def)

lemma for_symbols_code:
  assumes "\<And>s g. f s g = (Inr (r s), emit [t s] g)"
  shows "for_symbols ss f g = (Inr (), emit (map t ss) g)"
proof (induction ss arbitrary: g)
  case Nil
  show ?case by (simp add: gm_simps ret_def)
next
  case (Cons s ss)
  show ?case by (simp add: gm_simps bnd_Inr [OF assms] Cons.IH)
qed

lemma for_symbols_block:
  assumes "\<And>s. dir_ok (fst (snd (f s)))"
    and "\<And>s. h s = tm_transition q s (fst (f s)) (fst (snd (f s))) (snd (snd (f s)))"
  shows "for_symbols all_symbols h g = (Inr (), emit (block q f) g)"
proof -
  have "\<And>s g. h s g = (Inr (snd (snd (f s))),
      emit [case f s of (b, d, r) \<Rightarrow> Transition q s r b (dn d)] g)"
    by (simp add: gm_simps assms tm_transition_code split: prod.split)
  from for_symbols_code [of h, OF this] show ?thesis
    by (simp add: gm_simps block_def)
qed

lemma tm_write_code:
  "dir_ok d \<Longrightarrow> tm_write q b d r g = (Inr r, emit (block q (\<lambda>a. (b, d, r))) g)"
  unfolding tm_write_def
  by (subst bnd_Inr [OF for_symbols_block [where f = "\<lambda>a. (b, d, r)"]]) (simp_all add: ret_def)

lemma tm_write_if_code:
  "dir_ok da \<Longrightarrow> dir_ok d \<Longrightarrow> tm_write_if q a ba da ra b d r g =
     (Inr r, emit (block q (\<lambda>s. if s = a then (ba, da, ra) else (b, d, r))) g)"
  unfolding tm_write_if_def
  by (subst bnd_Inr [OF for_symbols_block
        [where f = "\<lambda>s. if s = a then (ba, da, ra) else (b, d, r)"]]) (simp_all add: ret_def)

lemma tm_write_if2_code:
  "dir_ok d1 \<Longrightarrow> dir_ok d2 \<Longrightarrow> dir_ok d \<Longrightarrow>
   tm_write_if2 q a1 b1 d1 r1 a2 b2 d2 r2 b d r g =
     (Inr r, emit (block q (\<lambda>s. if s = a1 then (b1, d1, r1)
                                else if s = a2 then (b2, d2, r2) else (b, d, r))) g)"
  unfolding tm_write_if2_def
  by (subst bnd_Inr [OF for_symbols_block
        [where f = "\<lambda>s. if s = a1 then (b1, d1, r1)
                         else if s = a2 then (b2, d2, r2) else (b, d, r)"]])
     (simp_all add: ret_def)

lemma tm_move_code:
  "dir_ok d \<Longrightarrow> tm_move q d r g = (Inr r, emit (block q (\<lambda>s. (s, d, r))) g)"
  unfolding tm_move_def
  by (subst bnd_Inr [OF for_symbols_block [where f = "\<lambda>s. (s, d, r)"]]) (simp_all add: ret_def)

lemma tm_move_if_code:
  "dir_ok da \<Longrightarrow> dir_ok d \<Longrightarrow> tm_move_if q a da ra d r g =
     (Inr r, emit (block q (\<lambda>s. if s = a then (s, da, ra) else (s, d, r))) g)"
  unfolding tm_move_if_def
  by (subst bnd_Inr [OF for_symbols_block
        [where f = "\<lambda>s. if s = a then (s, da, ra) else (s, d, r)"]]) (simp_all add: ret_def)

lemma tm_move_if2_code:
  "dir_ok da \<Longrightarrow> dir_ok db \<Longrightarrow> dir_ok d \<Longrightarrow> tm_move_if2 q a da ra b db rb d r g =
     (Inr r, emit (block q (\<lambda>s. if s = a then (s, da, ra)
                                else if s = b then (s, db, rb) else (s, d, r))) g)"
  unfolding tm_move_if2_def
  by (subst bnd_Inr [OF for_symbols_block
        [where f = "\<lambda>s. if s = a then (s, da, ra)
                         else if s = b then (s, db, rb) else (s, d, r)"]])
     (simp_all add: ret_def)

lemma tm_noop_code: "tm_noop q r g = (Inr r, emit (block q (\<lambda>s. (s, 0, r))) g)"
  by (simp add: gm_simps tm_noop_def tm_move_code)

lemma tm_find_code:
  "dir_ok d \<Longrightarrow> tm_find q d a r_yes r_no g =
     (Inr r_yes, emit (block q (\<lambda>s. if s = a then (s, 0, r_yes)
        else if s = (if d < 0 then START else END) then (s, 0, r_no) else (s, d, q))) g)"
  by (simp add: gm_simps tm_find_def Let_def bnd_Inr [OF tm_move_if2_code] ret_def)

lemma tm_rewind_code:
  "tm_rewind q r g = (Inr r, emit (block q (\<lambda>s. if s = START then (s, 0, r) else (s, -1, q))) g)"
  by (simp add: gm_simps tm_rewind_def bnd_Inr [OF tm_move_if_code] ret_def)

lemma tm_ffwd_code:
  "tm_ffwd q r g = (Inr r, emit (block q (\<lambda>s. if s = END then (s, 0, r) else (s, 1, q))) g)"
  by (simp add: gm_simps tm_ffwd_def bnd_Inr [OF tm_move_if_code] ret_def)

lemma tm_write_bits_loop_code:
  "tm_write_bits_loop i q x g =
     (Inr (if i = 0 then q else next_state g + 2 * int i - 1),
      adv (2 * int i) (write_bits_loop_code i q x (next_state g)) g)"
proof (induction i arbitrary: q g)
  case 0
  show ?case by (simp add: gm_simps ret_def)
next
  case (Suc i)
  show ?case
    by (simp add: gm_simps bnd_Inr [OF tm_move_code] bnd_Inr [OF tm_write_code] Suc.IH bsym_def
        algebra_simps)
qed

lemma tm_write_bits_code:
  "tm_write_bits q x 8 r g = (Inr r, adv 15 (write_bits_code q x r (next_state g)) g)"
  by (simp add: gm_simps tm_write_bits_def bnd_Inr [OF tm_write_bits_loop_code] bnd_Inr [OF tm_move_code]
      tm_write_code write_bits_code_def bsym_def add.commute)

lemma tm_write_word_code:
  "tm_write_word q x r g = (Inr r, adv 15 (write_bits_code q x r (next_state g)) g)"
  by (simp add: gm_simps tm_write_word_def word_size_def tm_write_bits_code)

lemma tm_write_byte_code:
  "tm_write_byte q x r g = (Inr r, adv 15 (write_bits_code q x r (next_state g)) g)"
  by (simp add: gm_simps tm_write_byte_def tm_write_bits_code)

lemma tm_find_code':
  "dir_ok d \<Longrightarrow> tm_find q d a r_yes r_no g = (Inr r_yes, emit (find_code q d a r_yes r_no) g)"
  by (simp add: gm_simps tm_find_code find_code_def)

lemma tm_find_register_loop_code:
  "tm_find_register_loop i qstart reg q g =
     (Inr (if i = 0 then q else next_state g + 2 * int i - 1),
      adv (2 * int i) (find_register_loop_code i qstart reg (q_reject g) q (next_state g)) g)"
proof (induction i arbitrary: q g)
  case 0
  show ?case by (simp add: gm_simps ret_def)
next
  case (Suc i)
  show ?case
    by (simp add: gm_simps bnd_Inr [OF tm_move_code] bnd_Inr [OF tm_move_if2_code] Suc.IH bsym_def
        algebra_simps cong del: if_weak_cong)
qed

lemma tm_find_register_code:
  "tm_find_register q reg r g =
     (Inr r, adv 19 (find_register_code q reg r (next_state g) (q_reject g)) g)"
  by (simp add: gm_simps tm_find_register_def bnd_Inr [OF tm_find_code'] bnd_Inr [OF tm_move_code]
      bnd_Inr [OF tm_find_register_loop_code] bnd_Inr [OF tm_move_if_code] word_size_def
      find_register_code_def ret_def add.commute cong del: if_weak_cong)

lemma tm_copy_helper_code:
  assumes "dir_ok d"
  shows "tm_copy_helper q d mode r g =
     (Inr r, adv (12 + (if and mode 4 \<noteq> 0 then 2 else 0) + (if and mode 8 \<noteq> 0 then 1 else 0))
        (copy_helper_code q d (and mode 4 \<noteq> 0) (and mode 8 \<noteq> 0) r (next_state g) (q_reject g)) g)"
  using assms
  by (simp add: gm_simps tm_copy_helper_def bnd_Inr [OF tm_find_code'] bnd_Inr [OF tm_move_code]
      bnd_Inr [OF tm_write_code] bnd_Inr [OF tm_move_if2_code] tm_write_code Let_def
      BLANK_BEFORE_DST_def BLANK_AFTER_DST_def copy_helper_code_def add.commute
      cong del: if_weak_cong)

lemma tm_copy_code:
  "dir_ok d \<Longrightarrow> tm_copy q d r g =
     (Inr r, adv 14 (copy_helper_code q d True False r (next_state g) (q_reject g)) g)"
  by (simp add: gm_simps tm_copy_def tm_copy_helper_code BLANK_BEFORE_DST_def)

lemma tm_copy_to_scratch_code:
  "dir_ok d \<Longrightarrow> tm_copy_to_scratch q d r g =
     (Inr r, adv 13 (copy_helper_code q d False True r (next_state g) (q_reject g)) g)"
  by (simp add: gm_simps tm_copy_to_scratch_def tm_copy_helper_code BLANK_AFTER_DST_def)

lemma tm_copy_compact_code:
  "dir_ok d \<Longrightarrow> tm_copy_compact q d r g =
     (Inr r, adv 12 (copy_helper_code q d False False r (next_state g) (q_reject g)) g)"
  by (simp add: gm_simps tm_copy_compact_def tm_copy_helper_code)

lemma tm_add_code:
  "tm_add q r g = (Inr r, adv 4 (add_code q r (next_state g) (q_reject g)) g)"
  by (simp add: gm_simps tm_add_def bnd_Inr [OF tm_write_if2_code] Let_def add_code_def ret_def
      add.commute cong del: if_weak_cong)

lemma tm_sub_code:
  "tm_sub q r g = (Inr r, adv 4 (sub_code q r (next_state g) (q_reject g)) g)"
  by (simp add: gm_simps tm_sub_def bnd_Inr [OF tm_write_if2_code] Let_def sub_code_def ret_def
      add.commute cong del: if_weak_cong)

lemma set_all_symbols [simp]: "set all_symbols = UNIV"
proof -
  have "a \<in> set all_symbols" for a
    by (cases a) (simp_all add: all_symbols_def)
  then show ?thesis by auto
qed

lemma set_block: "set (block q f) = (\<lambda>a. Transition q a (snd (snd (f a))) (fst (f a)) (dn (fst (snd (f a))))) ` UNIV"
  by (simp add: gm_simps block_def case_prod_beta)

lemma block_not_Nil [simp]: "block q f \<noteq> []"
  by (simp add: gm_simps block_def all_symbols_def)

lemma hd_block [simp]: "t_state (hd (block q f)) = q"
  by (simp add: gm_simps block_def all_symbols_def split: prod.splits)

lemma srcs_simps [simp]:
  "srcs [] = {}" "srcs (A @ B) = srcs A \<union> srcs B" "srcs (block q f) = {q}"
  by (auto simp: srcs_def set_block image_image)

lemma tgts_simps [simp]:
  "tgts [] = {}" "tgts (A @ B) = tgts A \<union> tgts B"
  "tgts (block q f) = range (\<lambda>a. snd (snd (f a)))"
  by (auto simp: tgts_def set_block image_image)

lemma full_simps [simp]: "full []" "full (block q f)"
  by (auto simp: full_def set_block)

lemma full_append [simp]: "full A \<Longrightarrow> full B \<Longrightarrow> full (A @ B)"
  unfolding full_def by (metis Un_iff set_append)

lemma reach_refl [simp]: "reach N q q"
  by (simp add: gm_simps reach_def)

lemma reach_trans: "reach N a b \<Longrightarrow> reach N b c \<Longrightarrow> reach N a c"
  by (simp add: gm_simps reach_def)

lemma edge_mono: "set A \<subseteq> set B \<Longrightarrow> edge A a b \<Longrightarrow> edge B a b"
  by (auto simp: edge_def)

lemma reach_mono:
  assumes "set A \<subseteq> set B" and "reach A a b"
  shows "reach B a b"
  using assms(2) unfolding reach_def
proof (induction rule: rtranclp_induct)
  case base
  show ?case by simp
next
  case (step y z)
  from edge_mono [OF assms(1) step.hyps(2)] step.IH show ?case by simp
qed

lemma reach_edge: "edge N a b \<Longrightarrow> reach N a b"
  by (simp add: gm_simps reach_def)

lemma edge_block: "snd (snd (f a)) = r \<Longrightarrow> edge (block q f) q r"
  by (auto simp: edge_def set_block)

lemma reach_block: "snd (snd (f a)) = r \<Longrightarrow> set (block q f) \<subseteq> set N \<Longrightarrow> reach N q r"
  by (rule reach_mono [OF _ reach_edge [OF edge_block]])

lemma chain_append:
  assumes "chain XS XT q (Some x) n k N1" and "chain XS XT x ro n k N2"
  shows "chain XS XT q ro n k (N1 @ N2)"
proof -
  have x: "x \<in> insert q XS \<union> {n ..< n + k}" and r1: "reach N1 q x" and e1: "N1 = [] \<longrightarrow> x = q"
    using assms(1) by (auto simp: chain_def)
  have s2: "srcs N2 \<subseteq> insert q XS \<union> {n ..< n + k}"
    using assms(2) x by (auto simp: chain_def)
  have t2: "tgts N2 \<subseteq> insert q XS \<union> XT \<union> {n ..< n + k}"
    using assms(2) x by (auto simp: chain_def)
  have res: "r \<in> insert q XS \<union> {n ..< n + k} \<and> reach (N1 @ N2) q r \<and> (N1 @ N2 = [] \<longrightarrow> r = q)"
    if "ro = Some r" for r
  proof -
    from that assms(2) have a: "r \<in> insert x XS \<union> {n ..< n + k}" and b: "reach N2 x r"
      and c: "N2 = [] \<longrightarrow> r = x"
      by (auto simp: chain_def)
    have "reach (N1 @ N2) q x" by (rule reach_mono [OF _ r1]) simp
    moreover have "reach (N1 @ N2) x r" by (rule reach_mono [OF _ b]) simp
    ultimately have "reach (N1 @ N2) q r" by (rule reach_trans)
    with a x c e1 show ?thesis by auto
  qed
  have hd: "N1 @ N2 \<noteq> [] \<longrightarrow> t_state (hd (N1 @ N2)) = q"
    using assms e1 by (cases N1) (auto simp: chain_def)
  show ?thesis
    unfolding chain_def using assms s2 t2 res hd by (auto simp: chain_def)
qed

lemma chain_block:
  assumes "\<And>a. snd (snd (f a)) \<in> insert q XS \<union> XT \<union> {n ..< n + k}"
    and "snd (snd (f a0)) = r" and "r \<in> insert q XS \<union> {n ..< n + k}"
  shows "chain XS XT q (Some r) n k (block q f)"
proof -
  have "tgts (block q f) \<subseteq> insert q XS \<union> XT \<union> {n ..< n + k}"
    using assms(1) by (simp add: gm_simps image_subset_iff)
  moreover have "reach (block q f) q r"
    using assms(2) by (intro reach_edge edge_block [where a = a0])
  ultimately show ?thesis
    unfolding chain_def using assms(3) by simp
qed

lemma chain_Nil: "chain XS XT q (Some q) n k []"
  by (simp add: gm_simps chain_def)

lemma chain_None: "chain XS XT q ro n k N \<Longrightarrow> chain XS XT q None n k N"
  by (simp add: gm_simps chain_def)

lemma chain_widen:
  assumes "chain XS XT q ro n k N" and "n' \<le> n" and "n + k \<le> n' + k'"
    and "XS \<subseteq> XS'" and "XT \<subseteq> XT'"
  shows "chain XS' XT' q ro n' k' N"
proof -
  have "{n ..< n + k} \<subseteq> {n' ..< n' + k'}" using assms(2,3) by auto
  with assms(1,4,5) show ?thesis
    unfolding chain_def by (simp add: gm_simps subset_iff) blast
qed

lemma chain_find:
  assumes "ry \<in> insert q XS \<union> {n ..< n + k}" and "rn \<in> insert q XS \<union> XT \<union> {n ..< n + k}"
  shows "chain XS XT q (Some ry) n k (find_code q d a ry rn)"
  unfolding find_code_def
  by (rule chain_block [where ?a0.0 = a]) (use assms in auto)

lemma chain_write_bits_loop:
  assumes "n0 \<le> n" and "n + 2 * int i \<le> n0 + k0"
  shows "chain XS XT q (Some (if i = 0 then q else n + 2 * int i - 1)) n0 k0
           (write_bits_loop_code i q x n)"
  using assms
proof (induction i arbitrary: q n)
  case 0
  show ?case by (simp add: gm_simps chain_Nil)
next
  case (Suc i)
  have a: "chain XS XT q (Some n) n0 k0 (block q (\<lambda>s. (s, 1, n)))"
    by (rule chain_block [where ?a0.0 = BLANK]) (use Suc.prems in auto)
  have b: "chain XS XT n (Some (n + 1)) n0 k0 (block n (\<lambda>s. (bsym (bit x (Suc i)), 1, n + 1)))"
    by (rule chain_block [where ?a0.0 = BLANK]) (use Suc.prems in auto)
  have c: "chain XS XT (n + 1) (Some (if i = 0 then n + 1 else n + 2 + 2 * int i - 1)) n0 k0
      (write_bits_loop_code i (n + 1) x (n + 2))"
    by (rule Suc.IH) (use Suc.prems in auto)
  have e: "(if i = 0 then n + 1 else n + 2 + 2 * int i - 1) =
      (if Suc i = 0 then q else n + 2 * int (Suc i) - 1)"
    by simp
  show ?case
    unfolding write_bits_loop_code.simps e [symmetric]
    by (rule chain_append [OF a chain_append [OF b c]])
qed

lemma chain_write_bits:
  assumes "n0 \<le> n" and "n + 15 \<le> n0 + k0" and "r \<in> XS \<union> {n0 ..< n0 + k0}"
  shows "chain XS XT q (Some r) n0 k0 (write_bits_code q x r n)"
proof -
  have "(if (7::nat) = 0 then q else n + 2 * int 7 - 1) = n + 13"
    by simp
  then have a: "chain XS XT q (Some (n + 13)) n0 k0 (write_bits_loop_code 7 q x n)"
    using chain_write_bits_loop [of n0 n 7 k0 XS XT q x] assms by (simp add: gm_simps add.commute)
  have b: "chain XS XT (n + 13) (Some (n + 14)) n0 k0 (block (n + 13) (\<lambda>s. (s, 1, n + 14)))"
    by (rule chain_block [where ?a0.0 = BLANK]) (use assms in auto)
  have c: "chain XS XT (n + 14) (Some r) n0 k0 (block (n + 14) (\<lambda>s. (bsym (bit x 0), 1, r)))"
    by (rule chain_block [where ?a0.0 = BLANK]) (use assms in auto)
  show ?thesis
    unfolding write_bits_code_def by (rule chain_append [OF a chain_append [OF b c]])
qed

lemma chain_find_register_loop:
  assumes "n0 \<le> n" and "n + 2 * int i \<le> n0 + k0" and "rej \<in> XT"
  shows "chain XS (insert qs XT) q (Some (if i = 0 then q else n + 2 * int i - 1)) n0 k0
           (find_register_loop_code i qs reg rej q n)"
  using assms(1,2)
proof (induction i arbitrary: q n)
  case 0
  show ?case by (simp add: gm_simps chain_Nil)
next
  case (Suc i)
  have a: "chain XS (insert qs XT) q (Some n) n0 k0 (block q (\<lambda>s. (s, 1, n)))"
    by (rule chain_block [where ?a0.0 = BLANK]) (use Suc.prems in auto)
  have b: "chain XS (insert qs XT) n (Some (n + 1)) n0 k0
      (block n (\<lambda>s. if s = bsym (bit reg i) then (s, 1, n + 1)
                   else if s = END then (s, 0, rej) else (s, 1, qs)))"
    by (rule chain_block [where ?a0.0 = "bsym (bit reg i)"]) (use Suc.prems assms(3) in auto)
  have c: "chain XS (insert qs XT) (n + 1) (Some (if i = 0 then n + 1 else n + 2 + 2 * int i - 1))
      n0 k0 (find_register_loop_code i qs reg rej (n + 1) (n + 2))"
    by (rule Suc.IH) (use Suc.prems in auto)
  have e: "(if i = 0 then n + 1 else n + 2 + 2 * int i - 1) =
      (if Suc i = 0 then q else n + 2 * int (Suc i) - 1)"
    by simp
  show ?case
    unfolding find_register_loop_code.simps e [symmetric]
    by (rule chain_append [OF a chain_append [OF b c]])
qed

lemma chain_absorb: "chain XS (insert q XT) q ro n k N \<Longrightarrow> chain XS XT q ro n k N"
  by (simp add: gm_simps chain_def)

lemma chain_find_register:
  assumes "n0 \<le> n" and "n + 19 \<le> n0 + k0" and "r \<in> XS \<union> {n0 ..< n0 + k0}" and "rej \<in> XT"
  shows "chain XS XT q (Some r) n0 k0 (find_register_code q reg r n rej)"
proof -
  have a: "chain XS XT q (Some n) n0 k0 (find_code q 1 REGISTER n rej)"
    by (rule chain_find) (use assms in auto)
  have b: "chain XS XT n (Some (n + 1)) n0 k0 (block n (\<lambda>s. (s, 1, n + 1)))"
    by (rule chain_block [where ?a0.0 = BLANK]) (use assms in auto)
  have "chain XS (insert q XT) (n + 1) (Some (if (8::nat) = 0 then n + 1 else n + 2 + 2 * int 8 - 1))
      n0 k0 (find_register_loop_code 8 q reg rej (n + 1) (n + 2))"
    by (rule chain_find_register_loop) (use assms in auto)
  then have c: "chain XS (insert q XT) (n + 1) (Some (n + 17)) n0 k0
      (find_register_loop_code 8 q reg rej (n + 1) (n + 2))"
    by (simp add: gm_simps add.commute)
  have d: "chain XS XT (n + 17) (Some (n + 18)) n0 k0 (block (n + 17) (\<lambda>s. (s, 1, n + 18)))"
    by (rule chain_block [where ?a0.0 = BLANK]) (use assms in auto)
  have e: "chain XS XT (n + 18) (Some r) n0 k0
      (block (n + 18) (\<lambda>s. if s = VALUE then (s, 1, r) else (s, 0, rej)))"
    by (rule chain_block [where ?a0.0 = VALUE]) (use assms in auto)
  have de: "chain XS (insert q XT) (n + 17) (Some r) n0 k0
      (block (n + 17) (\<lambda>s. (s, 1, n + 18)) @
       block (n + 18) (\<lambda>s. if s = VALUE then (s, 1, r) else (s, 0, rej)))"
    by (rule chain_widen [OF chain_append [OF d e]]) auto
  have cde: "chain XS (insert q XT) (n + 1) (Some r) n0 k0
      (find_register_loop_code 8 q reg rej (n + 1) (n + 2) @
       block (n + 17) (\<lambda>s. (s, 1, n + 18)) @
       block (n + 18) (\<lambda>s. if s = VALUE then (s, 1, r) else (s, 0, rej)))"
    by (rule chain_append [OF c de])
  have ab: "chain XS (insert q XT) q (Some (n + 1)) n0 k0
      (find_code q 1 REGISTER n rej @ block n (\<lambda>s. (s, 1, n + 1)))"
    by (rule chain_widen [OF chain_append [OF a b]]) auto
  have "chain XS (insert q XT) q (Some r) n0 k0 (find_register_code q reg r n rej)"
    unfolding find_register_code_def using chain_append [OF ab cde] by simp
  then show ?thesis by (rule chain_absorb)
qed

lemma chainI:
  assumes "srcs N \<subseteq> insert q XS \<union> {n ..< n + k}"
    and "tgts N \<subseteq> insert q XS \<union> XT \<union> {n ..< n + k}"
    and "full N" and "N \<noteq> []" and "t_state (hd N) = q"
    and "r \<in> insert q XS \<union> {n ..< n + k}" and "reach N q r"
  shows "chain XS XT q (Some r) n k N"
  using assms by (simp add: gm_simps chain_def)

lemma find_code_simps [simp]:
  "srcs (find_code q d a ry rn) = {q}"
  "tgts (find_code q d a ry rn) \<subseteq> S \<longleftrightarrow>
     ry \<in> S \<and> (a \<noteq> (if d < 0 then START else END) \<longrightarrow> rn \<in> S) \<and>
     ((\<exists>s. s \<noteq> a \<and> s \<noteq> (if d < 0 then START else END)) \<longrightarrow> q \<in> S)"
  "full (find_code q d a ry rn)"
  "find_code q d a ry rn \<noteq> []"
  "t_state (hd (find_code q d a ry rn)) = q"
  by (auto simp: find_code_def image_subset_iff)

lemma reach_find: "set (find_code q d a ry rn) \<subseteq> set N \<Longrightarrow> reach N q ry"
  unfolding find_code_def by (rule reach_block [where a = a]) auto

lemma chain_copy_helper:
  assumes "n0 \<le> n" and "n + 12 + (if bb then 2 else 0) + (if ba then 1 else 0) \<le> n0 + k0"
    and "r \<in> XS \<union> {n0 ..< n0 + k0}" and "rej \<in> XT"
  shows "chain XS XT q (Some r) n0 k0 (copy_helper_code q d bb ba r n rej)"
proof (rule chainI)
  let ?N = "copy_helper_code q d bb ba r n rej"
  let ?cl = "(if ba then (if bb then n + 12 else n + 10) + 1 else (if bb then n + 12 else n + 10)) + 1"
  show "srcs ?N \<subseteq> insert q XS \<union> {n0 ..< n0 + k0}"
    using assms by (auto simp: copy_helper_code_def Let_def)
  show "tgts ?N \<subseteq> insert q XS \<union> XT \<union> {n0 ..< n0 + k0}"
    using assms by (auto simp: copy_helper_code_def Let_def image_subset_iff)
  show "full ?N" by (simp add: gm_simps copy_helper_code_def Let_def)
  show "?N \<noteq> []" by (simp add: gm_simps copy_helper_code_def Let_def)
  show "t_state (hd ?N) = q" by (simp add: gm_simps copy_helper_code_def Let_def)
  show "r \<in> insert q XS \<union> {n0 ..< n0 + k0}" using assms by auto
  have 1: "reach ?N q n"
    by (rule reach_block [where a = BLANK and f = "\<lambda>s. (SRC, 0, n)"])
       (auto simp: copy_helper_code_def Let_def)
  have 2: "reach ?N n (n + 1)"
    by (rule reach_block [where a = BLANK and f = "\<lambda>s. (BLANK, 1, n + 1)"])
       (auto simp: copy_helper_code_def Let_def)
  have 3: "reach ?N (n + 1) (n + 4)"
    by (rule reach_block [where a = BLANK and f = "\<lambda>s. if s = ZERO then (s, 1, n + 2)
                             else if s = ONE then (s, 1, n + 3) else (s, 0, n + 4)"])
       (auto simp: copy_helper_code_def Let_def)
  have "set (find_code (n + 4) d DST ?cl rej) \<subseteq> set ?N"
    by (cases bb; cases ba) (auto simp: copy_helper_code_def Let_def)
  then have 4: "reach ?N (n + 4) ?cl"
    by (rule reach_find)
  have "set (block ?cl (\<lambda>s. (BLANK, 0, r))) \<subseteq> set ?N"
    by (cases bb; cases ba) (auto simp: copy_helper_code_def Let_def)
  then have 5: "reach ?N ?cl r"
    by (intro reach_block [where a = BLANK and f = "\<lambda>s. (BLANK, 0, r)"]) simp_all
  show "reach ?N q r"
    by (rule reach_trans [OF 1 reach_trans [OF 2 reach_trans [OF 3 reach_trans [OF 4 5]]]])
qed

lemma chain_add:
  assumes "n0 \<le> n" and "n + 4 \<le> n0 + k0" and "r \<in> XS \<union> {n0 ..< n0 + k0}" and "rej \<in> XT"
  shows "chain XS XT q (Some r) n0 k0 (add_code q r n rej)"
proof (rule chainI)
  let ?N = "add_code q r n rej"
  show "srcs ?N \<subseteq> insert q XS \<union> {n0 ..< n0 + k0}"
    using assms by (auto simp: add_code_def)
  show "tgts ?N \<subseteq> insert q XS \<union> XT \<union> {n0 ..< n0 + k0}"
    using assms by (auto simp: add_code_def image_subset_iff)
  show "full ?N" by (simp add: gm_simps add_code_def)
  show "?N \<noteq> []" by (simp add: gm_simps add_code_def)
  show "t_state (hd ?N) = q" by (simp add: gm_simps add_code_def)
  show "r \<in> insert q XS \<union> {n0 ..< n0 + k0}" using assms by auto
  show "reach ?N q r"
    by (rule reach_block [where a = BLANK and f = "\<lambda>s. if s = ZERO then (BLANK, -1, n + 1)
                   else if s = ONE then (BLANK, -1, n + 2) else (BLANK, 0, r)"])
       (auto simp: add_code_def)
qed

lemma chain_sub:
  assumes "n0 \<le> n" and "n + 4 \<le> n0 + k0" and "r \<in> XS \<union> {n0 ..< n0 + k0}" and "rej \<in> XT"
  shows "chain XS XT q (Some r) n0 k0 (sub_code q r n rej)"
proof (rule chainI)
  let ?N = "sub_code q r n rej"
  show "srcs ?N \<subseteq> insert q XS \<union> {n0 ..< n0 + k0}"
    using assms by (auto simp: sub_code_def)
  show "tgts ?N \<subseteq> insert q XS \<union> XT \<union> {n0 ..< n0 + k0}"
    using assms by (auto simp: sub_code_def image_subset_iff)
  show "full ?N" by (simp add: gm_simps sub_code_def)
  show "?N \<noteq> []" by (simp add: gm_simps sub_code_def)
  show "t_state (hd ?N) = q" by (simp add: gm_simps sub_code_def)
  show "r \<in> insert q XS \<union> {n0 ..< n0 + k0}" using assms by auto
  show "reach ?N q r"
    by (rule reach_block [where a = BLANK and f = "\<lambda>s. if s = ZERO then (BLANK, -1, n + 1)
                   else if s = ONE then (BLANK, -1, n + 2) else (BLANK, 0, r)"])
       (auto simp: sub_code_def)
qed

lemma kept_simps [simp]: "kept (Inl e) g = g\<lparr>out := []\<rparr>" "kept (Inr x) g = g"
  by (simp_all add: kept_def)

lemma chain_failed [simp]: "chain XS XT q None n k []"
  by (simp add: chain_def)

lemma chain_extend:
  assumes "chain XS XT q ro n k N1" and "N1 \<noteq> []"
    and "srcs N2 \<subseteq> insert q XS \<union> {n ..< n + k}"
    and "tgts N2 \<subseteq> insert q XS \<union> XT \<union> {n ..< n + k}" and "full N2"
  shows "chain XS XT q ro n k (N1 @ N2)"
proof -
  have "reach (N1 @ N2) q r" if "reach N1 q r" for r
    by (rule reach_mono [OF _ that]) simp
  with assms show ?thesis
    unfolding chain_def by auto
qed

lemma unit_okI:
  assumes "\<And>g :: gen. q_reject g \<in> XT \<Longrightarrow> m g = (Inr (r g), adv (k g) (N g) g)"
    and "\<And>g. q_reject g \<in> XT \<Longrightarrow> 0 \<le> k g"
    and "\<And>g. q_reject g \<in> XT \<Longrightarrow> chain XS XT q (Some (r g)) (next_state g) (k g) (N g)"
  shows "unit_ok XS XT q m"
  unfolding unit_ok_def
proof (intro allI impI)
  fix g :: gen assume g: "q_reject g \<in> XT"
  show "\<exists>k N. snd (m g) = kept (fst (m g)) (adv k N g) \<and> 0 \<le> k \<and>
      chain XS XT q (case fst (m g) of Inl e \<Rightarrow> None | Inr r \<Rightarrow> Some r) (next_state g) k N"
    using assms(2,3) [OF g] by (intro exI [of _ "k g"] exI [of _ "N g"]) (simp add: gm_simps assms(1) [OF g])
qed

lemma unit_ret: "unit_ok XS XT q (ret q)"
  by (rule unit_okI [where k = "\<lambda>_. 0" and N = "\<lambda>_. []" and r = "\<lambda>_. q"])
     (simp_all add: ret_def chain_Nil)

lemma unit_error: "unit_ok XS XT q (error e)"
  unfolding unit_ok_def
  by (intro allI impI exI [of _ 0] exI [of _ "[]"]) (simp add: gm_simps error_def chain_def)

lemma unit_bind:
  assumes "unit_ok XS XT q m" and "\<And>x. unit_ok XS XT x (f x)"
  shows "unit_ok XS XT q (bnd m f)"
  unfolding unit_ok_def
proof (intro allI impI)
  fix g :: gen assume g: "q_reject g \<in> XT"
  from assms(1) g obtain k1 N1 where m: "snd (m g) = kept (fst (m g)) (adv k1 N1 g)"
    and k1: "0 \<le> k1"
    and c1: "chain XS XT q (case fst (m g) of Inl e \<Rightarrow> None | Inr r \<Rightarrow> Some r) (next_state g) k1 N1"
    unfolding unit_ok_def by blast
  let ?P = "\<lambda>m. \<exists>k N. snd (m g) = kept (fst (m g)) (adv k N g) \<and> 0 \<le> k \<and>
      chain XS XT q (case fst (m g) of Inl e \<Rightarrow> None | Inr r \<Rightarrow> Some r) (next_state g) k N"
  show "?P (bnd m f)"
  proof (cases "fst (m g)")
    case (Inl e)
    then have "bnd m f g = (Inl e, kept (Inl e) (adv k1 N1 g))"
      using m by (cases "m g") (simp add: gm_simps bnd_def)
    with c1 k1 Inl show ?thesis
      by (intro exI [of _ k1] exI [of _ N1]) simp
  next
    case (Inr x)
    let ?g1 = "adv k1 N1 g"
    have b: "bnd m f g = f x ?g1"
      using m Inr by (cases "m g") (simp add: gm_simps bnd_def)
    have "q_reject ?g1 \<in> XT" using g by simp
    with assms(2) [of x, unfolded unit_ok_def]
    have "\<exists>k N. snd (f x ?g1) = kept (fst (f x ?g1)) (adv k N ?g1) \<and> 0 \<le> k \<and>
        chain XS XT x (case fst (f x ?g1) of Inl e \<Rightarrow> None | Inr r \<Rightarrow> Some r)
          (next_state ?g1) k N"
      by blast
    then obtain k2 N2 where f: "snd (f x ?g1) = kept (fst (f x ?g1)) (adv k2 N2 ?g1)"
      and k2: "0 \<le> k2"
      and c2: "chain XS XT x (case fst (f x ?g1) of Inl e \<Rightarrow> None | Inr r \<Rightarrow> Some r)
                 (next_state g + k1) k2 N2"
      by auto
    have w1: "chain XS XT q (Some x) (next_state g) (k1 + k2) N1"
      by (rule chain_widen [OF c1 [unfolded Inr, simplified]]) (use k2 in auto)
    have w2: "chain XS XT x (case fst (f x ?g1) of Inl e \<Rightarrow> None | Inr r \<Rightarrow> Some r)
                 (next_state g) (k1 + k2) N2"
      by (rule chain_widen [OF c2]) (use k1 in auto)
    show ?thesis
      using chain_append [OF w1 w2] f k1 k2
      by (intro exI [of _ "k1 + k2"] exI [of _ "N1 @ N2"]) (simp add: gm_simps b)
  qed
qed

lemma unit_step:
  assumes "unit_ok XS XT q (bnd new_state m)" and "\<And>x. unit_ok XS XT x (f x)"
  shows "unit_ok XS XT q (bnd new_state (\<lambda>n. bnd (m n) f))"
  using unit_bind [OF assms] by simp

lemma unit_write: "dir_ok d \<Longrightarrow> unit_ok XS XT q (bnd new_state (tm_write q b d))"
  by (rule unit_okI [where k = "\<lambda>_. 1" and r = next_state
        and N = "\<lambda>g. block q (\<lambda>a. (b, d, next_state g))"])
     (auto simp: gm_simps tm_write_code intro!: chain_block)

lemma unit_move: "dir_ok d \<Longrightarrow> unit_ok XS XT q (bnd new_state (tm_move q d))"
  by (rule unit_okI [where k = "\<lambda>_. 1" and r = next_state
        and N = "\<lambda>g. block q (\<lambda>s. (s, d, next_state g))"])
     (auto simp: gm_simps tm_move_code intro!: chain_block)

lemma unit_rewind: "unit_ok XS XT q (bnd new_state (tm_rewind q))"
  by (rule unit_okI [where k = "\<lambda>_. 1" and r = next_state
        and N = "\<lambda>g. block q (\<lambda>s. if s = START then (s, 0, next_state g) else (s, -1, q))"])
     (auto simp: gm_simps tm_rewind_code intro!: chain_block [where ?a0.0 = START])

lemma unit_ffwd: "unit_ok XS XT q (bnd new_state (tm_ffwd q))"
  by (rule unit_okI [where k = "\<lambda>_. 1" and r = next_state
        and N = "\<lambda>g. block q (\<lambda>s. if s = END then (s, 0, next_state g) else (s, 1, q))"])
     (auto simp: gm_simps tm_ffwd_code intro!: chain_block [where ?a0.0 = END])

lemma unit_write_word: "unit_ok XS XT q (bnd new_state (tm_write_word q x))"
  by (rule unit_okI [where k = "\<lambda>_. 16" and r = next_state
        and N = "\<lambda>g. write_bits_code q x (next_state g) (next_state g + 1)"])
     (auto simp: gm_simps tm_write_word_code intro!: chain_write_bits)

lemma unit_write_byte: "unit_ok XS XT q (bnd new_state (tm_write_byte q x))"
  by (rule unit_okI [where k = "\<lambda>_. 16" and r = next_state
        and N = "\<lambda>g. write_bits_code q x (next_state g) (next_state g + 1)"])
     (auto simp: gm_simps tm_write_byte_code intro!: chain_write_bits)

lemma unit_find_register: "unit_ok XS XT q (bnd new_state (tm_find_register q reg))"
  by (rule unit_okI [where k = "\<lambda>_. 20" and r = next_state
        and N = "\<lambda>g. find_register_code q reg (next_state g) (next_state g + 1) (q_reject g)"])
     (auto simp: gm_simps tm_find_register_code intro!: chain_find_register)

lemma unit_copy: "dir_ok d \<Longrightarrow> unit_ok XS XT q (bnd new_state (tm_copy q d))"
  by (rule unit_okI [where k = "\<lambda>_. 15" and r = next_state
        and N = "\<lambda>g. copy_helper_code q d True False (next_state g) (next_state g + 1) (q_reject g)"])
     (auto simp: gm_simps tm_copy_code intro!: chain_copy_helper)

lemma unit_copy_to_scratch: "dir_ok d \<Longrightarrow> unit_ok XS XT q (bnd new_state (tm_copy_to_scratch q d))"
  by (rule unit_okI [where k = "\<lambda>_. 14" and r = next_state
        and N = "\<lambda>g. copy_helper_code q d False True (next_state g) (next_state g + 1) (q_reject g)"])
     (auto simp: gm_simps tm_copy_to_scratch_code intro!: chain_copy_helper)

lemma unit_add: "unit_ok XS XT q (bnd new_state (tm_add q))"
  by (rule unit_okI [where k = "\<lambda>_. 5" and r = next_state
        and N = "\<lambda>g. add_code q (next_state g) (next_state g + 1) (q_reject g)"])
     (auto simp: gm_simps tm_add_code intro!: chain_add)

lemma unit_sub: "unit_ok XS XT q (bnd new_state (tm_sub q))"
  by (rule unit_okI [where k = "\<lambda>_. 5" and r = next_state
        and N = "\<lambda>g. sub_code q (next_state g) (next_state g + 1) (q_reject g)"])
     (auto simp: gm_simps tm_sub_code intro!: chain_sub)

lemma unit_noop: "t \<in> XS \<Longrightarrow> unit_ok XS XT q (tm_noop q t)"
  by (rule unit_okI [where k = "\<lambda>_. 0" and r = "\<lambda>_. t" and N = "\<lambda>g. block q (\<lambda>s. (s, 0, t))"])
     (auto simp: gm_simps tm_noop_code intro!: chain_block)

lemma tm_inst_EXIT:
  "op inst = EXIT \<Longrightarrow> tm_inst q inst g =
     (Inr (next_state g + 4), adv 18 (exit_code q (next_state g) (q_reject g)) g)"
  by (simp add: gm_simps tm_inst_def Let_def bnd_Inr [OF tm_write_code] bnd_Inr [OF tm_find_code']
      bnd_Inr [OF tm_copy_compact_code] bnd_Inr [OF tm_ffwd_code] bnd_Inr [OF tm_write_if_code]
      exit_code_def ret_def add.commute cong del: if_weak_cong)

lemma chain_exit:
  assumes "rej \<in> XT" and "-1 \<in> XT"
  shows "chain XS XT q (Some (n + 4)) n 18 (exit_code q n rej)"
proof -
  have a: "chain XS XT q (Some n) n 18 (block q (\<lambda>s. (DST, 1, n)))"
    by (rule chain_block [where ?a0.0 = BLANK]) auto
  have b: "chain XS XT n (Some (n + 2)) n 18 (find_code n 1 OUTPUT (n + 2) (n + 1))"
    by (rule chain_find) auto
  have c: "chain XS XT (n + 2) (Some (n + 3)) n 18 (block (n + 2) (\<lambda>s. (BLANK, 1, n + 3)))"
    by (rule chain_block [where ?a0.0 = BLANK]) auto
  have d: "chain XS XT (n + 3) (Some (n + 4)) n 18
      (copy_helper_code (n + 3) (-1) False False (n + 4) (n + 5) rej)"
    by (rule chain_copy_helper) (use assms in auto)
  have abcd: "chain XS XT q (Some (n + 4)) n 18
     (block q (\<lambda>s. (DST, 1, n)) @ find_code n 1 OUTPUT (n + 2) (n + 1) @
      block (n + 2) (\<lambda>s. (BLANK, 1, n + 3)) @
      copy_helper_code (n + 3) (-1) False False (n + 4) (n + 5) rej)"
    by (rule chain_append [OF a chain_append [OF b chain_append [OF c d]]])
  have "chain XS XT q (Some (n + 4)) n 18
     ((block q (\<lambda>s. (DST, 1, n)) @ find_code n 1 OUTPUT (n + 2) (n + 1) @
      block (n + 2) (\<lambda>s. (BLANK, 1, n + 3)) @
      copy_helper_code (n + 3) (-1) False False (n + 4) (n + 5) rej) @
      (block (n + 4) (\<lambda>s. (DST, 1, n)) @
       block (n + 1) (\<lambda>s. if s = END then (s, 0, n + 17) else (s, 1, n + 1)) @
       block (n + 17) (\<lambda>s. if s = DST then (BLANK, 0, -1) else (BLANK, -1, n + 17))))"
    by (rule chain_extend [OF abcd]) (use assms in \<open>auto simp: image_subset_iff\<close>)
  then show ?thesis by (simp add: exit_code_def)
qed

lemma unit_inst_EXIT:
  assumes "op inst = EXIT" and "-1 \<in> XT"
  shows "unit_ok XS XT q (tm_inst q inst)"
  by (rule unit_okI [where k = "\<lambda>_. 18" and r = "\<lambda>g. next_state g + 4"
        and N = "\<lambda>g. exit_code q (next_state g) (q_reject g)"])
     (auto simp: gm_simps tm_inst_EXIT assms intro!: chain_exit)

lemmas unit_intros =
  unit_step unit_ret unit_error unit_write unit_move unit_rewind unit_ffwd unit_write_word
  unit_write_byte unit_find_register unit_copy unit_copy_to_scratch unit_add unit_sub

lemma unit_arith: "unit_ok XS XT q (tm_arith q inst)"
  apply (cases "op inst = ADD"; cases "op inst = SUB"; cases "dst inst"; cases "src inst";
      simp add: tm_arith_def unit_error)
  apply (intro unit_intros impI conjI allI; simp)+
  done

lemma unit_inst:
  assumes "jmp_targets inst \<subseteq> XS" and "op inst = EXIT \<longrightarrow> -1 \<in> XT"
  shows "unit_ok XS XT q (tm_inst q inst)"
proof (cases "op inst")
  case MOV
  show ?thesis
    apply (cases "dst inst"; cases "src inst"; simp add: tm_inst_def MOV unit_error)
    apply (intro unit_intros impI conjI allI; simp)+
    done
next
  case ADD
  then show ?thesis by (simp add: tm_inst_def unit_arith)
next
  case SUB
  then show ?thesis by (simp add: tm_inst_def unit_arith)
next
  case JMP
  with assms(1) show ?thesis
    by (cases "jmp inst") (simp_all add: tm_inst_def jmp_targets_def unit_error unit_noop)
next
  case PUTC
  show ?thesis
    apply (cases "src inst"; simp add: tm_inst_def PUTC)
    apply (intro unit_intros impI conjI allI; simp)+
    done
next
  case EXIT
  with assms(2) have "-1 \<in> XT" by simp
  with EXIT show ?thesis by (rule unit_inst_EXIT)
next
  case DUMP
  then show ?thesis by (simp add: tm_inst_def unit_ret)
next
  case OTHER_OP
  then show ?thesis by (simp add: tm_inst_def unit_error)
qed

lemma unit_text:
  assumes "\<And>i. i \<in> set insts \<Longrightarrow>
             pc i \<in> XS \<and> jmp_targets i \<subseteq> XS \<and> (op i = EXIT \<longrightarrow> -1 \<in> XT)"
  shows "unit_ok XS XT q (tm_text prev q insts)"
  using assms(1)
proof (induction insts arbitrary: q prev)
  case Nil
  show ?case by (simp add: unit_ret)
next
  case (Cons i insts)
  have s: "unit_ok XS XT q (if pc i \<noteq> prev \<and> q \<noteq> pc i then tm_noop q (pc i) else ret q)"
    using Cons.prems [of i] by (simp add: unit_noop unit_ret)
  have t: "unit_ok XS XT x (tm_inst x i)" for x
    by (rule unit_inst) (use Cons.prems [of i] in auto)
  have r: "unit_ok XS XT x (tm_text (pc i) x insts)" for x
    by (rule Cons.IH) (use Cons.prems in auto)
  show ?case
    unfolding tm_text.simps
    by (rule unit_bind [OF s]) (rule unit_bind [OF t r])
qed

lemma unit_init_registers: "unit_ok XS XT q (tm_init_registers regs q)"
proof (induction regs arbitrary: q)
  case Nil
  show ?case by (simp add: unit_ret)
next
  case (Cons reg regs)
  show ?case
    unfolding tm_init_registers.simps
    by (intro unit_intros Cons.IH) simp_all
qed

lemma unit_init_memory: "unit_ok XS XT q (tm_init_memory vs mp q)"
proof (induction vs arbitrary: q mp)
  case Nil
  show ?case by (simp add: unit_ret)
next
  case (Cons v vs)
  show ?case
    unfolding tm_init_memory.simps
    by (intro unit_intros Cons.IH) simp_all
qed

lemma tm_prologue_seeded: "tm_prologue m g = prologue_body m (seeded m g)"
  by (simp add: tm_prologue_def prologue_body_def seeded_def bnd_new_state adv_def)

lemma target_tm_seeded:
  "target_tm m g = bnd (prologue_body m) (\<lambda>q. tm_text 0 q (module_text m)) (seeded m g)"
  by (simp add: target_tm_def bnd_def tm_prologue_seeded)

lemma unit_prologue_body: "unit_ok XS XT 0 (prologue_body m)"
  unfolding prologue_body_def
  by (intro unit_intros unit_bind [OF unit_init_registers] unit_bind [OF unit_init_memory])
     simp_all

lemma unit_target:
  "unit_ok (text_states m) (insert (seed_next_state (module_text m)) (halt_states m)) 0
     (bnd (prologue_body m) (\<lambda>q. tm_text 0 q (module_text m)))"
  by (rule unit_bind [OF unit_prologue_body unit_text])
     (auto simp: text_states_def halt_states_def)

lemmas code_simps =
  gm_simps
  bnd_Inr [OF tm_write_code] bnd_Inr [OF tm_move_code] bnd_Inr [OF tm_noop_code]
  bnd_Inr [OF tm_rewind_code] bnd_Inr [OF tm_ffwd_code] bnd_Inr [OF tm_find_code']
  bnd_Inr [OF tm_write_word_code] bnd_Inr [OF tm_write_byte_code]
  bnd_Inr [OF tm_find_register_code] bnd_Inr [OF tm_copy_code]
  bnd_Inr [OF tm_copy_to_scratch_code] bnd_Inr [OF tm_copy_compact_code]
  bnd_Inr [OF tm_add_code] bnd_Inr [OF tm_sub_code] bnd_Inr [OF tm_write_if_code]
  tm_write_code tm_move_code tm_noop_code tm_rewind_code tm_ffwd_code tm_find_code'
  tm_write_word_code tm_write_byte_code tm_find_register_code tm_copy_code
  tm_copy_to_scratch_code tm_copy_compact_code tm_add_code tm_sub_code tm_write_if_code

lemma tm_init_registers_code:
  "tm_init_registers regs q g =
     (Inr (if regs = [] then q else next_state g + 36 * int (length regs) - 16),
      adv (36 * int (length regs)) (init_registers_code regs q (next_state g)) g)"
proof (induction regs arbitrary: q g)
  case Nil
  show ?case by (simp add: ret_def)
next
  case (Cons reg regs)
  show ?case
    by (simp add: code_simps Cons.IH add.commute algebra_simps)
qed

lemma tm_init_memory_code:
  "tm_init_memory vs mp q g =
     (Inr (if vs = [] then q else next_state g + 36 * int (length vs) - 16),
      adv (36 * int (length vs)) (init_memory_code vs mp q (next_state g)) g)"
proof (induction vs arbitrary: q g mp)
  case Nil
  show ?case by (simp add: ret_def)
next
  case (Cons v vs)
  show ?case
    by (simp add: code_simps Cons.IH add.commute algebra_simps)
qed

lemma prologue_body_code:
  "prologue_body m g =
     (Inr (next_state g + 219 + 36 * int (length (module_data m))),
      adv (220 + 36 * int (length (module_data m))) (prologue_code m (next_state g)) g)"
  by (simp add: prologue_body_def code_simps bnd_Inr [OF tm_init_registers_code]
      bnd_Inr [OF tm_init_memory_code] prologue_code_def Let_def add.commute algebra_simps
      cong del: if_weak_cong)

lemma target_tm_unfold:
  "target_tm m g =
     tm_text 0 (seed_next_state (module_text m) + 220 + 36 * int (length (module_data m)))
       (module_text m)
       (adv (220 + 36 * int (length (module_data m)))
          (prologue_code m (seed_next_state (module_text m) + 1)) (seeded m g))"
  by (simp add: target_tm_seeded bnd_Inr [OF prologue_body_code] seeded_def add.commute
      algebra_simps)

lemma tm_prologue_unfold:
  "tm_prologue m g =
     (Inr (seed_next_state (module_text m) + 220 + 36 * int (length (module_data m))),
      adv (220 + 36 * int (length (module_data m)))
          (prologue_code m (seed_next_state (module_text m) + 1)) (seeded m g))"
  by (simp add: tm_prologue_seeded prologue_body_code seeded_def add.commute algebra_simps)

lemma out_seeded [simp]: "out (seeded m g) = out g"
  "next_state (seeded m g) = seed_next_state (module_text m) + 1"
  "q_reject (seeded m g) = seed_next_state (module_text m)"
  by (simp_all add: seeded_def)

lemma code_of_prologue:
  "code_of (tm_prologue m) g = prologue_code m (seed_next_state (module_text m) + 1)"
  by (simp add: code_of_def tm_prologue_unfold)

lemma prologue_code_first:
  "set (block 0 (\<lambda>a. (START, 1, n))) \<subseteq> set (prologue_code m n)"
  by (simp add: prologue_code_def Let_def)

lemma prologue_code_not_Nil [simp]: "prologue_code m n \<noteq> []"
  by (simp add: prologue_code_def Let_def)

lemma unit_ok_out:
  assumes "unit_ok UNIV UNIV q f" and "f g = (Inr r, g')"
  shows "\<exists>N. out g' = out g @ N"
proof -
  from assms(1) [unfolded unit_ok_def, rule_format, of g] assms(2)
  obtain k N where "g' = adv k N g"
    by auto
  then show ?thesis by auto
qed

lemma tm_text_out: "tm_text prev q insts g = (Inr r, g') \<Longrightarrow> \<exists>N. out g' = out g @ N"
  by (rule unit_ok_out [OF unit_text]) auto

lemma failed_simps [simp]: "failed (Inl e, g)" "\<not> failed (Inr x, g)"
  by (simp_all add: failed_def)

lemma failed_error [simp]: "failed (error e g)"
  by (simp add: error_def)

lemma failed_bnd_Inl: "failed (m g) \<Longrightarrow> failed (bnd m f g)"
  by (cases "m g") (auto simp: bnd_def failed_def split: sum.splits)

lemma failed_arith:
  "src inst = OTHER \<or> same_reg_arith inst \<Longrightarrow> failed (tm_arith q inst g)"
  by (cases "dst inst"; cases "src inst")
     (auto simp: tm_arith_def same_reg_arith_def code_simps)

lemma failed_inst: "unsupported inst \<Longrightarrow> failed (tm_inst q inst g)"
  by (cases "op inst"; cases "dst inst"; cases "src inst"; cases "jmp inst")
     (auto simp: unsupported_def tm_inst_def failed_arith code_simps)

lemma failed_text:
  assumes "\<exists>i \<in> set insts. unsupported i"
  shows "failed (tm_text prev q insts g)"
  using assms
proof (induction insts arbitrary: prev q g)
  case Nil
  then show ?case by simp
next
  case (Cons i insts)
  let ?s = "if pc i \<noteq> prev \<and> q \<noteq> pc i then tm_noop q (pc i) else ret q"
  have b: "bnd ?s f g = f q1 g1" if "?s g = (Inr q1, g1)" for f :: "int \<Rightarrow> int gm" and q1 g1
    using that by (simp add: bnd_def)
  obtain q1 g1 where s: "?s g = (Inr q1, g1)"
    by (cases "pc i \<noteq> prev \<and> q \<noteq> pc i") (auto simp: tm_noop_code ret_def)
  show ?case
  proof (cases "tm_inst q1 i g1")
    case (Pair res g2)
    show ?thesis
    proof (cases res)
      case (Inl e)
      with Pair s show ?thesis
        by (simp add: b [OF s] bnd_Inl)
    next
      case (Inr q2)
      with Pair failed_inst [of i q1 g1] have "\<not> unsupported i" by auto
      with Cons.prems have "\<exists>i \<in> set insts. unsupported i" by auto
      from Cons.IH [OF this] Pair Inr s show ?thesis
        by (simp add: b [OF s] bnd_Inr)
    qed
  qed
qed

lemma ret_apply: "ret x g = (Inr x, g)"
  by (simp add: ret_def)

lemma error_apply: "error e g = (Inl e, g\<lparr>out := []\<rparr>)"
  by (simp add: error_def)

lemma seed_fold_mono:
  "n \<le> foldl (\<lambda>n inst. if pc inst \<ge> n then pc inst + 1 else n) n insts"
proof (induction insts arbitrary: n)
  case Nil
  show ?case by simp
next
  case (Cons a insts)
  have "n \<le> (if pc a \<ge> n then pc a + 1 else n)" by simp
  also have "\<dots> \<le> foldl (\<lambda>n inst. if pc inst \<ge> n then pc inst + 1 else n)
      (if pc a \<ge> n then pc a + 1 else n) insts"
    by (rule Cons.IH)
  finally show ?case by simp
qed

lemma seed_next_state_ge: "0 \<le> seed_next_state insts"
  using seed_fold_mono [of 0 insts] by (simp add: seed_next_state_def)

lemma seed_next_state_gt: "i \<in> set insts \<Longrightarrow> pc i < seed_next_state insts"
proof -
  have "i \<in> set insts \<Longrightarrow>
      pc i < foldl (\<lambda>n inst. if pc inst \<ge> n then pc inst + 1 else n) n insts" for n
  proof (induction insts arbitrary: n)
    case Nil
    then show ?case by simp
  next
    case (Cons a insts)
    show ?case
    proof (cases "i = a")
      case True
      have "pc a < (if pc a \<ge> n then pc a + 1 else n)" by auto
      also have "\<dots> \<le> foldl (\<lambda>n inst. if pc inst \<ge> n then pc inst + 1 else n)
          (if pc a \<ge> n then pc a + 1 else n) insts"
        by (rule seed_fold_mono)
      finally show ?thesis using True by simp
    next
      case False
      with Cons.prems have "i \<in> set insts" by simp
      from Cons.IH [OF this] show ?thesis by simp
    qed
  qed
  then show "i \<in> set insts \<Longrightarrow> pc i < seed_next_state insts"
    by (simp add: seed_next_state_def)
qed

text \<open>What \<open>target_tm\<close> has written, with the bounds on its states.\<close>

lemma target_tm_chain:
  obtains k ro where
    "chain (text_states m) (insert (seed_next_state (module_text m)) (halt_states m)) 0 ro
       (seed_next_state (module_text m) + 1) k (out (snd (target_tm m gen0)))"
    and "\<And>r. fst (target_tm m gen0) = Inr r \<Longrightarrow> ro = Some r"
proof -
  let ?f = "bnd (prologue_body m) (\<lambda>q. tm_text 0 q (module_text m))"
  let ?g = "seeded m gen0"
  from unit_target [of m, unfolded unit_ok_def, rule_format, of ?g]
  obtain k N where s: "snd (?f ?g) = kept (fst (?f ?g)) (adv k N ?g)"
    and c: "chain (text_states m) (insert (seed_next_state (module_text m)) (halt_states m)) 0
        (case fst (?f ?g) of Inl e \<Rightarrow> None | Inr r \<Rightarrow> Some r)
        (seed_next_state (module_text m) + 1) k N"
    by auto
  show ?thesis
  proof (cases "fst (?f ?g)")
    case (Inl e)
    with s have "out (snd (target_tm m gen0)) = []"
      by (simp add: target_tm_seeded gen0_def)
    with Inl show ?thesis
      by (intro that [of None k]) (simp_all add: target_tm_seeded)
  next
    case (Inr r)
    with s have "out (snd (target_tm m gen0)) = N"
      by (simp add: target_tm_seeded gen0_def)
    with c Inr show ?thesis
      by (intro that [of "Some r" k]) (simp_all add: target_tm_seeded)
  qed
qed

lemma chain_prologue:
  "chain XS UNIV 0 (Some (n + 219 + 36 * int (length (module_data m)))) n
     (220 + 36 * int (length (module_data m))) (prologue_code m n)"
proof -
  let ?g = "\<lparr>next_state = n, q_reject = 0, out = []\<rparr>"
  from unit_prologue_body [of XS UNIV m, unfolded unit_ok_def, rule_format, of ?g]
  obtain k N where s: "snd (prologue_body m ?g) = kept (fst (prologue_body m ?g)) (adv k N ?g)"
    and c: "chain XS UNIV 0 (case fst (prologue_body m ?g) of Inl e \<Rightarrow> None | Inr r \<Rightarrow> Some r)
        (next_state ?g) k N"
    by auto
  from s have "N = prologue_code m n" and "k = 220 + 36 * int (length (module_data m))"
    by (simp_all add: prologue_body_code adv_def)
  with c show ?thesis
    by (simp add: prologue_body_code)
qed

lemma tm_text_append:
  "tm_text prev q (xs @ ys) =
     bnd (tm_text prev q xs) (\<lambda>q'. tm_text (if xs = [] then prev else pc (last xs)) q' ys)"
  by (induction xs arbitrary: prev q) simp_all

lemma reach_find_no:
  "set (find_code q d a ry rn) \<subseteq> set N \<Longrightarrow> a \<noteq> (if d < 0 then START else END) \<Longrightarrow>
   reach N q rn"
  unfolding find_code_def
  by (rule reach_block [where a = "if d < 0 then START else END"]) auto

lemma unit_ok_code_of:
  assumes "unit_ok UNIV UNIV q f"
  shows "code_of f g \<noteq> [] \<longrightarrow> t_state (hd (code_of f g)) = q"
proof -
  let ?g = "g\<lparr>out := []\<rparr>"
  from assms [unfolded unit_ok_def, rule_format, of ?g]
  obtain k N ro where "snd (f ?g) = kept (fst (f ?g)) (adv k N ?g)"
    and "chain UNIV UNIV q ro (next_state ?g) k N"
    by auto
  then show ?thesis
    by (cases "fst (f ?g)") (simp_all add: code_of_def chain_def)
qed

lemma unit_ok_reach:
  assumes "unit_ok UNIV UNIV q f" and "f g = (Inr r, g')" and "reach (out g) a q"
  shows "reach (out g') a r"
proof -
  from assms(1) [unfolded unit_ok_def, rule_format, of g] assms(2)
  obtain k N where s: "g' = adv k N g" and c: "chain UNIV UNIV q (Some r) (next_state g) k N"
    by auto
  from c have "reach N q r" by (simp add: chain_def)
  then have 1: "reach (out g') q r"
    by (rule reach_mono [rotated]) (simp add: s)
  have 2: "reach (out g') a q"
    by (rule reach_mono [OF _ assms(3)]) (simp add: s)
  from 2 1 show ?thesis by (rule reach_trans)
qed

lemma lookup_append:
  "lookup (A @ B) q a = (case lookup A q a of Some t \<Rightarrow> Some t | None \<Rightarrow> lookup B q a)"
  by (induction A) (simp_all add: lookup_def)

lemma lookup_Nil [simp]: "lookup [] q a = None"
  by (simp add: lookup_def)

lemma lookup_block:
  "lookup (block q f) q' a =
     (if q' = q then Some (Transition q a (snd (snd (f a))) (fst (f a)) (dn (fst (snd (f a)))))
      else None)"
  by (cases a) (simp_all add: lookup_def block_def all_symbols_def case_prod_beta)

section \<open>Running the emitted tables\<close>

lemma has_block [simp]: "has (block q f) q f"
  by (simp add: has_def lookup_block)

lemma has_append_left: "has A q f \<Longrightarrow> has (A @ B) q f"
  by (simp add: has_def lookup_append)

lemma lookup_None: "q \<notin> srcs A \<Longrightarrow> lookup A q a = None"
  by (auto simp: lookup_def find_None_iff srcs_def)

lemma has_append_right: "q \<notin> srcs A \<Longrightarrow> has (A @ B) q f = has B q f"
  by (simp add: has_def lookup_append lookup_None)

lemma offset_dn: "dir_ok d \<Longrightarrow> offset (dn d) = d"
  by (auto simp: dir_ok_def dn_def offset_def)

lemma has_step:
  assumes "has T q f" and "f (tape h) = (b, d, r)" and "dir_ok d"
  shows "step T (q, tape, h) = Some (r, tape(h := b), h + d)"
  using assms by (simp add: step_def has_def offset_dn)

lemma run_add:
  "run T (m + n) c = (case run T m c of None \<Rightarrow> None | Some c' \<Rightarrow> run T n c')"
  by (induction m arbitrary: c) (simp_all split: option.splits)

lemma runs_refl [simp]: "runs T c c"
  unfolding runs_def by (rule exI [of _ 0]) simp

lemma runs_trans: "runs T a b \<Longrightarrow> runs T b c \<Longrightarrow> runs T a c"
  unfolding runs_def
proof (elim exE)
  fix m n assume "run T m a = Some b" and "run T n b = Some c"
  then have "run T (m + n) a = Some c" by (simp add: run_add)
  then show "\<exists>n. run T n a = Some c" ..
qed

lemma runs_step: "step T a = Some b \<Longrightarrow> runs T b c \<Longrightarrow> runs T a c"
  unfolding runs_def
proof (elim exE)
  fix n assume "step T a = Some b" and "run T n b = Some c"
  then have "run T (Suc n) a = Some c" by simp
  then show "\<exists>n. run T n a = Some c" ..
qed

lemma runs_step1: "step T a = Some b \<Longrightarrow> runs T a b"
  by (rule runs_step [OF _ runs_refl])

section \<open>Binary addition and subtraction (claim C4)\<close>

lemma length_add_bits [simp]: "length (fst (add_bits c ps)) = length ps"
  by (induction ps arbitrary: c) (auto simp: Let_def)

lemma length_sub_bits [simp]: "length (fst (sub_bits c ps)) = length ps"
  by (induction ps arbitrary: c) (auto simp: Let_def)

lemma add_bits_val:
  "bits_val (fst (add_bits c ps)) + 2 ^ length ps * of_bool (snd (add_bits c ps)) =
     bits_val (map fst ps) + bits_val (map snd ps) + of_bool c"
proof (induction ps arbitrary: c)
  case Nil
  show ?case by simp
next
  case (Cons p ps)
  obtain x y where p: "p = (x, y)" by (cases p)
  from Cons.IH [of "(x \<and> y) \<or> (c \<and> (x \<or> y))"] show ?case
    by (cases x; cases y; cases c) (simp_all add: p Let_def)
qed

lemma sub_bits_val:
  "bits_val (fst (sub_bits c ps)) + bits_val (map snd ps) + of_bool c =
     bits_val (map fst ps) + 2 ^ length ps * of_bool (snd (sub_bits c ps))"
proof (induction ps arbitrary: c)
  case Nil
  show ?case by simp
next
  case (Cons p ps)
  obtain x y where p: "p = (x, y)" by (cases p)
  from Cons.IH [of "(\<not> x \<and> (y \<or> c)) \<or> (y \<and> c)"] show ?case
    by (cases x; cases y; cases c) (simp_all add: p Let_def)
qed

lemma bit_bits_val: "bit (bits_val bs) k \<longleftrightarrow> k < length bs \<and> bs ! k"
proof (induction bs arbitrary: k)
  case Nil
  show ?case by simp
next
  case (Cons b bs)
  show ?case
    by (cases k) (simp_all add: Cons.IH bit_Suc bit_0 even_add)
qed

lemma bits_val_word: "bits_val (map (bit w) [0..<n]) = take_bit n (unat w)" for w :: "'a::len word"
proof -
  have "bit (bits_val (map (bit w) [0..<n])) k = bit (take_bit n (unat w)) k" for k
    by (auto simp: bit_bits_val bit_take_bit_iff bit_unsigned_iff dest: bit_imp_le_length)
  then show ?thesis by (rule bit_eqI)
qed

lemma add_code_has:
  assumes "q < n"
  shows "has (add_code q r n rej) q (\<lambda>s. if s = ZERO then (BLANK, -1, n + 1)
                   else if s = ONE then (BLANK, -1, n + 2) else (BLANK, 0, r))"
    and "has (add_code q r n rej) n (\<lambda>s. if s = ZERO then (BLANK, -1, n + 2)
                   else if s = ONE then (BLANK, -1, n + 3) else (BLANK, 0, r))"
    and "has (add_code q r n rej) (n + 1) (\<lambda>s. if s = ZERO then (ZERO, -1, q)
                   else if s = ONE then (ONE, -1, q) else (ZERO, 0, rej))"
    and "has (add_code q r n rej) (n + 2) (\<lambda>s. if s = ZERO then (ONE, -1, q)
                   else if s = ONE then (ZERO, -1, n) else (ZERO, 0, rej))"
    and "has (add_code q r n rej) (n + 3) (\<lambda>s. if s = ZERO then (ZERO, -1, n)
                   else if s = ONE then (ONE, -1, n) else (ZERO, 0, rej))"
  using assms by (simp_all add: add_code_def has_append_left has_append_right)

lemma sub_code_has:
  assumes "q < n"
  shows "has (sub_code q r n rej) q (\<lambda>s. if s = ZERO then (BLANK, -1, n + 1)
                   else if s = ONE then (BLANK, -1, n + 2) else (BLANK, 0, r))"
    and "has (sub_code q r n rej) n (\<lambda>s. if s = ZERO then (BLANK, -1, n + 2)
                   else if s = ONE then (BLANK, -1, n + 3) else (BLANK, 0, r))"
    and "has (sub_code q r n rej) (n + 1) (\<lambda>s. if s = ZERO then (ZERO, -1, q)
                   else if s = ONE then (ONE, -1, q) else (ZERO, 0, rej))"
    and "has (sub_code q r n rej) (n + 2) (\<lambda>s. if s = ZERO then (ONE, -1, n)
                   else if s = ONE then (ZERO, -1, q) else (ZERO, 0, rej))"
    and "has (sub_code q r n rej) (n + 3) (\<lambda>s. if s = ZERO then (ZERO, -1, n)
                   else if s = ONE then (ONE, -1, n) else (ZERO, 0, rej))"
  using assms by (simp_all add: sub_code_def has_append_left has_append_right)

lemma bsym_simps [simp]:
  "bsym True = ONE" "bsym False = ZERO" "bsym b \<noteq> BLANK" "bsym b = ONE \<longleftrightarrow> b"
  "bsym b = ZERO \<longleftrightarrow> \<not> b"
  by (simp_all add: bsym_def)

lemma add_pair:
  assumes "q < n" and "tape h = bsym y" and "tape (h - 1) = bsym x"
  shows "run (add_code q r n rej) 2 (if c then n else q, tape, h) =
     Some (if (x \<and> y) \<or> (c \<and> (x \<or> y)) then n else q,
           tape(h := BLANK, h - 1 := bsym ((x \<noteq> y) \<noteq> c)), h - 2)"
  using assms(2,3)
  by (cases x; cases y; cases c)
     (simp_all add: numeral_2_eq_2 has_step [OF add_code_has(1) [OF assms(1)]]
        has_step [OF add_code_has(2) [OF assms(1)]] has_step [OF add_code_has(3) [OF assms(1)]]
        has_step [OF add_code_has(4) [OF assms(1)]] has_step [OF add_code_has(5) [OF assms(1)]])

lemma sub_pair:
  assumes "q < n" and "tape h = bsym y" and "tape (h - 1) = bsym x"
  shows "run (sub_code q r n rej) 2 (if c then n else q, tape, h) =
     Some (if (\<not> x \<and> (y \<or> c)) \<or> (y \<and> c) then n else q,
           tape(h := BLANK, h - 1 := bsym ((x \<noteq> y) \<noteq> c)), h - 2)"
  using assms(2,3)
  by (cases x; cases y; cases c)
     (simp_all add: numeral_2_eq_2 has_step [OF sub_code_has(1) [OF assms(1)]]
        has_step [OF sub_code_has(2) [OF assms(1)]] has_step [OF sub_code_has(3) [OF assms(1)]]
        has_step [OF sub_code_has(4) [OF assms(1)]] has_step [OF sub_code_has(5) [OF assms(1)]])

text \<open>
  The loop shared by the adder and the subtractor: the two states that read a scratch bit
  are \<open>q\<close> (no carry) and \<open>n\<close> (carry); \<open>cf\<close> is the carry out of one pair and \<open>rf\<close>
  the ripple function built on it.
\<close>

lemma pairs_run:
  fixes cf :: "bool \<Rightarrow> bool \<Rightarrow> bool \<Rightarrow> bool"
    and rf :: "bool \<Rightarrow> (bool \<times> bool) list \<Rightarrow> bool list \<times> bool"
  assumes pair: "\<And>tape h x y c. tape h = bsym y \<Longrightarrow> tape (h - 1) = bsym x \<Longrightarrow>
      run T 2 (if c then n else q, tape, h) =
        Some (if cf x y c then n else q, tape(h := BLANK, h - 1 := bsym ((x \<noteq> y) \<noteq> c)), h - 2)"
    and rf_Nil: "\<And>c. rf c [] = ([], c)"
    and rf_Cons: "\<And>c x y ps. rf c ((x, y) # ps) =
      (let r = rf (cf x y c) ps in (((x \<noteq> y) \<noteq> c) # fst r, snd r))"
    and layout: "\<forall>j < length ps. tape (h - 2 * int j) = bsym (snd (ps ! j)) \<and>
      tape (h - 2 * int j - 1) = bsym (fst (ps ! j))"
  shows "\<exists>tape'. run T (2 * length ps) (if c then n else q, tape, h) =
           Some (if snd (rf c ps) then n else q, tape', h - 2 * int (length ps)) \<and>
         (\<forall>j < length ps. tape' (h - 2 * int j) = BLANK \<and>
            tape' (h - 2 * int j - 1) = bsym (fst (rf c ps) ! j)) \<and>
         (\<forall>i. h < i \<or> i \<le> h - 2 * int (length ps) \<longrightarrow> tape' i = tape i)"
  using layout
proof (induction ps arbitrary: c tape h)
  case Nil
  show ?case by (simp add: rf_Nil)
next
  case (Cons p ps)
  obtain x y where p: "p = (x, y)" by (cases p)
  from Cons.prems [rule_format, of 0] have t0: "tape h = bsym y" "tape (h - 1) = bsym x"
    by (simp_all add: p)
  let ?c = "cf x y c"
  let ?t = "tape(h := BLANK, h - 1 := bsym ((x \<noteq> y) \<noteq> c))"
  have two: "run T 2 (if c then n else q, tape, h) = Some (if ?c then n else q, ?t, h - 2)"
    by (rule pair [OF t0])
  have lay: "\<forall>j < length ps. ?t (h - 2 - 2 * int j) = bsym (snd (ps ! j)) \<and>
      ?t (h - 2 - 2 * int j - 1) = bsym (fst (ps ! j))"
  proof (intro allI impI)
    fix j assume j: "j < length ps"
    from Cons.prems [rule_format, of "Suc j"] j
    show "?t (h - 2 - 2 * int j) = bsym (snd (ps ! j)) \<and>
      ?t (h - 2 - 2 * int j - 1) = bsym (fst (ps ! j))"
      by (simp add: algebra_simps)
  qed
  from Cons.IH [OF lay, of ?c] obtain tape' where
    r: "run T (2 * length ps) (if ?c then n else q, ?t, h - 2) =
        Some (if snd (rf ?c ps) then n else q, tape', h - 2 - 2 * int (length ps))"
    and b: "\<forall>j < length ps. tape' (h - 2 - 2 * int j) = BLANK \<and>
        tape' (h - 2 - 2 * int j - 1) = bsym (fst (rf ?c ps) ! j)"
    and u: "\<forall>i. h - 2 < i \<or> i \<le> h - 2 - 2 * int (length ps) \<longrightarrow> tape' i = ?t i"
    by blast
  have "run T (2 * length (p # ps)) (if c then n else q, tape, h) =
      Some (if snd (rf c (p # ps)) then n else q, tape', h - 2 * int (length (p # ps)))"
    using run_add [of T 2 "2 * length ps" "(if c then n else q, tape, h)"] two r
    by (simp add: p rf_Cons Let_def algebra_simps)
  moreover have "\<forall>j < length (p # ps). tape' (h - 2 * int j) = BLANK \<and>
      tape' (h - 2 * int j - 1) = bsym (fst (rf c (p # ps)) ! j)"
  proof (intro allI impI)
    fix j assume j: "j < length (p # ps)"
    show "tape' (h - 2 * int j) = BLANK \<and>
      tape' (h - 2 * int j - 1) = bsym (fst (rf c (p # ps)) ! j)"
    proof (cases j)
      case 0
      with u [rule_format, of h] u [rule_format, of "h - 1"] show ?thesis
        by (simp add: p rf_Cons Let_def)
    next
      case (Suc j')
      with j b [rule_format, of j'] show ?thesis
        by (simp add: p rf_Cons Let_def algebra_simps)
    qed
  qed
  moreover have "\<forall>i. h < i \<or> i \<le> h - 2 * int (length (p # ps)) \<longrightarrow> tape' i = tape i"
  proof (intro allI impI)
    fix i assume "h < i \<or> i \<le> h - 2 * int (length (p # ps))"
    with u [rule_format, of i] show "tape' i = tape i"
      by auto
  qed
  ultimately show ?case by blast
qed

lemma bits_val_word8: "bits_val (map (bit w) [0..<8]) = unat w" for w :: "8 word"
proof -
  have "take_bit 8 (unat w) = unat w"
    by (rule take_bit_nat_eq_self) (use unsigned_less [of w] in simp)
  then show ?thesis by (simp add: bits_val_word)
qed

lemma map_pair_bits:
  "map fst (map (\<lambda>j. (bit a j, bit b j)) [0..<8]) = map (bit a) [0..<8]"
  "map snd (map (\<lambda>j. (bit a j, bit b j)) [0..<8]) = map (bit b) [0..<8]"
  by (simp_all add: comp_def)

lemma add_bits_word:
  fixes a b :: "8 word"
  assumes "j < 8"
  shows "fst (add_bits False (map (\<lambda>j. (bit a j, bit b j)) [0..<8])) ! j = bit (a + b) j"
proof -
  let ?ps = "map (\<lambda>j. (bit a j, bit b j)) [0..<8]"
  let ?r = "fst (add_bits False ?ps)"
  have "bits_val ?r + 256 * of_bool (snd (add_bits False ?ps)) = unat a + unat b"
    using add_bits_val [of False ?ps] by (simp add: map_pair_bits bits_val_word8 del: map_map)
  then have "(of_nat (bits_val ?r + 256 * of_bool (snd (add_bits False ?ps))) :: 8 word) =
      of_nat (unat a + unat b)"
    by simp
  moreover have "(256 :: 8 word) = 0"
    by simp
  ultimately have "(of_nat (bits_val ?r) :: 8 word) = a + b"
    by simp
  then have "bit (a + b) j = bit (of_nat (bits_val ?r) :: 8 word) j"
    by simp
  also have "\<dots> = bit (bits_val ?r) j"
    using assms by (simp add: bit_of_nat_iff)
  also have "\<dots> = ?r ! j"
    using assms by (simp add: bit_bits_val)
  finally show ?thesis by simp
qed

lemma sub_bits_word:
  fixes a b :: "8 word"
  assumes "j < 8"
  shows "fst (sub_bits False (map (\<lambda>j. (bit a j, bit b j)) [0..<8])) ! j = bit (a - b) j"
proof -
  let ?ps = "map (\<lambda>j. (bit a j, bit b j)) [0..<8]"
  let ?r = "fst (sub_bits False ?ps)"
  have "bits_val ?r + unat b = unat a + 256 * of_bool (snd (sub_bits False ?ps))"
    using sub_bits_val [of False ?ps] by (simp add: map_pair_bits bits_val_word8 del: map_map)
  then have "(of_nat (bits_val ?r + unat b) :: 8 word) =
      of_nat (unat a + 256 * of_bool (snd (sub_bits False ?ps)))"
    by simp
  moreover have "(256 :: 8 word) = 0"
    by simp
  ultimately have "(of_nat (bits_val ?r) :: 8 word) + b = a"
    by simp
  then have "(of_nat (bits_val ?r) :: 8 word) = a - b"
    by (simp add: algebra_simps)
  then have "bit (a - b) j = bit (of_nat (bits_val ?r) :: 8 word) j"
    by simp
  also have "\<dots> = bit (bits_val ?r) j"
    using assms by (simp add: bit_of_nat_iff)
  also have "\<dots> = ?r ! j"
    using assms by (simp add: bit_bits_val)
  finally show ?thesis by simp
qed

text \<open>
  The run of an adder or subtractor table on an interleaved 8-bit operand pair: bit \<open>j\<close> of
  the main word is in cell \<open>p + 15 - 2j\<close>, bit \<open>j\<close> of the scratch word in cell
  \<open>p + 16 - 2j\<close>, and the head starts on cell \<open>p + 16\<close>.
\<close>

lemma arith_run:
  fixes a b w :: "8 word"
    and cf :: "bool \<Rightarrow> bool \<Rightarrow> bool \<Rightarrow> bool"
    and rf :: "bool \<Rightarrow> (bool \<times> bool) list \<Rightarrow> bool list \<times> bool"
  assumes pair: "\<And>tape h x y c. tape h = bsym y \<Longrightarrow> tape (h - 1) = bsym x \<Longrightarrow>
      run T 2 (if c then n else q, tape, h) =
        Some (if cf x y c then n else q, tape(h := BLANK, h - 1 := bsym ((x \<noteq> y) \<noteq> c)), h - 2)"
    and rf_Nil: "\<And>c. rf c [] = ([], c)"
    and rf_Cons: "\<And>c x y ps. rf c ((x, y) # ps) =
      (let r = rf (cf x y c) ps in (((x \<noteq> y) \<noteq> c) # fst r, snd r))"
    and word: "\<And>j. j < 8 \<Longrightarrow> fst (rf False (map (\<lambda>j. (bit a j, bit b j)) [0..<8])) ! j = bit w j"
    and fin: "\<And>tape h c. tape h \<noteq> ZERO \<Longrightarrow> tape h \<noteq> ONE \<Longrightarrow>
      step T (if c then n else q, tape, h) = Some (r, tape(h := BLANK), h)"
    and layout: "\<forall>j < 8. tape (p + 15 - 2 * int j) = bsym (bit a j) \<and>
      tape (p + 16 - 2 * int j) = bsym (bit b j)"
    and left: "tape p \<noteq> ZERO" "tape p \<noteq> ONE"
  shows "\<exists>tape'. run T 17 (q, tape, p + 16) = Some (r, tape', p) \<and> tape' p = BLANK \<and>
     (\<forall>j < 8. tape' (p + 15 - 2 * int j) = bsym (bit w j) \<and> tape' (p + 16 - 2 * int j) = BLANK) \<and>
     (\<forall>i. i < p \<or> p + 16 < i \<longrightarrow> tape' i = tape i)"
proof -
  let ?ps = "map (\<lambda>j. (bit a j, bit b j)) [0..<8]"
  have lay: "\<forall>j < length ?ps. tape (p + 16 - 2 * int j) = bsym (snd (?ps ! j)) \<and>
      tape (p + 16 - 2 * int j - 1) = bsym (fst (?ps ! j))"
    using layout by (simp add: algebra_simps)
  from pairs_run [of T n q cf rf ?ps tape "p + 16" False, OF pair rf_Nil rf_Cons lay]
  obtain t1 where
    r: "run T 16 (q, tape, p + 16) = Some (if snd (rf False ?ps) then n else q, t1, p)"
    and b: "\<forall>j < 8. t1 (p + 16 - 2 * int j) = BLANK \<and>
        t1 (p + 16 - 2 * int j - 1) = bsym (fst (rf False ?ps) ! j)"
    and u: "\<forall>i. p + 16 < i \<or> i \<le> p \<longrightarrow> t1 i = tape i"
    by auto
  from u left have "t1 p \<noteq> ZERO" "t1 p \<noteq> ONE" by simp_all
  then have
    s: "step T (if snd (rf False ?ps) then n else q, t1, p) = Some (r, t1(p := BLANK), p)"
    by (rule fin)
  have "run T (16 + 1) (q, tape, p + 16) = Some (r, t1(p := BLANK), p)"
    unfolding run_add using r s by simp
  then have 1: "run T 17 (q, tape, p + 16) = Some (r, t1(p := BLANK), p)"
    by simp
  have 2: "\<forall>j < 8. (t1(p := BLANK)) (p + 15 - 2 * int j) = bsym (bit w j) \<and>
      (t1(p := BLANK)) (p + 16 - 2 * int j) = BLANK"
  proof (intro allI impI)
    fix j :: nat assume j: "j < 8"
    with b [rule_format, of j] word [of j]
    show "(t1(p := BLANK)) (p + 15 - 2 * int j) = bsym (bit w j) \<and>
      (t1(p := BLANK)) (p + 16 - 2 * int j) = BLANK"
      by (simp add: algebra_simps)
  qed
  have 3: "\<forall>i. i < p \<or> p + 16 < i \<longrightarrow> (t1(p := BLANK)) i = tape i"
    using u by auto
  from 1 2 3 show ?thesis
    by (intro exI [of _ "t1(p := BLANK)"]) simp
qed

lemma code_of_tm_add: "code_of (tm_add q r) g = add_code q r (next_state g) (q_reject g)"
  by (simp add: code_of_def tm_add_code)

lemma code_of_tm_sub: "code_of (tm_sub q r) g = sub_code q r (next_state g) (q_reject g)"
  by (simp add: code_of_def tm_sub_code)

lemma add_fin:
  assumes "q < n" and "tape h \<noteq> ZERO" and "tape h \<noteq> ONE"
  shows "step (add_code q r n rej) (if c then n else q, tape, h) = Some (r, tape(h := BLANK), h)"
  using assms(2,3)
  by (cases c)
     (simp_all add: has_step [OF add_code_has(1) [OF assms(1)]]
        has_step [OF add_code_has(2) [OF assms(1)]])

lemma sub_fin:
  assumes "q < n" and "tape h \<noteq> ZERO" and "tape h \<noteq> ONE"
  shows "step (sub_code q r n rej) (if c then n else q, tape, h) = Some (r, tape(h := BLANK), h)"
  using assms(2,3)
  by (cases c)
     (simp_all add: has_step [OF sub_code_has(1) [OF assms(1)]]
        has_step [OF sub_code_has(2) [OF assms(1)]])

lemma lookup_Some_srcs: "lookup N q a = Some t \<Longrightarrow> q \<in> srcs N"
  by (auto simp: lookup_def find_Some_iff srcs_def)

lemma step_sub:
  assumes "sub_table N T" and "step N c = Some c'"
  shows "step T c = Some c'"
proof -
  obtain q tape h where c: "c = (q, tape, h)" by (cases c)
  from assms(2) obtain t where t: "lookup N q (tape h) = Some t"
    by (auto simp: step_def c split: option.splits)
  from lookup_Some_srcs [OF t] assms(1) have "lookup T q (tape h) = lookup N q (tape h)"
    by (simp add: sub_table_def)
  with assms(2) show ?thesis by (simp add: step_def c)
qed

lemma run_sub: "sub_table N T \<Longrightarrow> run N n c = Some c' \<Longrightarrow> run T n c = Some c'"
proof (induction n arbitrary: c)
  case 0
  then show ?case by simp
next
  case (Suc n)
  from Suc.prems(2) obtain c1 where s: "step N c = Some c1" and r: "run N n c1 = Some c'"
    by (auto split: option.splits)
  from step_sub [OF Suc.prems(1) s] Suc.IH [OF Suc.prems(1) r] show ?case by simp
qed

lemma runs_sub: "sub_table N T \<Longrightarrow> runs N c c' \<Longrightarrow> runs T c c'"
  unfolding runs_def by (auto dest: run_sub)

lemma sub_table_refl [simp]: "sub_table N N"
  by (simp add: sub_table_def)

lemma lookup_full: "full N \<Longrightarrow> q \<in> srcs N \<Longrightarrow> lookup N q a \<noteq> None"
  unfolding full_def srcs_def lookup_def find_None_iff by fastforce

lemma sub_table_here: "full N \<Longrightarrow> sub_table N (N @ B)"
  unfolding sub_table_def
  by (auto simp: lookup_append split: option.splits dest: lookup_full)

lemma sub_table_skip: "srcs A \<inter> srcs N = {} \<Longrightarrow> sub_table N B \<Longrightarrow> sub_table N (A @ B)"
  unfolding sub_table_def
  by (auto simp: lookup_append split: option.splits dest: lookup_Some_srcs)

lemma sub_table_last: "srcs A \<inter> srcs N = {} \<Longrightarrow> sub_table N (A @ N)"
  by (rule sub_table_skip) simp_all

lemma sub_table_trans: "sub_table A B \<Longrightarrow> sub_table B C \<Longrightarrow> srcs A \<subseteq> srcs B \<Longrightarrow> sub_table A C"
  unfolding sub_table_def by auto

lemma has_sub: "has N q f \<Longrightarrow> sub_table N T \<Longrightarrow> has T q f"
proof -
  assume h: "has N q f" and s: "sub_table N T"
  from h have "lookup N q BLANK \<noteq> None" by (simp add: has_def)
  then have "q \<in> srcs N" by (auto dest: lookup_Some_srcs)
  with h s show "has T q f" by (simp add: has_def sub_table_def)
qed

section \<open>Moving, writing and scanning\<close>

lemma has_step':
  assumes "has T q f" and "dir_ok (fst (snd (f (tape h))))"
  shows "step T (q, tape, h) =
     Some (snd (snd (f (tape h))), tape(h := fst (f (tape h))), h + fst (snd (f (tape h))))"
  using assms by (simp add: step_def has_def offset_dn)

lemma run_block1:
  assumes "has T q f" and "dir_ok (fst (snd (f (tape h))))"
  shows "runs T (q, tape, h)
     (snd (snd (f (tape h))), tape(h := fst (f (tape h))), h + fst (snd (f (tape h))))"
  using assms by (intro runs_step1 has_step')

text \<open>A state that moves on in direction \<open>d\<close> over the next \<open>k\<close> cells.\<close>

lemma scan:
  assumes "has T q f" and "dir_ok d"
    and "\<forall>j < k. f (tape (h + d * int j)) = (tape (h + d * int j), d, q)"
  shows "runs T (q, tape, h) (q, tape, h + d * int k)"
  using assms(3)
proof (induction k)
  case 0
  show ?case by simp
next
  case (Suc k)
  then have "runs T (q, tape, h) (q, tape, h + d * int k)" by simp
  moreover from Suc.prems have e: "f (tape (h + d * int k)) = (tape (h + d * int k), d, q)"
    by simp
  have "runs T (q, tape, h + d * int k) (q, tape, h + d * int (Suc k))"
    using run_block1 [OF assms(1), of tape "h + d * int k"] assms(2)
    by (simp add: e algebra_simps)
  ultimately show ?case by (rule runs_trans)
qed

lemma scan_to:
  assumes "has T q f" and "dir_ok d"
    and "\<forall>j < k. f (tape (h + d * int j)) = (tape (h + d * int j), d, q)"
    and "f (tape (h + d * int k)) = (tape (h + d * int k), 0, r)"
  shows "runs T (q, tape, h) (r, tape, h + d * int k)"
proof -
  have "runs T (q, tape, h + d * int k) (r, tape, h + d * int k)"
    using run_block1 [OF assms(1), of tape "h + d * int k"] by (simp add: assms(4))
  with scan [OF assms(1-3)] show ?thesis by (rule runs_trans)
qed

section \<open>Register lookup (claim C7)\<close>

lemma find_register_loop_has:
  assumes "q' < n'" and "j < i"
  shows "has (find_register_loop_code i qs reg rej q' n')
           (if j = 0 then q' else n' + 2 * int j - 1) (\<lambda>s. (s, 1, n' + 2 * int j))"
    and "has (find_register_loop_code i qs reg rej q' n') (n' + 2 * int j)
           (\<lambda>s. if s = bsym (bit reg (i - 1 - j)) then (s, 1, n' + 2 * int j + 1)
                else if s = END then (s, 0, rej) else (s, 1, qs))"
  using assms
proof (induction i arbitrary: q' n' j)
  case 0
  {
    case 1 then show ?case by simp
  next
    case 2 then show ?case by simp
  }
next
  case (Suc i)
  {
    case 1
    show ?case
    proof (cases j)
      case 0
      then show ?thesis by (simp add: has_append_left)
    next
      case (Suc j')
      with 1 have j': "j' < i" by simp
      have "has (find_register_loop_code i qs reg rej (n' + 1) (n' + 2))
          (n' + 2 * int j - 1) (\<lambda>s. (s, 1, n' + 2 * int j))"
        using Suc.IH(1) [of "n' + 1" "n' + 2" j'] j'
        by (cases "j' = 0") (simp_all add: Suc algebra_simps)
      with 1 Suc show ?thesis
        by (simp add: has_append_right)
    qed
  next
    case 2
    show ?case
    proof (cases j)
      case 0
      with 2 show ?thesis by (simp add: has_append_left has_append_right cong del: if_weak_cong)
    next
      case (Suc j')
      with 2 have j': "j' < i" by simp
      have "has (find_register_loop_code i qs reg rej (n' + 1) (n' + 2)) (n' + 2 * int j)
           (\<lambda>s. if s = bsym (bit reg (i - 1 - j')) then (s, 1, n' + 2 * int j + 1)
                else if s = END then (s, 0, rej) else (s, 1, qs))"
        using Suc.IH(2) [of "n' + 1" "n' + 2" j'] j'
        by (simp add: Suc algebra_simps cong del: if_weak_cong)
      with 2 Suc show ?thesis
        by (simp add: has_append_right cong del: if_weak_cong)
    qed
  }
qed

lemma srcs_find_register_loop:
  "srcs (find_register_loop_code i qs reg rej q' n') \<subseteq> insert q' {n' ..< n' + 2 * int i - 1}"
proof (induction i arbitrary: q' n')
  case 0
  show ?case by (simp add: srcs_simps)
next
  case (Suc i)
  show ?case
    using Suc [of "n' + 1" "n' + 2"] by (auto simp add: srcs_simps)
qed

lemma fr_table_code:
  assumes "q < n"
  shows "fr_table (find_register_code q reg r n rej) q reg r n rej"
proof -
  let ?L = "find_register_loop_code 8 q reg rej (n + 1) (n + 2)"
  have sl: "srcs ?L \<subseteq> {n + 1 ..< n + 17}"
    using srcs_find_register_loop [of 8 q reg rej "n + 1" "n + 2"] by auto
  have 1: "has (find_register_code q reg r n rej) q
      (\<lambda>s. if s = REGISTER then (s, 0, n) else if s = END then (s, 0, rej) else (s, 1, q))"
    by (simp add: find_register_code_def find_code_def has_append_left)
  have 2: "has (find_register_code q reg r n rej) n (\<lambda>s. (s, 1, n + 1))"
    using assms
    by (simp add: find_register_code_def find_code_def has_append_left has_append_right)
  have l: "has (find_register_code q reg r n rej) s f" if "has ?L s f" and "s \<noteq> q" and "s \<noteq> n"
    for s f
    using that
    by (simp add: find_register_code_def find_code_def has_append_left has_append_right)
  have 3: "has (find_register_code q reg r n rej) (n + 1 + 2 * int j) (\<lambda>s. (s, 1, n + 2 + 2 * int j)) \<and>
      has (find_register_code q reg r n rej) (n + 2 + 2 * int j)
        (\<lambda>s. if s = bsym (bit reg (7 - j)) then (s, 1, n + 3 + 2 * int j)
             else if s = END then (s, 0, rej) else (s, 1, q))" if "j < 8" for j
  proof
    have "has ?L (n + 1 + 2 * int j) (\<lambda>s. (s, 1, n + 2 + 2 * int j))"
      using find_register_loop_has(1) [of "n + 1" "n + 2" j 8 q reg rej] that
      by (cases "j = 0") (simp_all add: algebra_simps)
    then show "has (find_register_code q reg r n rej) (n + 1 + 2 * int j)
        (\<lambda>s. (s, 1, n + 2 + 2 * int j))"
      by (rule l) (use assms in auto)
    have "has ?L (n + 2 + 2 * int j)
        (\<lambda>s. if s = bsym (bit reg (7 - j)) then (s, 1, n + 3 + 2 * int j)
             else if s = END then (s, 0, rej) else (s, 1, q))"
      using find_register_loop_has(2) [of "n + 1" "n + 2" j 8 q reg rej] that
      by (simp add: algebra_simps cong del: if_weak_cong)
    then show "has (find_register_code q reg r n rej) (n + 2 + 2 * int j)
        (\<lambda>s. if s = bsym (bit reg (7 - j)) then (s, 1, n + 3 + 2 * int j)
             else if s = END then (s, 0, rej) else (s, 1, q))"
      by (rule l) (use assms in auto)
  qed
  have m: "n + 18 \<notin> srcs ?L" "n + 17 \<notin> srcs ?L"
    using sl by auto
  have 5: "has (find_register_code q reg r n rej) (n + 18)
      (\<lambda>s. if s = VALUE then (s, 1, r) else (s, 0, rej))"
    using assms m
    by (simp add: find_register_code_def find_code_def has_append_left has_append_right)
  have 4: "has (find_register_code q reg r n rej) (n + 17) (\<lambda>s. (s, 1, n + 18))"
    using assms m
    by (simp add: find_register_code_def find_code_def has_append_left has_append_right)
  from 1 2 3 4 5 show ?thesis
    by (simp add: fr_table_def)
qed

lemma bsym_eq [simp]: "bsym a = bsym b \<longleftrightarrow> a = b"
  by (cases a; cases b) (simp_all add: bsym_def)

lemma bsym_not_END [simp]: "bsym a \<noteq> END"
  by (cases a) (simp_all add: bsym_def)

lemma run_keep:
  assumes "has T q f" and "f (tape h) = (tape h, d, r')" and "dir_ok d"
  shows "runs T (q, tape, h) (r', tape, h + d)"
  using run_block1 [OF assms(1), of tape h] assms(2,3) by simp

lemma fr_find:
  assumes T: "fr_table T q reg r n rej" and "h \<le> m" and "no_marker tape h m"
  shows "tape m = REGISTER \<Longrightarrow> runs T (q, tape, h) (n, tape, m)"
    and "tape m = END \<Longrightarrow> runs T (q, tape, h) (rej, tape, m)"
proof -
  let ?f = "\<lambda>s. if s = REGISTER then (s, 0, n) else if s = END then (s, 0, rej) else (s, 1, q)"
  from T have h: "has T q ?f" by (simp add: fr_table_def)
  obtain k where k: "m = h + 1 * int k"
    using assms(2) by (metis mult_1 zle_iff_zadd)
  have s: "\<forall>j < k. ?f (tape (h + 1 * int j)) = (tape (h + 1 * int j), 1, q)"
    using assms(3) k by (simp add: no_marker_def)
  show "runs T (q, tape, h) (n, tape, m)" if "tape m = REGISTER"
    unfolding k by (rule scan_to [OF h _ s]) (use that k in \<open>simp_all add: dir_ok_def\<close>)
  show "runs T (q, tape, h) (rej, tape, m)" if "tape m = END"
    unfolding k by (rule scan_to [OF h _ s]) (use that k in \<open>simp_all add: dir_ok_def\<close>)
qed

lemma fr_prefix:
  assumes T: "fr_table T q reg r n rej" and b: "reg_block tape m idx"
    and "j \<le> 8" and "\<forall>k < j. bit idx (7 - k) = bit reg (7 - k)"
  shows "runs T (n, tape, m) (n + 1 + 2 * int j, tape, m + 1 + 2 * int j)"
  using assms(3,4)
proof (induction j)
  case 0
  from T have "has T n (\<lambda>s. (s, 1, n + 1))" by (simp add: fr_table_def)
  from run_block1 [OF this, of tape m] show ?case by (simp add: dir_ok_def)
next
  case (Suc j)
  then have 1: "runs T (n, tape, m) (n + 1 + 2 * int j, tape, m + 1 + 2 * int j)" by simp
  from Suc.prems have j: "j < 8" and e: "bit idx (7 - j) = bit reg (7 - j)" by simp_all
  from T j have "has T (n + 1 + 2 * int j) (\<lambda>s. (s, 1, n + 2 + 2 * int j))"
    by (simp add: fr_table_def)
  then have "runs T (n + 1 + 2 * int j, tape, m + 1 + 2 * int j)
      (n + 2 + 2 * int j, tape, m + 1 + 2 * int j + 1)"
    by (rule run_keep) (simp_all add: dir_ok_def)
  then have 2: "runs T (n + 1 + 2 * int j, tape, m + 1 + 2 * int j)
      (n + 2 + 2 * int j, tape, m + 2 + 2 * int j)"
    by (simp add: algebra_simps)
  from T j have "has T (n + 2 + 2 * int j)
      (\<lambda>s. if s = bsym (bit reg (7 - j)) then (s, 1, n + 3 + 2 * int j)
           else if s = END then (s, 0, rej) else (s, 1, q))"
    by (simp add: fr_table_def)
  then have 3: "runs T (n + 2 + 2 * int j, tape, m + 2 + 2 * int j)
      (n + 3 + 2 * int j, tape, m + 2 + 2 * int j + 1)"
    by (rule run_keep) (use b j e in \<open>simp_all add: dir_ok_def reg_block_def\<close>)
  have eq: "n + 1 + 2 * int (Suc j) = n + 3 + 2 * int j"
    "m + 1 + 2 * int (Suc j) = m + 2 + 2 * int j + 1" by simp_all
  show ?case unfolding eq using 1 2 3 by (blast intro: runs_trans)
qed

lemma same8_rev: "same8 idx reg \<longleftrightarrow> (\<forall>k < 8. bit idx (7 - k) = bit reg (7 - k))"
  unfolding same8_def
proof
  assume "\<forall>k<8. bit idx k = bit reg k"
  then show "\<forall>k<8. bit idx (7 - k) = bit reg (7 - k)" by simp
next
  assume a: "\<forall>k<8. bit idx (7 - k) = bit reg (7 - k)"
  show "\<forall>k<8. bit idx k = bit reg k"
  proof (intro allI impI)
    fix k :: nat assume "k < 8"
    with a [rule_format, of "7 - k"] show "bit idx k = bit reg k" by simp
  qed
qed

lemma fr_match:
  assumes T: "fr_table T q reg r n rej" and b: "reg_block tape m idx" and s: "same8 idx reg"
  shows "runs T (n, tape, m) (r, tape, m + 19)"
proof -
  from s have "\<forall>k < 8. bit idx (7 - k) = bit reg (7 - k)" by (simp add: same8_rev)
  from fr_prefix [where j = 8, OF T b _ this]
  have 1: "runs T (n, tape, m) (n + 17, tape, m + 17)" by (simp add: add.commute)
  from T have "has T (n + 17) (\<lambda>s. (s, 1, n + 18))" by (simp add: fr_table_def)
  then have "runs T (n + 17, tape, m + 17) (n + 18, tape, m + 17 + 1)"
    by (rule run_keep) (simp_all add: dir_ok_def)
  then have 2: "runs T (n + 17, tape, m + 17) (n + 18, tape, m + 18)" by (simp add: add.commute)
  from T have "has T (n + 18) (\<lambda>s. if s = VALUE then (s, 1, r) else (s, 0, rej))"
    by (simp add: fr_table_def)
  then have "runs T (n + 18, tape, m + 18) (r, tape, m + 18 + 1)"
    by (rule run_keep) (use b in \<open>simp_all add: dir_ok_def reg_block_def\<close>)
  then have 3: "runs T (n + 18, tape, m + 18) (r, tape, m + 19)" by (simp add: add.commute)
  from 1 2 3 show ?thesis by (blast intro: runs_trans)
qed

lemma fr_mismatch:
  assumes T: "fr_table T q reg r n rej" and b: "reg_block tape m idx" and s: "\<not> same8 idx reg"
  shows "\<exists>p. m < p \<and> p \<le> m + 19 \<and> runs T (n, tape, m) (q, tape, p)"
proof -
  let ?P = "\<lambda>j. j < 8 \<and> bit idx (7 - j) \<noteq> bit reg (7 - j)"
  define j where "j = (LEAST j. ?P j)"
  from s have "\<exists>j. ?P j" by (auto simp add: same8_rev)
  then have "?P j" unfolding j_def by (rule LeastI_ex)
  then have j: "j < 8" "bit idx (7 - j) \<noteq> bit reg (7 - j)" by simp_all
  have least: "\<forall>k < j. bit idx (7 - k) = bit reg (7 - k)"
  proof (intro allI impI)
    fix k assume k: "k < j"
    then have "\<not> ?P k" unfolding j_def by (rule not_less_Least)
    with k j(1) show "bit idx (7 - k) = bit reg (7 - k)" by simp
  qed
  from fr_prefix [OF T b _ least] j
  have 1: "runs T (n, tape, m) (n + 1 + 2 * int j, tape, m + 1 + 2 * int j)" by simp
  from T j have "has T (n + 1 + 2 * int j) (\<lambda>s. (s, 1, n + 2 + 2 * int j))"
    by (simp add: fr_table_def)
  then have "runs T (n + 1 + 2 * int j, tape, m + 1 + 2 * int j)
      (n + 2 + 2 * int j, tape, m + 1 + 2 * int j + 1)"
    by (rule run_keep) (simp_all add: dir_ok_def)
  then have 2: "runs T (n + 1 + 2 * int j, tape, m + 1 + 2 * int j)
      (n + 2 + 2 * int j, tape, m + 2 + 2 * int j)"
    by (simp add: algebra_simps)
  from T j have "has T (n + 2 + 2 * int j)
      (\<lambda>s. if s = bsym (bit reg (7 - j)) then (s, 1, n + 3 + 2 * int j)
           else if s = END then (s, 0, rej) else (s, 1, q))"
    by (simp add: fr_table_def)
  then have "runs T (n + 2 + 2 * int j, tape, m + 2 + 2 * int j) (q, tape, m + 2 + 2 * int j + 1)"
    by (rule run_keep) (use b j in \<open>simp_all add: dir_ok_def reg_block_def\<close>)
  then have 3: "runs T (n + 2 + 2 * int j, tape, m + 2 + 2 * int j) (q, tape, m + 3 + 2 * int j)"
    by (simp add: algebra_simps)
  from 1 2 3 have "runs T (n, tape, m) (q, tape, m + 3 + 2 * int j)"
    by (blast intro: runs_trans)
  with j show ?thesis by (intro exI [of _ "m + 3 + 2 * int j"]) simp
qed

lemma blocks_skip:
  assumes "blocks tape (m + 1) bs e" and "reg_block tape m idx" and "m < p" and "p \<le> m + 19"
  shows "blocks tape p bs e"
proof -
  have nm: "no_marker tape p x" if "no_marker tape (m + 1) x" for x
    using that assms(3) by (simp add: no_marker_def)
  have le: "p \<le> x" if "tape x = REGISTER \<or> tape x = END" and "m + 1 \<le> x" for x
  proof (rule ccontr)
    assume "\<not> p \<le> x"
    with assms(4) that(2) have "m < x \<and> x \<le> m + 18" by simp
    with assms(2) that(1) show False by (simp add: reg_block_def)
  qed
  show ?thesis
    using assms(1) by (cases bs) (auto simp add: nm le reg_block_def)
qed

lemma fr_blocks:
  assumes T: "fr_table T q reg r n rej"
  shows "blocks tape h bs e \<Longrightarrow>
     runs T (q, tape, h)
       (case find (\<lambda>b. same8 (snd b) reg) bs of
          Some b \<Rightarrow> (r, tape, fst b + 19) | None \<Rightarrow> (rej, tape, e))"
proof (induction bs arbitrary: h)
  case Nil
  then show ?case using fr_find(2) [OF T, of h e tape] by simp
next
  case (Cons b bs)
  then have 1: "runs T (q, tape, h) (n, tape, fst b)"
    using fr_find(1) [OF T, of h "fst b" tape] by (simp add: reg_block_def)
  from Cons.prems have rb: "reg_block tape (fst b) (snd b)" by simp
  show ?case
  proof (cases "same8 (snd b) reg")
    case True
    with fr_match [OF T rb] 1 show ?thesis by (auto intro: runs_trans)
  next
    case False
    from fr_mismatch [OF T rb False] obtain p
      where p: "fst b < p" "p \<le> fst b + 19" "runs T (n, tape, fst b) (q, tape, p)" by blast
    from Cons.prems have "blocks tape (fst b + 1) bs e" by simp
    then have "blocks tape p bs e" using rb p(1,2) by (rule blocks_skip)
    from Cons.IH [OF this] 1 p(3) False show ?thesis by (auto intro: runs_trans)
  qed
qed

section \<open>Tapes given by their cells\<close>

lemma cells_at_tape_of: "cells_at (tape_of cs) 0 cs"
  by (simp add: cells_at_def tape_of_def)

lemma cells_at_Nil [simp]: "cells_at tape off []"
  by (simp add: cells_at_def)

lemma cells_at_Cons [simp]:
  "cells_at tape off (c # cs) \<longleftrightarrow> tape off = c \<and> cells_at tape (off + 1) cs"
proof
  assume a: "cells_at tape off (c # cs)"
  from a [unfolded cells_at_def, rule_format, of 0] have "tape off = c" by simp
  moreover have "cells_at tape (off + 1) cs"
    unfolding cells_at_def
  proof (intro allI impI)
    fix i assume "i < length cs"
    with a [unfolded cells_at_def, rule_format, of "Suc i"]
    show "tape (off + 1 + int i) = cs ! i" by (simp add: algebra_simps)
  qed
  ultimately show "tape off = c \<and> cells_at tape (off + 1) cs" ..
next
  assume a: "tape off = c \<and> cells_at tape (off + 1) cs"
  show "cells_at tape off (c # cs)"
    unfolding cells_at_def
  proof (intro allI impI)
    fix i assume i: "i < length (c # cs)"
    show "tape (off + int i) = (c # cs) ! i"
    proof (cases i)
      case 0
      with a show ?thesis by simp
    next
      case (Suc j)
      with i a [THEN conjunct2, unfolded cells_at_def, rule_format, of j]
      show ?thesis by (simp add: algebra_simps)
    qed
  qed
qed

lemma cells_at_append:
  "cells_at tape off (a @ b) \<longleftrightarrow>
     cells_at tape off a \<and> cells_at tape (off + int (length a)) b"
proof (induction a arbitrary: off)
  case Nil
  show ?case by simp
next
  case (Cons c a)
  show ?case by (simp add: Cons algebra_simps)
qed

lemma cells_at_set:
  assumes "cells_at tape off cs" and "off \<le> i" and "i < off + int (length cs)"
  shows "tape i \<in> set cs"
proof -
  from assms(2,3) have n: "nat (i - off) < length cs" by simp
  from assms(2) have e: "off + int (nat (i - off)) = i" by simp
  from assms(1) [unfolded cells_at_def, rule_format, OF n]
  have "tape i = cs ! nat (i - off)" unfolding e .
  with n show ?thesis by simp
qed

lemma length_spread_bits [simp]: "length (spread_bits w i) = 2 * i"
  by (induction i) simp_all

lemma length_spread [simp]: "length (spread w) = 16"
  by (simp add: spread_def)

lemma length_reg_cells [simp]: "length (reg_cells b) = 36"
  by (simp add: reg_cells_def)

lemma set_spread_bits: "set (spread_bits w i) \<subseteq> {BLANK, ZERO, ONE}"
  by (induction i) (auto simp add: bsym_def)

lemma set_spread: "set (spread w) \<subseteq> {BLANK, ZERO, ONE}"
  by (simp add: spread_def set_spread_bits)

lemma spread_bits_at:
  assumes "cells_at tape off (spread_bits w i)" and "k < i"
  shows "tape (off + 1 + 2 * int k) = bsym (bit w (i - 1 - k))"
  using assms
proof (induction i arbitrary: off k)
  case 0
  then show ?case by simp
next
  case (Suc i)
  show ?case
  proof (cases k)
    case 0
    with Suc.prems show ?thesis by simp
  next
    case (Suc k')
    with Suc.prems Suc.IH [of "off + 2" k'] show ?thesis by (simp add: algebra_simps)
  qed
qed

lemma reg_cells_block:
  assumes "cells_at tape off (reg_cells b)"
  shows "reg_block tape (off + 1) (fst b)" and "no_marker tape (off + 2) (off + 36)"
    and "tape off = BLANK"
proof -
  from assms have r: "tape (off + 1) = REGISTER" and o: "tape off = BLANK"
    and s: "cells_at tape (off + 2) (spread_bits (fst b) 8)"
    and v: "tape (off + 19) = VALUE"
    and t: "cells_at tape (off + 2)
      (spread_bits (fst b) 8 @ [BLANK, VALUE] @ spread_bits (snd b) 8)"
    by (simp_all add: reg_cells_def cells_at_append spread_def add.commute)
  have m: "tape i \<noteq> REGISTER \<and> tape i \<noteq> END" if "off + 2 \<le> i" and "i < off + 36" for i
  proof -
    from that have "tape i \<in> set (spread_bits (fst b) 8 @ [BLANK, VALUE] @ spread_bits (snd b) 8)"
      by (intro cells_at_set [OF t]) simp_all
    then show ?thesis using set_spread_bits [of "fst b" 8] set_spread_bits [of "snd b" 8] by auto
  qed
  have "\<forall>k < 8. tape (off + 1 + 2 + 2 * int k) = bsym (bit (fst b) (7 - k))"
    using spread_bits_at [OF s] by (simp add: algebra_simps)
  with r v m show "reg_block tape (off + 1) (fst b)"
    by (simp add: reg_block_def add.commute)
  from m show "no_marker tape (off + 2) (off + 36)" by (simp add: no_marker_def)
  from o show "tape off = BLANK" .
qed

lemma no_marker_single:
  assumes "tape a \<noteq> REGISTER" and "tape a \<noteq> END"
  shows "no_marker tape a (a + 1)"
  unfolding no_marker_def
proof (intro allI impI)
  fix i assume "a \<le> i \<and> i < a + 1"
  then have "i = a" by simp
  with assms show "tape i \<noteq> REGISTER \<and> tape i \<noteq> END" by simp
qed

lemma no_marker_append:
  "no_marker tape a b \<Longrightarrow> no_marker tape b c \<Longrightarrow> no_marker tape a c"
  unfolding no_marker_def
proof (intro allI impI)
  fix i assume 1: "\<forall>i. a \<le> i \<and> i < b \<longrightarrow> tape i \<noteq> REGISTER \<and> tape i \<noteq> END"
    and 2: "\<forall>i. b \<le> i \<and> i < c \<longrightarrow> tape i \<noteq> REGISTER \<and> tape i \<noteq> END"
    and i: "a \<le> i \<and> i < c"
  show "tape i \<noteq> REGISTER \<and> tape i \<noteq> END"
  proof (cases "i < b")
    case True
    with 1 i show ?thesis by simp
  next
    case False
    with 2 i show ?thesis by simp
  qed
qed

lemma blocks_cells:
  assumes "REGISTER \<notin> set rest" and "END \<notin> set rest"
  shows "cells_at tape off (concat (map reg_cells regs) @ rest @ [END]) \<Longrightarrow> h \<le> off \<Longrightarrow>
     no_marker tape h off \<Longrightarrow>
     blocks tape h (reg_blocks off regs) (off + 36 * int (length regs) + int (length rest))"
proof (induction regs arbitrary: off h)
  case Nil
  then have c: "cells_at tape off rest" and e: "tape (off + int (length rest)) = END"
    by (simp_all add: cells_at_append)
  have "no_marker tape off (off + int (length rest))"
    unfolding no_marker_def
  proof (intro allI impI)
    fix i assume "off \<le> i \<and> i < off + int (length rest)"
    then have "tape i \<in> set rest" using cells_at_set [OF c, of i] by simp
    with assms show "tape i \<noteq> REGISTER \<and> tape i \<noteq> END" by auto
  qed
  with Nil.prems(3) have "no_marker tape h (off + int (length rest))"
    by (rule no_marker_append)
  with Nil.prems(2) e show ?case by simp
next
  case (Cons b regs)
  from Cons.prems(1) have b: "cells_at tape off (reg_cells b)"
    and c: "cells_at tape (off + 36) (concat (map reg_cells regs) @ rest @ [END])"
    by (simp_all add: cells_at_append)
  note rb = reg_cells_block [OF b]
  from rb(3) have "no_marker tape off (off + 1)" by (intro no_marker_single) simp_all
  with Cons.prems(3) have 1: "no_marker tape h (off + 1)" by (rule no_marker_append)
  have 2: "blocks tape (off + 2) (reg_blocks (off + 36) regs)
      (off + 36 + 36 * int (length regs) + int (length rest))"
    using c _ rb(2) by (rule Cons.IH) simp
  from 1 2 rb(1) Cons.prems(2) show ?case by (simp add: algebra_simps)
qed

lemma find_reg_blocks:
  "find (\<lambda>b. same8 (snd b) reg) (reg_blocks off regs) =
     map_option (\<lambda>j. (off + 1 + 36 * int j, fst (regs ! j))) (first_reg reg regs)"
proof (induction regs arbitrary: off)
  case Nil
  show ?case by simp
next
  case (Cons b regs)
  show ?case by (simp add: Cons option.map_comp comp_def algebra_simps)
qed

lemma same8_mod: "same8 idx reg \<longleftrightarrow> idx mod 256 = reg mod 256"
proof -
  have "same8 idx reg \<longleftrightarrow> take_bit 8 idx = take_bit 8 reg"
    by (auto simp add: same8_def bit_eq_iff [of "take_bit 8 idx"] bit_take_bit_iff)
  then show ?thesis by (simp add: take_bit_eq_mod)
qed

lemma code_of_tm_find_register:
  "code_of (tm_find_register q reg r) g = find_register_code q reg r (next_state g) (q_reject g)"
  by (simp add: code_of_def tm_find_register_code)

section \<open>Copying a word (claims C5, C6 and C10)\<close>

lemma run_write:
  assumes "has T q f" and "f (tape h) = (b, d, r')" and "dir_ok d"
  shows "runs T (q, tape, h) (r', tape(h := b), h + d)"
  using assms by (intro runs_step1 has_step)

lemma has_find_code: "has (find_code q d a ry rn) q (findf d a ry rn q)"
  by (simp add: find_code_def findf_def)

lemma find_right:
  assumes "has T q (findf 1 a ry rn q)" and "h \<le> x" and "tape x = a"
    and "\<forall>i. h \<le> i \<and> i < x \<longrightarrow> tape i \<noteq> a \<and> tape i \<noteq> END"
  shows "runs T (q, tape, h) (ry, tape, x)"
proof -
  obtain k where k: "x = h + 1 * int k"
    using assms(2) by (metis mult_1 zle_iff_zadd)
  have s: "\<forall>j < k. findf 1 a ry rn q (tape (h + 1 * int j)) = (tape (h + 1 * int j), 1, q)"
    using assms(4) k by (simp add: findf_def)
  show ?thesis
    unfolding k by (rule scan_to [OF assms(1) _ s]) (use assms(3) k in \<open>simp_all add: dir_ok_def findf_def\<close>)
qed

lemma find_left:
  assumes "has T q (findf (- 1) a ry rn q)" and "x \<le> h" and "tape x = a"
    and "\<forall>i. x < i \<and> i \<le> h \<longrightarrow> tape i \<noteq> a \<and> tape i \<noteq> START"
  shows "runs T (q, tape, h) (ry, tape, x)"
proof -
  obtain k where k: "h = x + int k"
    using assms(2) by (metis zle_iff_zadd)
  then have x: "x = h + (- 1) * int k" by simp
  have s: "\<forall>j < k. findf (- 1) a ry rn q (tape (h + (- 1) * int j)) = (tape (h + (- 1) * int j), - 1, q)"
    using assms(4) k by (simp add: findf_def)
  show ?thesis
    unfolding x by (rule scan_to [OF assms(1) _ s]) (use assms(3) x in \<open>simp_all add: dir_ok_def findf_def\<close>)
qed

text \<open>Searching in either direction: the cells strictly between the head and the target, and
  the head's cell, hold neither the symbol sought nor the sentinel of that direction.\<close>

lemma find_dir:
  assumes "has T q (findf d a ry rn q)" and "tape x = a"
    and "d = 1 \<and> h \<le> x \<or> d = - 1 \<and> x \<le> h"
    and "\<forall>i. (h \<le> i \<and> i < x \<or> x < i \<and> i \<le> h) \<longrightarrow>
           tape i \<noteq> a \<and> tape i \<noteq> (if d < 0 then START else END)"
  shows "runs T (q, tape, h) (ry, tape, x)"
  using assms(3)
proof
  assume d: "d = 1 \<and> h \<le> x"
  with assms(1) have "has T q (findf 1 a ry rn q)" by simp
  then show ?thesis using d assms(2,4) by (intro find_right [where a = a]) auto
next
  assume d: "d = - 1 \<and> x \<le> h"
  with assms(1) have "has T q (findf (- 1) a ry rn q)" by simp
  then show ?thesis using d assms(2,4) by (intro find_left [where a = a]) auto
qed

lemma copy_flat:
  "copy_helper_code q d True False r n rej =
     block q (\<lambda>s. (SRC, 0, n)) @
     block n (\<lambda>s. (BLANK, 1, n + 1)) @
     block (n + 1) (\<lambda>s. if s = ZERO then (s, 1, n + 2)
                         else if s = ONE then (s, 1, n + 3) else (s, 0, n + 4)) @
     block (n + 2) (\<lambda>s. (SRC, 1, n + 6)) @
     block (n + 6) (findf d DST (n + 7) rej (n + 6)) @
     block (n + 7) (\<lambda>s. (BLANK, 1, n + 8)) @
     block (n + 8) (\<lambda>s. (ZERO, 1, n + 5)) @
     block (n + 3) (\<lambda>s. (SRC, 1, n + 9)) @
     block (n + 9) (findf d DST (n + 10) rej (n + 9)) @
     block (n + 10) (\<lambda>s. (BLANK, 1, n + 11)) @
     block (n + 11) (\<lambda>s. (ONE, 1, n + 5)) @
     block (n + 5) (\<lambda>s. (DST, 0, n + 12)) @
     block (n + 12) (findf (- d) SRC n rej (n + 12)) @
     block (n + 4) (findf d DST (n + 13) rej (n + 4)) @
     block (n + 13) (\<lambda>s. (BLANK, 0, r))"
  "copy_helper_code q d False False r n rej =
     block q (\<lambda>s. (SRC, 0, n)) @
     block n (\<lambda>s. (BLANK, 1, n + 1)) @
     block (n + 1) (\<lambda>s. if s = ZERO then (s, 1, n + 2)
                         else if s = ONE then (s, 1, n + 3) else (s, 0, n + 4)) @
     block (n + 2) (\<lambda>s. (SRC, 1, n + 6)) @
     block (n + 6) (findf d DST (n + 7) rej (n + 6)) @
     block (n + 7) (\<lambda>s. (ZERO, 1, n + 5)) @
     block (n + 3) (\<lambda>s. (SRC, 1, n + 8)) @
     block (n + 8) (findf d DST (n + 9) rej (n + 8)) @
     block (n + 9) (\<lambda>s. (ONE, 1, n + 5)) @
     block (n + 5) (\<lambda>s. (DST, 0, n + 10)) @
     block (n + 10) (findf (- d) SRC n rej (n + 10)) @
     block (n + 4) (findf d DST (n + 11) rej (n + 4)) @
     block (n + 11) (\<lambda>s. (BLANK, 0, r))"
  by (simp_all add: copy_helper_code_def Let_def find_code_def findf_def add.commute
      cong del: if_weak_cong)

lemma has_block_skip: "q' \<noteq> q \<Longrightarrow> has (block q f @ B) q' g = has B q' g"
  by (simp add: has_append_right srcs_simps)

lemma has_block_here: "has (block q f @ B) q f"
  by (simp add: has_append_left)

lemma copy_has:
  assumes "q < n"
  shows "has (copy_helper_code q d bb False r n rej) q (\<lambda>s. (SRC, 0, n))"
    and "has (copy_helper_code q d bb False r n rej) n (\<lambda>s. (BLANK, 1, n + 1))"
    and "has (copy_helper_code q d bb False r n rej) (n + 1)
           (\<lambda>s. if s = ZERO then (s, 1, n + 2) else if s = ONE then (s, 1, n + 3) else (s, 0, n + 4))"
    and "has (copy_helper_code q d bb False r n rej) (if b then n + 3 else n + 2)
           (\<lambda>s. (SRC, 1, cp_find n bb b))"
    and "has (copy_helper_code q d bb False r n rej) (cp_find n bb b)
           (findf d DST (cp_find n bb b + 1) rej (cp_find n bb b))"
    and "bb \<Longrightarrow> has (copy_helper_code q d bb False r n rej) (cp_find n bb b + 1)
           (\<lambda>s. (BLANK, 1, cp_find n bb b + 2))"
    and "has (copy_helper_code q d bb False r n rej) (cp_find n bb b + 1 + cp_off bb)
           (\<lambda>s. (bsym b, 1, n + 5))"
    and "has (copy_helper_code q d bb False r n rej) (n + 5) (\<lambda>s. (DST, 0, cp_back n bb))"
    and "has (copy_helper_code q d bb False r n rej) (cp_back n bb)
           (findf (- d) SRC n rej (cp_back n bb))"
    and "has (copy_helper_code q d bb False r n rej) (n + 4)
           (findf d DST (cp_back n bb + 1) rej (n + 4))"
    and "has (copy_helper_code q d bb False r n rej) (cp_back n bb + 1) (\<lambda>s. (BLANK, 0, r))"
proof -
  note s = copy_flat cp_find_def cp_back_def cp_off_def has_block_skip has_block_here add.commute
  from assms show "has (copy_helper_code q d bb False r n rej) q (\<lambda>s. (SRC, 0, n))"
    by (cases bb) (simp_all add: s)
  from assms show "has (copy_helper_code q d bb False r n rej) n (\<lambda>s. (BLANK, 1, n + 1))"
    by (cases bb) (simp_all add: s)
  from assms show "has (copy_helper_code q d bb False r n rej) (n + 1)
      (\<lambda>s. if s = ZERO then (s, 1, n + 2) else if s = ONE then (s, 1, n + 3) else (s, 0, n + 4))"
    by (cases bb) (simp_all add: s)
  from assms show "has (copy_helper_code q d bb False r n rej) (if b then n + 3 else n + 2)
      (\<lambda>s. (SRC, 1, cp_find n bb b))"
    by (cases bb; cases b) (simp_all add: s)
  from assms show "has (copy_helper_code q d bb False r n rej) (cp_find n bb b)
      (findf d DST (cp_find n bb b + 1) rej (cp_find n bb b))"
    by (cases bb; cases b) (simp_all add: s)
  from assms show "has (copy_helper_code q d bb False r n rej) (cp_find n bb b + 1)
      (\<lambda>s. (BLANK, 1, cp_find n bb b + 2))" if bb
    using that by (cases b) (simp_all add: s)
  from assms show "has (copy_helper_code q d bb False r n rej) (cp_find n bb b + 1 + cp_off bb)
      (\<lambda>s. (bsym b, 1, n + 5))"
    by (cases bb; cases b) (simp_all add: s)
  from assms show "has (copy_helper_code q d bb False r n rej) (n + 5) (\<lambda>s. (DST, 0, cp_back n bb))"
    by (cases bb) (simp_all add: s)
  from assms show "has (copy_helper_code q d bb False r n rej) (cp_back n bb)
      (findf (- d) SRC n rej (cp_back n bb))"
    by (cases bb) (simp_all add: s)
  from assms show "has (copy_helper_code q d bb False r n rej) (n + 4)
      (findf d DST (cp_back n bb + 1) rej (n + 4))"
    by (cases bb) (simp_all add: s)
  from assms show "has (copy_helper_code q d bb False r n rej) (cp_back n bb + 1) (\<lambda>s. (BLANK, 0, r))"
    by (cases bb) (simp_all add: s)
qed

lemma cp_off_range: "0 \<le> cp_off bb" "cp_off bb \<le> 1"
  by (simp_all add: cp_off_def)

text \<open>Writing one bit at the destination marker.\<close>

lemma cp_bit:
  assumes "q < n"
  shows "runs (copy_helper_code q d bb False r n rej) (cp_find n bb b + 1, tape, D)
     (n + 5, tape(D := BLANK, D + cp_off bb := bsym b), D + cp_off bb + 1)"
proof (cases bb)
  case True
  let ?N = "copy_helper_code q d bb False r n rej"
  have "runs ?N (cp_find n bb b + 1, tape, D) (cp_find n bb b + 2, tape(D := BLANK), D + 1)"
    by (rule run_write [OF copy_has(6) [OF assms True]]) (simp_all add: dir_ok_def)
  moreover have "has ?N (cp_find n bb b + 2) (\<lambda>s. (bsym b, 1, n + 5))"
    using copy_has(7) [OF assms, of d bb r rej b] True by (simp add: cp_off_def add.commute)
  then have "runs ?N (cp_find n bb b + 2, tape(D := BLANK), D + 1)
      (n + 5, tape(D := BLANK, D + 1 := bsym b), D + 1 + 1)"
    by (rule run_write) (simp_all add: dir_ok_def)
  ultimately show ?thesis using True by (auto simp add: cp_off_def intro: runs_trans)
next
  case False
  let ?N = "copy_helper_code q d bb False r n rej"
  have "has ?N (cp_find n bb b + 1) (\<lambda>s. (bsym b, 1, n + 5))"
    using copy_has(7) [OF assms, of d bb r rej b] False by (simp add: cp_off_def)
  then have "runs ?N (cp_find n bb b + 1, tape, D) (n + 5, tape(D := bsym b), D + 1)"
    by (rule run_write) (simp_all add: dir_ok_def)
  then show ?thesis using False by (simp add: cp_off_def)
qed

text \<open>One round of the copy loop: from the source marker at cell \<open>P\<close> to the source marker at
  cell \<open>P + 2\<close>, with the bit of cell \<open>P + 1\<close> written at the destination marker. The search
  for the destination marker stops at \<open>DST\<close> and at the sentinel of the direction \<open>d\<close>, the
  search back for the source marker at \<open>SRC\<close> and at the sentinel of the direction \<open>- d\<close>.\<close>

lemma cp_iter:
  assumes q: "q < n"
    and dir: "d = 1 \<and> P + 3 \<le> D \<or> d = - 1 \<and> D + cp_off bb + 1 < P"
    and D: "tape D = DST" and b: "tape (P + 1) = bsym b"
    and fwd: "\<forall>i. P + 2 < i \<and> i < D \<or> D < i \<and> i < P \<longrightarrow>
       tape i \<noteq> DST \<and> tape i \<noteq> (if d < 0 then START else END)"
    and bwd: "\<forall>i. P + 2 < i \<and> i < D \<or> D + cp_off bb + 1 < i \<and> i < P \<longrightarrow>
       tape i \<noteq> SRC \<and> tape i \<noteq> (if - d < 0 then START else END)"
    and nxt: "d = - 1 \<longrightarrow> tape (P + 3) \<noteq> DST \<and> tape (P + 3) \<noteq> START"
  shows "runs (copy_helper_code q d bb False r n rej) (n, tape, P)
     (n, tape(P := BLANK, P + 2 := SRC, D := BLANK, D + cp_off bb := bsym b,
        D + cp_off bb + 1 := DST), P + 2)"
proof -
  let ?N = "copy_helper_code q d bb False r n rej"
  let ?o = "cp_off bb"
  note o = cp_off_range [of bb]
  let ?t1 = "tape(P := BLANK)"
  let ?t2 = "?t1(P + 2 := SRC)"
  let ?t3 = "?t2(D := BLANK, D + ?o := bsym b)"
  let ?t4 = "?t3(D + ?o + 1 := DST)"
  have 1: "runs ?N (n, tape, P) (n + 1, ?t1, P + 1)"
    by (rule run_write [OF copy_has(2) [OF q]]) (simp_all add: dir_ok_def)
  have "runs ?N (n + 1, ?t1, P + 1) (if b then n + 3 else n + 2, ?t1, P + 1 + 1)"
    by (rule run_keep [OF copy_has(3) [OF q]]) (use b in \<open>simp_all add: dir_ok_def\<close>)
  then have 2: "runs ?N (n + 1, ?t1, P + 1) (if b then n + 3 else n + 2, ?t1, P + 2)"
    by (simp add: add.commute)
  have "runs ?N (if b then n + 3 else n + 2, ?t1, P + 2) (cp_find n bb b, ?t2, P + 2 + 1)"
    by (rule run_write [OF copy_has(4) [OF q]]) (simp_all add: dir_ok_def)
  then have 3: "runs ?N (if b then n + 3 else n + 2, ?t1, P + 2) (cp_find n bb b, ?t2, P + 3)"
    by (simp add: add.commute)
  have D2: "?t2 D = DST" using dir D o by auto
  have c2: "\<forall>i. (P + 3 \<le> i \<and> i < D \<or> D < i \<and> i \<le> P + 3) \<longrightarrow>
      ?t2 i \<noteq> DST \<and> ?t2 i \<noteq> (if d < 0 then START else END)"
  proof (intro allI impI)
    fix i assume i: "P + 3 \<le> i \<and> i < D \<or> D < i \<and> i \<le> P + 3"
    show "?t2 i \<noteq> DST \<and> ?t2 i \<noteq> (if d < 0 then START else END)"
    proof (cases "i = P \<or> i = P + 1 \<or> i = P + 2")
      case True
      then show ?thesis using b by (auto simp add: bsym_def split: if_splits)
    next
      case False
      note old = False
      show ?thesis
      proof (cases "i = P + 3 \<and> d = - 1")
        case True
        with nxt show ?thesis by simp
      next
        case False
        with old i dir o have "P + 2 < i \<and> i < D \<or> D < i \<and> i < P" by auto
        with fwd have "tape i \<noteq> DST \<and> tape i \<noteq> (if d < 0 then START else END)" by blast
        with old show ?thesis by simp
      qed
    qed
  qed
  have 4: "runs ?N (cp_find n bb b, ?t2, P + 3) (cp_find n bb b + 1, ?t2, D)"
    by (rule find_dir [OF copy_has(5) [OF q] D2 _ c2]) (use dir o in auto)
  have 5: "runs ?N (cp_find n bb b + 1, ?t2, D) (n + 5, ?t3, D + ?o + 1)"
    by (rule cp_bit [OF q])
  have "runs ?N (n + 5, ?t3, D + ?o + 1) (cp_back n bb, ?t4, D + ?o + 1 + 0)"
    by (rule run_write [OF copy_has(8) [OF q]]) (simp_all add: dir_ok_def)
  then have 6: "runs ?N (n + 5, ?t3, D + ?o + 1) (cp_back n bb, ?t4, D + ?o + 1)"
    by simp
  have S4: "?t4 (P + 2) = SRC" using dir o by auto
  have c4: "\<forall>i. (D + ?o + 1 \<le> i \<and> i < P + 2 \<or> P + 2 < i \<and> i \<le> D + ?o + 1) \<longrightarrow>
      ?t4 i \<noteq> SRC \<and> ?t4 i \<noteq> (if - d < 0 then START else END)"
  proof (intro allI impI)
    fix i assume i: "D + ?o + 1 \<le> i \<and> i < P + 2 \<or> P + 2 < i \<and> i \<le> D + ?o + 1"
    show "?t4 i \<noteq> SRC \<and> ?t4 i \<noteq> (if - d < 0 then START else END)"
    proof (cases "i = P \<or> i = P + 1 \<or> i = D \<or> i = D + ?o \<or> i = D + ?o + 1")
      case True
      then show ?thesis using i b dir o by (auto simp add: bsym_def split: if_splits)
    next
      case False
      with i dir o have "P + 2 < i \<and> i < D \<or> D + ?o + 1 < i \<and> i < P" by auto
      with bwd have "tape i \<noteq> SRC \<and> tape i \<noteq> (if - d < 0 then START else END)" by blast
      moreover from i have "i \<noteq> P + 2" by auto
      ultimately show ?thesis using False by simp
    qed
  qed
  have 7: "runs ?N (cp_back n bb, ?t4, D + ?o + 1) (n, ?t4, P + 2)"
    by (rule find_dir [OF copy_has(9) [OF q] S4 _ c4]) (use dir o in auto)
  from 1 2 3 4 5 6 7 show ?thesis by (blast intro: runs_trans)
qed

text \<open>The end of the copy loop: the cell after the last scratch cell holds no bit.\<close>

lemma cp_end:
  assumes q: "q < n"
    and dir: "d = 1 \<and> P + 1 < D \<or> d = - 1 \<and> D < P"
    and D: "tape D = DST" and z: "tape (P + 1) \<noteq> ZERO" "tape (P + 1) \<noteq> ONE"
    and fwd: "\<forall>i. P < i \<and> i < D \<or> D < i \<and> i < P \<longrightarrow>
       tape i \<noteq> DST \<and> tape i \<noteq> (if d < 0 then START else END)"
    and nxt: "d = - 1 \<longrightarrow> tape (P + 1) \<noteq> DST \<and> tape (P + 1) \<noteq> START"
  shows "runs (copy_helper_code q d bb False r n rej) (n, tape, P)
     (r, tape(P := BLANK, D := BLANK), D)"
proof -
  let ?N = "copy_helper_code q d bb False r n rej"
  let ?t1 = "tape(P := BLANK)"
  have 1: "runs ?N (n, tape, P) (n + 1, ?t1, P + 1)"
    by (rule run_write [OF copy_has(2) [OF q]]) (simp_all add: dir_ok_def)
  have "runs ?N (n + 1, ?t1, P + 1) (n + 4, ?t1, P + 1 + 0)"
    by (rule run_keep [OF copy_has(3) [OF q]]) (use z in \<open>simp_all add: dir_ok_def\<close>)
  then have 2: "runs ?N (n + 1, ?t1, P + 1) (n + 4, ?t1, P + 1)" by simp
  have D1: "?t1 D = DST" using dir D by auto
  have c1: "\<forall>i. (P + 1 \<le> i \<and> i < D \<or> D < i \<and> i \<le> P + 1) \<longrightarrow>
      ?t1 i \<noteq> DST \<and> ?t1 i \<noteq> (if d < 0 then START else END)"
  proof (intro allI impI)
    fix i assume i: "P + 1 \<le> i \<and> i < D \<or> D < i \<and> i \<le> P + 1"
    show "?t1 i \<noteq> DST \<and> ?t1 i \<noteq> (if d < 0 then START else END)"
    proof (cases "i = P")
      case True
      then show ?thesis by simp
    next
      case False
      note old = False
      show ?thesis
      proof (cases "i = P + 1 \<and> d = - 1")
        case True
        with nxt show ?thesis by simp
      next
        case False
        with old i dir have "P < i \<and> i < D \<or> D < i \<and> i < P" by auto
        with fwd have "tape i \<noteq> DST \<and> tape i \<noteq> (if d < 0 then START else END)" by blast
        with old show ?thesis by simp
      qed
    qed
  qed
  have 3: "runs ?N (n + 4, ?t1, P + 1) (cp_back n bb + 1, ?t1, D)"
    by (rule find_dir [OF copy_has(10) [OF q] D1 _ c1]) (use dir in auto)
  have "runs ?N (cp_back n bb + 1, ?t1, D) (r, ?t1(D := BLANK), D + 0)"
    by (rule run_write [OF copy_has(11) [OF q]]) (simp_all add: dir_ok_def)
  then have 4: "runs ?N (cp_back n bb + 1, ?t1, D) (r, ?t1(D := BLANK), D)" by simp
  from 1 2 3 4 show ?thesis by (blast intro: runs_trans)
qed

lemma cp_loop:
  assumes q: "q < n"
  shows "tape D = DST \<Longrightarrow>
     \<forall>j < length bs. tape (P + 1 + 2 * int j) = bsym (bs ! j) \<Longrightarrow>
     tape (P + 1 + 2 * int (length bs)) \<noteq> ZERO \<Longrightarrow>
     tape (P + 1 + 2 * int (length bs)) \<noteq> ONE \<Longrightarrow>
     d = 1 \<and> P + 2 * int (length bs) + 1 < D \<or>
       d = - 1 \<and> D + (cp_off bb + 1) * int (length bs) < P \<Longrightarrow>
     \<forall>i. P + (if bs = [] then 0 else 2) < i \<and> i < D \<or> D < i \<and> i < P \<longrightarrow>
       tape i \<noteq> DST \<and> tape i \<noteq> (if d < 0 then START else END) \<Longrightarrow>
     \<forall>i. P + 2 < i \<and> i < D \<or> D + cp_off bb + 1 < i \<and> i < P \<longrightarrow>
       tape i \<noteq> SRC \<and> tape i \<noteq> (if - d < 0 then START else END) \<Longrightarrow>
     d = - 1 \<longrightarrow> tape (P + 1 + 2 * int (length bs)) \<noteq> DST \<and>
       tape (P + 1 + 2 * int (length bs)) \<noteq> START \<Longrightarrow>
     \<exists>tape'. runs (copy_helper_code q d bb False r n rej) (n, tape, P)
         (r, tape', D + (cp_off bb + 1) * int (length bs)) \<and>
       cp_post bb bs P D tape tape'"
proof (induction bs arbitrary: tape P D)
  case Nil
  have "runs (copy_helper_code q d bb False r n rej) (n, tape, P)
      (r, tape(P := BLANK, D := BLANK), D)"
    using Nil.prems by (intro cp_end [OF q]) simp_all
  moreover have "cp_post bb [] P D tape (tape(P := BLANK, D := BLANK))"
    by (simp add: cp_post_def)
  ultimately have "runs (copy_helper_code q d bb False r n rej) (n, tape, P)
        (r, tape(P := BLANK, D := BLANK), D + (cp_off bb + 1) * int (length ([] :: bool list))) \<and>
      cp_post bb [] P D tape (tape(P := BLANK, D := BLANK))"
    by simp
  then show ?case by blast
next
  case (Cons b bs)
  let ?N = "copy_helper_code q d bb False r n rej"
  let ?o = "cp_off bb"
  let ?l = "int (length bs)"
  note o = cp_off_range [of bb]
  define m where "m = ?o * ?l"
  have nn: "0 \<le> m" using o by (simp add: m_def)
  have len: "(?o + 1) * int (length (b # bs)) = m + ?l + ?o + 1"
    by (simp add: m_def algebra_simps)
  have len': "(?o + 1) * ?l = m + ?l"
    by (simp add: m_def algebra_simps)
  note D = Cons.prems(1)
  note dir = Cons.prems(5) [unfolded len]
  have fwd: "tape i \<noteq> DST \<and> tape i \<noteq> (if d < 0 then START else END)"
    if "P + 2 < i \<and> i < D \<or> D < i \<and> i < P" for i
    using Cons.prems(6) [rule_format, of i] that by simp
  have bwd: "tape i \<noteq> SRC \<and> tape i \<noteq> (if - d < 0 then START else END)"
    if "P + 2 < i \<and> i < D \<or> D + ?o + 1 < i \<and> i < P" for i
    using Cons.prems(7) [rule_format, of i] that by simp
  note trm = Cons.prems(8)
  let ?t4 = "tape(P := BLANK, P + 2 := SRC, D := BLANK, D + ?o := bsym b, D + ?o + 1 := DST)"
  have t4: "?t4 i = tape i" if "i \<noteq> P" "i \<noteq> P + 2" "i < D \<or> D + ?o + 1 < i" for i
    using that o by auto
  have b: "tape (P + 1) = bsym b" using Cons.prems(2) [rule_format, of 0] by simp
  have e: "?t4 (P + 2 + 1 + 2 * ?l) = tape (P + 1 + 2 * int (length (b # bs)))"
  proof -
    have "?t4 (P + 2 + 1 + 2 * ?l) = tape (P + 2 + 1 + 2 * ?l)"
      using dir nn o by (intro t4) auto
    then show ?thesis by (simp add: algebra_simps)
  qed
  have 1: "runs ?N (n, tape, P) (n, ?t4, P + 2)"
  proof (rule cp_iter [OF q _ D b])
    show "d = 1 \<and> P + 3 \<le> D \<or> d = - 1 \<and> D + ?o + 1 < P"
      using dir nn by auto
    show "\<forall>i. P + 2 < i \<and> i < D \<or> D < i \<and> i < P \<longrightarrow>
        tape i \<noteq> DST \<and> tape i \<noteq> (if d < 0 then START else END)"
      using fwd by blast
    show "\<forall>i. P + 2 < i \<and> i < D \<or> D + ?o + 1 < i \<and> i < P \<longrightarrow>
        tape i \<noteq> SRC \<and> tape i \<noteq> (if - d < 0 then START else END)"
      using bwd by blast
    show "d = - 1 \<longrightarrow> tape (P + 3) \<noteq> DST \<and> tape (P + 3) \<noteq> START"
    proof (cases bs)
      case Nil
      with trm show ?thesis by (simp add: add.commute)
    next
      case (Cons b' bs')
      with Cons.prems(2) [rule_format, of 1] have "tape (P + 3) = bsym b'"
        by (simp add: add.commute)
      then show ?thesis by (simp add: bsym_def)
    qed
  qed
  have "\<exists>tape'. runs ?N (n, ?t4, P + 2) (r, tape', D + ?o + 1 + (?o + 1) * ?l) \<and>
      cp_post bb bs (P + 2) (D + ?o + 1) ?t4 tape'"
  proof (rule Cons.IH)
    show "?t4 (D + ?o + 1) = DST" by simp
    show "\<forall>j < length bs. ?t4 (P + 2 + 1 + 2 * int j) = bsym (bs ! j)"
    proof (intro allI impI)
      fix j assume j: "j < length bs"
      have "?t4 (P + 2 + 1 + 2 * int j) = tape (P + 2 + 1 + 2 * int j)"
        using dir nn j o by (intro t4) auto
      also have "\<dots> = tape (P + 1 + 2 * int (Suc j))" by (simp add: algebra_simps)
      also have "\<dots> = bsym (bs ! j)"
        using Cons.prems(2) [rule_format, of "Suc j"] j by simp
      finally show "?t4 (P + 2 + 1 + 2 * int j) = bsym (bs ! j)" .
    qed
    show "?t4 (P + 2 + 1 + 2 * ?l) \<noteq> ZERO" "?t4 (P + 2 + 1 + 2 * ?l) \<noteq> ONE"
      unfolding e using Cons.prems(3,4) by simp_all
    show "d = - 1 \<longrightarrow> ?t4 (P + 2 + 1 + 2 * ?l) \<noteq> DST \<and> ?t4 (P + 2 + 1 + 2 * ?l) \<noteq> START"
      unfolding e using trm by simp
    show "d = 1 \<and> P + 2 + 2 * ?l + 1 < D + ?o + 1 \<or>
        d = - 1 \<and> D + ?o + 1 + (?o + 1) * ?l < P + 2"
      unfolding len' using dir o by auto
    have w: "?t4 i \<noteq> SRC \<and> ?t4 i \<noteq> DST \<and> ?t4 i \<noteq> START \<and> ?t4 i \<noteq> END"
      if "i = P \<or> i = P + 1 \<or> i = D \<or> i = D + ?o" "i \<noteq> P + 2" "i \<noteq> D + ?o + 1" for i
      using that b dir o nn by (auto simp add: bsym_def split: if_splits)
    show "\<forall>i. P + 2 + (if bs = [] then 0 else 2) < i \<and> i < D + ?o + 1 \<or>
          D + ?o + 1 < i \<and> i < P + 2 \<longrightarrow>
        ?t4 i \<noteq> DST \<and> ?t4 i \<noteq> (if d < 0 then START else END)"
    proof (intro allI impI)
      fix i assume i: "P + 2 + (if bs = [] then 0 else 2) < i \<and> i < D + ?o + 1 \<or>
          D + ?o + 1 < i \<and> i < P + 2"
      then have x: "i \<noteq> P + 2" "i \<noteq> D + ?o + 1" by (auto split: if_splits)
      show "?t4 i \<noteq> DST \<and> ?t4 i \<noteq> (if d < 0 then START else END)"
      proof (cases "i = P \<or> i = P + 1 \<or> i = D \<or> i = D + ?o")
        case True
        from w [OF True x] show ?thesis by simp
      next
        case False
        with i x o have "?t4 i = tape i" by (intro t4) (auto split: if_splits)
        moreover from i False o have "P + 2 < i \<and> i < D \<or> D < i \<and> i < P"
          by (auto split: if_splits)
        then have "tape i \<noteq> DST \<and> tape i \<noteq> (if d < 0 then START else END)" by (rule fwd)
        ultimately show ?thesis by simp
      qed
    qed
    show "\<forall>i. P + 2 + 2 < i \<and> i < D + ?o + 1 \<or> D + ?o + 1 + ?o + 1 < i \<and> i < P + 2 \<longrightarrow>
        ?t4 i \<noteq> SRC \<and> ?t4 i \<noteq> (if - d < 0 then START else END)"
    proof (intro allI impI)
      fix i assume i: "P + 2 + 2 < i \<and> i < D + ?o + 1 \<or> D + ?o + 1 + ?o + 1 < i \<and> i < P + 2"
      with o have x: "i \<noteq> P + 2" "i \<noteq> D + ?o + 1" by auto
      show "?t4 i \<noteq> SRC \<and> ?t4 i \<noteq> (if - d < 0 then START else END)"
      proof (cases "i = P \<or> i = P + 1 \<or> i = D \<or> i = D + ?o")
        case True
        from w [OF True x] show ?thesis by simp
      next
        case False
        with i x o have "?t4 i = tape i" by (intro t4) auto
        moreover from i False o have "P + 2 < i \<and> i < D \<or> D + ?o + 1 < i \<and> i < P"
          by auto
        then have "tape i \<noteq> SRC \<and> tape i \<noteq> (if - d < 0 then START else END)" by (rule bwd)
        ultimately show ?thesis by simp
      qed
    qed
  qed
  then obtain tape' where 2: "runs ?N (n, ?t4, P + 2) (r, tape', D + ?o + 1 + (?o + 1) * ?l)"
    and post: "cp_post bb bs (P + 2) (D + ?o + 1) ?t4 tape'" by blast
  note p = post [unfolded cp_post_def len']
  note bits = p [THEN conjunct1, rule_format]
  note blanks = p [THEN conjunct2, THEN conjunct1, rule_format]
  note last = p [THEN conjunct2, THEN conjunct2, THEN conjunct1]
  note srcb = p [THEN conjunct2, THEN conjunct2, THEN conjunct2, THEN conjunct1, rule_format]
  note frame = p [THEN conjunct2, THEN conjunct2, THEN conjunct2, THEN conjunct2, rule_format]
  have sep: "x \<noteq> P + 2 + 2 * int j" if "D \<le> x" "x \<le> D + ?o" "j \<le> length bs" for x j
    using that dir o nn by auto
  have low: "tape' x = ?t4 x" if "D \<le> x" "x \<le> D + ?o" for x
  proof (rule frame, intro conjI allI impI)
    show "\<not> (D + ?o + 1 \<le> x \<and> x \<le> D + ?o + 1 + (m + ?l))" using that by simp
    fix j assume "j \<le> length bs"
    with that show "x \<noteq> P + 2 + 2 * int j" by (rule sep)
  qed
  have P': "tape' P = BLANK"
  proof -
    have "tape' P = ?t4 P"
    proof (rule frame, intro conjI allI impI)
      show "\<not> (D + ?o + 1 \<le> P \<and> P \<le> D + ?o + 1 + (m + ?l))" using dir o nn by auto
      fix j show "P \<noteq> P + 2 + 2 * int j" by simp
    qed
    also have "\<dots> = BLANK" using dir o nn by auto
    finally show ?thesis .
  qed
  have "cp_post bb (b # bs) P D tape tape'"
    unfolding cp_post_def len
  proof (intro conjI allI impI)
    fix j assume j: "j < length (b # bs)"
    show "tape' (D + (?o + 1) * int j + ?o) = bsym ((b # bs) ! j)"
    proof (cases j)
      case 0
      have "tape' (D + ?o) = ?t4 (D + ?o)" using o by (intro low) simp_all
      with 0 show ?thesis by simp
    next
      case (Suc j')
      with j bits [of j'] show ?thesis by (simp add: algebra_simps)
    qed
  next
    fix j assume bb: bb and j: "j < length (b # bs)"
    then have o1: "?o = 1" by (simp add: cp_off_def)
    show "tape' (D + 2 * int j) = BLANK"
    proof (cases j)
      case 0
      have "tape' D = ?t4 D" using o by (intro low) simp_all
      with 0 o1 show ?thesis by simp
    next
      case (Suc j')
      with j blanks [OF bb, of j'] o1 show ?thesis by (simp add: algebra_simps)
    qed
  next
    from last show "tape' (D + (m + ?l + ?o + 1)) = BLANK" by (simp add: algebra_simps)
  next
    fix j assume j: "j \<le> length (b # bs)"
    show "tape' (P + 2 * int j) = BLANK"
    proof (cases j)
      case 0
      with P' show ?thesis by simp
    next
      case (Suc j')
      with j srcb [of j'] show ?thesis by (simp add: algebra_simps)
    qed
  next
    fix i assume i: "\<not> (D \<le> i \<and> i \<le> D + (m + ?l + ?o + 1)) \<and>
        (\<forall>j \<le> length (b # bs). i \<noteq> P + 2 * int j)"
    have "tape' i = ?t4 i"
    proof (rule frame, intro conjI allI impI)
      show "\<not> (D + ?o + 1 \<le> i \<and> i \<le> D + ?o + 1 + (m + ?l))" using i o by auto
      fix j assume "j \<le> length bs"
      with i [THEN conjunct2, rule_format, of "Suc j"] show "i \<noteq> P + 2 + 2 * int j"
        by (simp add: algebra_simps)
    qed
    also have "\<dots> = tape i"
    proof (rule t4)
      from i [THEN conjunct2, rule_format, of 0] show "i \<noteq> P" by simp
      from i [THEN conjunct2, rule_format, of 1] show "i \<noteq> P + 2" by simp
      from i nn o show "i < D \<or> D + ?o + 1 < i" by auto
    qed
    finally show "tape' i = tape i" .
  qed
  moreover from 1 2 have "runs ?N (n, tape, P) (r, tape', D + (?o + 1) * int (length (b # bs)))"
    unfolding len len' by (auto intro: runs_trans simp add: algebra_simps)
  ultimately show ?case by blast
qed

text \<open>The whole copy, in any table that holds the states of \<open>tm_copy_helper\<close>.\<close>

lemma copy_run:
  assumes q: "q < n" and sub: "sub_table (copy_helper_code q d bb False r n rej) T"
    and D: "tape t = DST"
    and bits: "\<forall>j < length bs. tape (p + 1 + 2 * int j) = bsym (bs ! j)"
    and z: "tape (p + 1 + 2 * int (length bs)) \<noteq> ZERO"
      "tape (p + 1 + 2 * int (length bs)) \<noteq> ONE"
    and dir: "d = 1 \<and> p + 2 * int (length bs) + 1 < t \<or>
       d = - 1 \<and> t + (cp_off bb + 1) * int (length bs) < p"
    and fwd: "\<forall>i. p + (if bs = [] then 0 else 2) < i \<and> i < t \<or> t < i \<and> i < p \<longrightarrow>
       tape i \<noteq> DST \<and> tape i \<noteq> (if d < 0 then START else END)"
    and bwd: "\<forall>i. p + 2 < i \<and> i < t \<or> t + cp_off bb + 1 < i \<and> i < p \<longrightarrow>
       tape i \<noteq> SRC \<and> tape i \<noteq> (if - d < 0 then START else END)"
    and trm: "d = - 1 \<longrightarrow> tape (p + 1 + 2 * int (length bs)) \<noteq> DST \<and>
       tape (p + 1 + 2 * int (length bs)) \<noteq> START"
  shows "\<exists>tape'. runs T (q, tape, p) (r, tape', t + (cp_off bb + 1) * int (length bs)) \<and>
     cp_post bb bs p t tape tape'"
proof -
  let ?N = "copy_helper_code q d bb False r n rej"
  let ?t0 = "tape(p := SRC)"
  have "0 \<le> (cp_off bb + 1) * int (length bs)" using cp_off_range [of bb] by simp
  with dir have pt: "p \<noteq> t" by auto
  have "runs ?N (q, tape, p) (n, ?t0, p + 0)"
    by (rule run_write [OF copy_has(1) [OF q]]) (simp_all add: dir_ok_def)
  then have 1: "runs ?N (q, tape, p) (n, ?t0, p)" by simp
  have "\<exists>tape'. runs ?N (n, ?t0, p) (r, tape', t + (cp_off bb + 1) * int (length bs)) \<and>
      cp_post bb bs p t ?t0 tape'"
  proof (rule cp_loop [OF q _ _ _ _ dir])
    show "?t0 t = DST" using D pt by simp
    show "\<forall>j < length bs. ?t0 (p + 1 + 2 * int j) = bsym (bs ! j)" using bits by simp
    show "?t0 (p + 1 + 2 * int (length bs)) \<noteq> ZERO" "?t0 (p + 1 + 2 * int (length bs)) \<noteq> ONE"
      using z by simp_all
    show "\<forall>i. p + (if bs = [] then 0 else 2) < i \<and> i < t \<or> t < i \<and> i < p \<longrightarrow>
        ?t0 i \<noteq> DST \<and> ?t0 i \<noteq> (if d < 0 then START else END)"
      using fwd by (auto split: if_splits)
    show "\<forall>i. p + 2 < i \<and> i < t \<or> t + cp_off bb + 1 < i \<and> i < p \<longrightarrow>
        ?t0 i \<noteq> SRC \<and> ?t0 i \<noteq> (if - d < 0 then START else END)"
      using bwd by auto
    show "d = - 1 \<longrightarrow> ?t0 (p + 1 + 2 * int (length bs)) \<noteq> DST \<and>
        ?t0 (p + 1 + 2 * int (length bs)) \<noteq> START"
      using trm by simp
  qed
  then obtain tape' where 2: "runs ?N (n, ?t0, p) (r, tape', t + (cp_off bb + 1) * int (length bs))"
    and post: "cp_post bb bs p t ?t0 tape'" by blast
  have "cp_post bb bs p t tape tape'"
    unfolding cp_post_def
  proof (intro conjI allI impI)
    fix i assume i: "\<not> (t \<le> i \<and> i \<le> t + (cp_off bb + 1) * int (length bs)) \<and>
        (\<forall>j \<le> length bs. i \<noteq> p + 2 * int j)"
    from i [THEN conjunct2, rule_format, of 0] have "i \<noteq> p" by simp
    with post i show "tape' i = tape i" by (simp add: cp_post_def)
  qed (use post in \<open>simp_all add: cp_post_def\<close>)
  moreover from 1 2 have "runs ?N (q, tape, p) (r, tape', t + (cp_off bb + 1) * int (length bs))"
    by (rule runs_trans)
  then have "runs T (q, tape, p) (r, tape', t + (cp_off bb + 1) * int (length bs))"
    by (rule runs_sub [OF sub])
  ultimately show ?thesis by blast
qed

lemma code_of_tm_copy:
  "dir_ok d \<Longrightarrow> code_of (tm_copy q d r) g =
     copy_helper_code q d True False r (next_state g) (q_reject g)"
  by (simp add: code_of_def tm_copy_code)

lemma code_of_tm_copy_compact:
  "dir_ok d \<Longrightarrow> code_of (tm_copy_compact q d r) g =
     copy_helper_code q d False False r (next_state g) (q_reject g)"
  by (simp add: code_of_def tm_copy_compact_code)

text \<open>With direction \<open>0\<close> the search for the destination marker never leaves its cell.\<close>

lemma run_stuck:
  assumes "run T k c = Some c'" and "step T c' = Some c'"
  shows "run T (k + j) c = Some c'"
proof -
  have "run T j c' = Some c'" by (induction j) (simp_all add: assms(2))
  with assms(1) show ?thesis by (simp add: run_add)
qed

lemma copy_zero_stuck:
  assumes q: "q < n" and b: "tape (p + 1) = bsym b"
    and c: "tape (p + 3) \<noteq> DST" "tape (p + 3) \<noteq> END"
  shows "run (copy_helper_code q 0 bb False r n rej) 4 (q, tape, p) =
      Some (cp_find n bb b, tape(p := BLANK, p + 2 := SRC), p + 3)"
    and "step (copy_helper_code q 0 bb False r n rej)
        (cp_find n bb b, tape(p := BLANK, p + 2 := SRC), p + 3) =
      Some (cp_find n bb b, tape(p := BLANK, p + 2 := SRC), p + 3)"
    and "k < 4 \<Longrightarrow> \<exists>c. run (copy_helper_code q 0 bb False r n rej) k (q, tape, p) = Some c \<and>
      fst c \<in> {q, n, n + 1, if b then n + 3 else n + 2}"
proof -
  let ?N = "copy_helper_code q 0 bb False r n rej"
  let ?t1 = "tape(p := BLANK)"
  let ?t2 = "tape(p := BLANK, p + 2 := SRC)"
  have "step ?N (q, tape, p) = Some (n, tape(p := SRC), p + 0)"
    by (rule has_step [OF copy_has(1) [OF q]]) (simp_all add: dir_ok_def)
  then have 1: "step ?N (q, tape, p) = Some (n, tape(p := SRC), p)" by simp
  have "step ?N (n, tape(p := SRC), p) = Some (n + 1, (tape(p := SRC))(p := BLANK), p + 1)"
    by (rule has_step [OF copy_has(2) [OF q]]) (simp_all add: dir_ok_def)
  then have 2: "step ?N (n, tape(p := SRC), p) = Some (n + 1, ?t1, p + 1)" by simp
  have "step ?N (n + 1, ?t1, p + 1) =
      Some (if b then n + 3 else n + 2, ?t1(p + 1 := bsym b), p + 1 + 1)"
    by (rule has_step [OF copy_has(3) [OF q]]) (use b in \<open>simp_all add: dir_ok_def\<close>)
  moreover have "?t1(p + 1 := bsym b) = ?t1" using b by (simp add: fun_upd_idem)
  ultimately have 3: "step ?N (n + 1, ?t1, p + 1) = Some (if b then n + 3 else n + 2, ?t1, p + 2)"
    by (simp add: add.commute)
  have "step ?N (if b then n + 3 else n + 2, ?t1, p + 2) = Some (cp_find n bb b, ?t2, p + 2 + 1)"
    by (rule has_step [OF copy_has(4) [OF q]]) (simp_all add: dir_ok_def)
  then have 4: "step ?N (if b then n + 3 else n + 2, ?t1, p + 2) = Some (cp_find n bb b, ?t2, p + 3)"
    by (simp add: add.commute)
  from 1 2 3 4 show "run ?N 4 (q, tape, p) = Some (cp_find n bb b, ?t2, p + 3)"
    by (simp add: numeral_eq_Suc)
  have "step ?N (cp_find n bb b, ?t2, p + 3) =
      Some (cp_find n bb b, ?t2(p + 3 := ?t2 (p + 3)), p + 3 + 0)"
    by (rule has_step [OF copy_has(5) [OF q]]) (use c in \<open>simp_all add: dir_ok_def findf_def\<close>)
  moreover have "?t2(p + 3 := ?t2 (p + 3)) = ?t2" by (rule fun_upd_triv)
  ultimately show "step ?N (cp_find n bb b, ?t2, p + 3) = Some (cp_find n bb b, ?t2, p + 3)"
    by simp
  show "\<exists>c. run ?N k (q, tape, p) = Some c \<and> fst c \<in> {q, n, n + 1, if b then n + 3 else n + 2}"
    if "k < 4"
  proof -
    from that have "k = 0 \<or> k = 1 \<or> k = 2 \<or> k = 3" by auto
    then show ?thesis using 1 2 3 by (auto simp add: numeral_eq_Suc)
  qed
qed

text \<open>Copying a word of eight bits with a blank before each bit, in any table that holds the
  states of \<open>tm_copy_helper\<close>: what the copy needs of the tape, and what it leaves.\<close>

lemma copy8_run:
  assumes "q < n" and "sub_table (copy_helper_code q d True False r n rej) T"
    and "d = 1 \<and> p + 17 < t \<or> d = - 1 \<and> t + 16 < p"
    and "tape t = DST"
    and "\<forall>j < 8. tape (p + 1 + 2 * int j) = bsym (f j)"
    and "tape (p + 17) \<noteq> ZERO" and "tape (p + 17) \<noteq> ONE"
    and "d = 1 \<longrightarrow> (\<forall>i. p + 2 < i \<and> i < t \<longrightarrow>
           tape i \<noteq> SRC \<and> tape i \<noteq> DST \<and> tape i \<noteq> START \<and> tape i \<noteq> END)"
    and "d = - 1 \<longrightarrow> (\<forall>i. t < i \<and> i < p \<longrightarrow> tape i \<noteq> DST \<and> tape i \<noteq> START) \<and>
           (\<forall>i. t + 2 < i \<and> i < p \<longrightarrow> tape i \<noteq> SRC \<and> tape i \<noteq> END) \<and>
           tape (p + 17) \<noteq> DST \<and> tape (p + 17) \<noteq> START"
  shows "\<exists>tape'. runs T (q, tape, p) (r, tape', t + 16) \<and>
     (\<forall>j < 8. tape' (t + 1 + 2 * int j) = bsym (f j)) \<and>
     (\<forall>j \<le> 8. tape' (t + 2 * int j) = BLANK) \<and>
     (\<forall>j < 8. tape' (p + 1 + 2 * int j) = bsym (f j)) \<and>
     (\<forall>j \<le> 8. tape' (p + 2 * int j) = BLANK) \<and>
     (\<forall>i. \<not> (t \<le> i \<and> i \<le> t + 16) \<and> (\<forall>j \<le> 8. i \<noteq> p + 2 * int j) \<longrightarrow> tape' i = tape i)"
proof -
  let ?bs = "map f [0 ..< 8]"
  let ?N = "copy_helper_code q d True False r n rej"
  have l: "length ?bs = 8" by simp
  have n: "?bs ! j = f j" if "j < 8" for j using that by simp
  have o: "cp_off True = 1" by (simp add: cp_off_def)
  have "\<exists>tape'. runs T (q, tape, p) (r, tape', t + (cp_off True + 1) * int (length ?bs)) \<and>
      cp_post True ?bs p t tape tape'"
  proof (rule copy_run)
    show "q < n" by (rule assms(1))
    show "sub_table ?N T" by (rule assms(2))
    show "tape t = DST" by (rule assms(4))
    show "\<forall>j < length ?bs. tape (p + 1 + 2 * int j) = bsym (?bs ! j)"
      using assms(5) by simp
    show "tape (p + 1 + 2 * int (length ?bs)) \<noteq> ZERO" "tape (p + 1 + 2 * int (length ?bs)) \<noteq> ONE"
      using assms(6,7) by (simp_all add: add.commute)
    show "d = 1 \<and> p + 2 * int (length ?bs) + 1 < t \<or>
        d = - 1 \<and> t + (cp_off True + 1) * int (length ?bs) < p"
      using assms(3) by (auto simp add: o)
    have ne: "?bs \<noteq> []" by simp
    show "\<forall>i. p + (if ?bs = [] then 0 else 2) < i \<and> i < t \<or> t < i \<and> i < p \<longrightarrow>
        tape i \<noteq> DST \<and> tape i \<noteq> (if d < 0 then START else END)"
      unfolding if_not_P [OF ne] using assms(3,8,9) by auto
    show "\<forall>i. p + 2 < i \<and> i < t \<or> t + cp_off True + 1 < i \<and> i < p \<longrightarrow>
        tape i \<noteq> SRC \<and> tape i \<noteq> (if - d < 0 then START else END)"
      unfolding o using assms(3,8,9) by auto
    show "d = - 1 \<longrightarrow> tape (p + 1 + 2 * int (length ?bs)) \<noteq> DST \<and>
        tape (p + 1 + 2 * int (length ?bs)) \<noteq> START"
      using assms(9) by (simp add: add.commute)
  qed
  then obtain tape' where r: "runs T (q, tape, p) (r, tape', t + 16)"
    and post: "cp_post True ?bs p t tape tape'" by (auto simp add: o)
  note p = post [unfolded cp_post_def l o]
  note bits = p [THEN conjunct1, rule_format]
  note blanks = p [THEN conjunct2, THEN conjunct1, rule_format]
  note last = p [THEN conjunct2, THEN conjunct2, THEN conjunct1]
  note srcb = p [THEN conjunct2, THEN conjunct2, THEN conjunct2, THEN conjunct1, rule_format]
  note frame = p [THEN conjunct2, THEN conjunct2, THEN conjunct2, THEN conjunct2, rule_format]
  have 1: "\<forall>j < 8. tape' (t + 1 + 2 * int j) = bsym (f j)"
  proof (intro allI impI)
    fix j :: nat assume j: "j < 8"
    with bits [of j] show "tape' (t + 1 + 2 * int j) = bsym (f j)"
      by (simp add: algebra_simps)
  qed
  have 2: "\<forall>j \<le> 8. tape' (t + 2 * int j) = BLANK"
  proof (intro allI impI)
    fix j :: nat assume j: "j \<le> 8"
    show "tape' (t + 2 * int j) = BLANK"
    proof (cases "j = 8")
      case True
      with last show ?thesis by simp
    next
      case False
      with j have "j < 8" by simp
      with blanks [of j] show ?thesis by simp
    qed
  qed
  have 3: "\<forall>j < 8. tape' (p + 1 + 2 * int j) = bsym (f j)"
  proof (intro allI impI)
    fix j :: nat assume j: "j < 8"
    have "tape' (p + 1 + 2 * int j) = tape (p + 1 + 2 * int j)"
    proof (rule frame, intro conjI allI impI)
      show "\<not> (t \<le> p + 1 + 2 * int j \<and> p + 1 + 2 * int j \<le> t + (1 + 1) * int 8)"
        using assms(3) j by auto
      fix k :: nat show "p + 1 + 2 * int j \<noteq> p + 2 * int k" by presburger
    qed
    with assms(5) j show "tape' (p + 1 + 2 * int j) = bsym (f j)" by simp
  qed
  from srcb have 4: "\<forall>j \<le> 8. tape' (p + 2 * int j) = BLANK" by simp
  from frame have 5: "\<forall>i. \<not> (t \<le> i \<and> i \<le> t + 16) \<and> (\<forall>j \<le> 8. i \<noteq> p + 2 * int j) \<longrightarrow>
      tape' i = tape i"
    by simp
  from r 1 2 3 4 5 show ?thesis by blast
qed

section \<open>The states of PUTC (claim C10)\<close>

lemma tm_inst_PUTC_imm:
  "op inst = PUTC \<Longrightarrow> src inst = IMM v \<Longrightarrow> tm_inst q inst g =
     (Inr (next_state g + 20), adv 21 (putc_imm_code q (word_of_int v) (next_state g)) g)"
  by (simp add: gm_simps tm_inst_def bnd_Inr [OF tm_write_code] bnd_Inr [OF tm_ffwd_code]
      bnd_Inr [OF tm_write_byte_code] tm_rewind_code
      putc_imm_code_def add.commute cong del: if_weak_cong)

lemma tm_inst_PUTC_reg:
  "op inst = PUTC \<Longrightarrow> src inst = REG sr \<Longrightarrow> tm_inst q inst g =
     (Inr (next_state g + 41), adv 42 (putc_reg_code q sr (next_state g) (q_reject g)) g)"
  by (simp add: gm_simps tm_inst_def bnd_Inr [OF tm_write_code] bnd_Inr [OF tm_ffwd_code]
      bnd_Inr [OF tm_rewind_code] bnd_Inr [OF tm_find_register_code] bnd_Inr [OF tm_copy_code]
      tm_rewind_code putc_reg_code_def add.commute cong del: if_weak_cong)

section \<open>Source states of the multi-state emitters\<close>

lemma srcs_write_bits_loop:
  "srcs (write_bits_loop_code i q x n) \<subseteq> insert q {n ..< n + 2 * int i - 1}"
proof (induction i arbitrary: q n)
  case 0
  show ?case by simp
next
  case (Suc i)
  show ?case using Suc [of "n + 1" "n + 2"] by auto
qed

lemma full_write_bits_loop [simp]: "full (write_bits_loop_code i q x n)"
  by (induction i arbitrary: q n) simp_all

lemma srcs_write_bits: "srcs (write_bits_code q x r n) \<subseteq> insert q {n ..< n + 15}"
  using srcs_write_bits_loop [of 7 q x n] by (auto simp add: write_bits_code_def)

lemma full_write_bits [simp]: "full (write_bits_code q x r n)"
  by (simp add: write_bits_code_def)

lemma full_find_register_loop [simp]: "full (find_register_loop_code i qs reg rej q n)"
  by (induction i arbitrary: q n) simp_all

lemma srcs_find_register: "srcs (find_register_code q reg r n rej) \<subseteq> insert q {n ..< n + 19}"
  using srcs_find_register_loop [of 8 q reg rej "n + 1" "n + 2"]
  by (auto simp add: find_register_code_def)

lemma full_find_register [simp]: "full (find_register_code q reg r n rej)"
  by (simp add: find_register_code_def)

lemma srcs_copy:
  "srcs (copy_helper_code q d bb False r n rej) \<subseteq> insert q {n ..< n + 12 + 2 * cp_off bb}"
  by (cases bb) (auto simp add: copy_flat cp_off_def)

lemma full_copy [simp]: "full (copy_helper_code q d bb False r n rej)"
  by (cases bb) (simp_all add: copy_flat)

lemma sub_table_mid: "full X \<Longrightarrow> srcs A \<inter> srcs X = {} \<Longrightarrow> sub_table X (A @ X @ B)"
  by (intro sub_table_skip sub_table_here)

lemma fr_table_sub:
  assumes "fr_table N q reg r n rej" and "sub_table N T"
  shows "fr_table T q reg r n rej"
  using assms(1) unfolding fr_table_def by (auto intro: has_sub [OF _ assms(2)])

section \<open>Moving to the sentinels\<close>

lemma ffwd_run:
  assumes "has T q (\<lambda>s. if s = END then (s, 0, r) else (s, 1, q))"
    and "h \<le> e" and "tape e = END" and "\<forall>i. h \<le> i \<and> i < e \<longrightarrow> tape i \<noteq> END"
  shows "runs T (q, tape, h) (r, tape, e)"
proof -
  have "findf 1 END r r q = (\<lambda>s. if s = END then (s, 0, r) else (s, 1, q))"
    by (auto simp add: findf_def)
  with assms(1) have "has T q (findf 1 END r r q)" by simp
  then show ?thesis using assms(2-4) by (intro find_right [where a = END]) simp_all
qed

lemma rewind_run:
  assumes "has T q (\<lambda>s. if s = START then (s, 0, r) else (s, - 1, q))"
    and "x \<le> h" and "tape x = START" and "\<forall>i. x < i \<and> i \<le> h \<longrightarrow> tape i \<noteq> START"
  shows "runs T (q, tape, h) (r, tape, x)"
proof -
  have "findf (- 1) START r r q = (\<lambda>s. if s = START then (s, 0, r) else (s, - 1, q))"
    by (auto simp add: findf_def)
  with assms(1) have "has T q (findf (- 1) START r r q)" by simp
  then show ?thesis using assms(2-4) by (intro find_left [where a = START]) simp_all
qed

section \<open>Writing a word\<close>

lemma write_bits_loop_run:
  assumes "q < n"
  shows "\<exists>tape'. runs (write_bits_loop_code i q x n) (q, tape, h)
       (if i = 0 then q else n + 2 * int i - 1, tape', h + 2 * int i) \<and>
     (\<forall>k < i. tape' (h + 1 + 2 * int k) = bsym (bit x (i - k))) \<and>
     (\<forall>c. (\<forall>k < i. c \<noteq> h + 1 + 2 * int k) \<longrightarrow> tape' c = tape c)"
  using assms
proof (induction i arbitrary: q n tape h)
  case 0
  show ?case by (rule exI [of _ tape]) simp
next
  case (Suc i)
  let ?L = "write_bits_loop_code (Suc i) q x n"
  let ?L' = "write_bits_loop_code i (n + 1) x (n + 2)"
  let ?t1 = "tape(h + 1 := bsym (bit x (Suc i)))"
  have "has ?L q (\<lambda>s. (s, 1, n))" by (simp add: has_block_here)
  then have 1: "runs ?L (q, tape, h) (n, tape, h + 1)"
    by (rule run_keep) (simp_all add: dir_ok_def)
  have "has ?L n (\<lambda>s. (bsym (bit x (Suc i)), 1, n + 1))"
    using Suc.prems by (simp add: has_block_skip has_block_here)
  then have "runs ?L (n, tape, h + 1) (n + 1, ?t1, h + 1 + 1)"
    by (rule run_write) (simp_all add: dir_ok_def)
  then have 2: "runs ?L (n, tape, h + 1) (n + 1, ?t1, h + 2)" by (simp add: add.commute)
  have "n + 1 < n + 2" by simp
  from Suc.IH [OF this, of ?t1 "h + 2"] obtain tape'
    where r: "runs ?L' (n + 1, ?t1, h + 2)
        (if i = 0 then n + 1 else n + 2 + 2 * int i - 1, tape', h + 2 + 2 * int i)"
      and b: "\<forall>k < i. tape' (h + 2 + 1 + 2 * int k) = bsym (bit x (i - k))"
      and f: "\<forall>c. (\<forall>k < i. c \<noteq> h + 2 + 1 + 2 * int k) \<longrightarrow> tape' c = ?t1 c"
    by blast
  have "srcs (block q (\<lambda>s. (s, 1, n)) @ block n (\<lambda>s. (bsym (bit x (Suc i)), 1, n + 1))) \<inter>
      srcs ?L' = {}"
    using srcs_write_bits_loop [of i "n + 1" x "n + 2"] Suc.prems by auto
  then have "sub_table ?L' ((block q (\<lambda>s. (s, 1, n)) @
      block n (\<lambda>s. (bsym (bit x (Suc i)), 1, n + 1))) @ ?L')"
    by (rule sub_table_last)
  then have "sub_table ?L' ?L" by simp
  from runs_sub [OF this r]
  have 3: "runs ?L (n + 1, ?t1, h + 2)
      (n + 2 * int (Suc i) - 1, tape', h + 2 * int (Suc i))"
    by (cases "i = 0") (simp_all add: algebra_simps)
  have 4: "\<forall>k < Suc i. tape' (h + 1 + 2 * int k) = bsym (bit x (Suc i - k))"
  proof (intro allI impI)
    fix k assume k: "k < Suc i"
    show "tape' (h + 1 + 2 * int k) = bsym (bit x (Suc i - k))"
    proof (cases k)
      case 0
      have "tape' (h + 1) = ?t1 (h + 1)"
      proof (rule f [rule_format])
        fix j :: nat show "h + 1 \<noteq> h + 2 + 1 + 2 * int j" by simp
      qed
      with 0 show ?thesis by simp
    next
      case (Suc k')
      with k b [rule_format, of k'] show ?thesis by (simp add: algebra_simps)
    qed
  qed
  have 5: "\<forall>c. (\<forall>k < Suc i. c \<noteq> h + 1 + 2 * int k) \<longrightarrow> tape' c = tape c"
  proof (intro allI impI)
    fix c assume c: "\<forall>k < Suc i. c \<noteq> h + 1 + 2 * int k"
    have "tape' c = ?t1 c"
    proof (rule f [rule_format])
      fix k assume "k < i"
      with c [rule_format, of "Suc k"] show "c \<noteq> h + 2 + 1 + 2 * int k"
        by (simp add: algebra_simps)
    qed
    moreover from c [rule_format, of 0] have "c \<noteq> h + 1" by simp
    ultimately show "tape' c = tape c" by simp
  qed
  from 1 2 3 have "runs ?L (q, tape, h) (n + 2 * int (Suc i) - 1, tape', h + 2 * int (Suc i))"
    by (blast intro: runs_trans)
  with 4 5 show ?case by auto
qed

lemma write_bits_run:
  assumes "q < n"
  shows "\<exists>tape'. runs (write_bits_code q x r n) (q, tape, h) (r, tape', h + 16) \<and>
     (\<forall>k < 8. tape' (h + 1 + 2 * int k) = bsym (bit x (7 - k))) \<and>
     (\<forall>c. (\<forall>k < 8. c \<noteq> h + 1 + 2 * int k) \<longrightarrow> tape' c = tape c)"
proof -
  let ?L = "write_bits_loop_code 7 q x n"
  let ?W = "write_bits_code q x r n"
  from write_bits_loop_run [OF assms, of 7 x tape h]
  have "\<exists>t1. runs ?L (q, tape, h) (n + 13, t1, h + 14) \<and>
      (\<forall>k < 7. t1 (h + 1 + 2 * int k) = bsym (bit x (7 - k))) \<and>
      (\<forall>c. (\<forall>k < 7. c \<noteq> h + 1 + 2 * int k) \<longrightarrow> t1 c = tape c)"
    by (simp add: add.commute)
  then obtain t1
    where r: "runs ?L (q, tape, h) (n + 13, t1, h + 14)"
      and b: "\<forall>k < 7. t1 (h + 1 + 2 * int k) = bsym (bit x (7 - k))"
      and f: "\<forall>c. (\<forall>k < 7. c \<noteq> h + 1 + 2 * int k) \<longrightarrow> t1 c = tape c"
    by blast
  have W: "?W = ?L @ block (n + 13) (\<lambda>s. (s, 1, n + 14)) @
      block (n + 14) (\<lambda>s. (bsym (bit x 0), 1, r))"
    by (simp add: write_bits_code_def)
  have "sub_table ?L ?W" unfolding W by (rule sub_table_here) simp
  from runs_sub [OF this r] have 1: "runs ?W (q, tape, h) (n + 13, t1, h + 14)" .
  have s13: "n + 13 \<notin> srcs ?L" "n + 14 \<notin> srcs ?L"
    using srcs_write_bits_loop [of 7 q x n] assms by auto
  have "has ?W (n + 13) (\<lambda>s. (s, 1, n + 14))"
    unfolding W using s13 by (simp add: has_append_right has_block_here)
  then have "runs ?W (n + 13, t1, h + 14) (n + 14, t1, h + 14 + 1)"
    by (rule run_keep) (simp_all add: dir_ok_def)
  then have 2: "runs ?W (n + 13, t1, h + 14) (n + 14, t1, h + 15)" by (simp add: add.commute)
  have "has ?W (n + 14) (\<lambda>s. (bsym (bit x 0), 1, r))"
    unfolding W using s13 by (simp add: has_append_right has_block_skip)
  then have "runs ?W (n + 14, t1, h + 15) (r, t1(h + 15 := bsym (bit x 0)), h + 15 + 1)"
    by (rule run_write) (simp_all add: dir_ok_def)
  then have 3: "runs ?W (n + 14, t1, h + 15) (r, t1(h + 15 := bsym (bit x 0)), h + 16)"
    by (simp add: add.commute)
  let ?t2 = "t1(h + 15 := bsym (bit x 0))"
  have 4: "\<forall>k < 8. ?t2 (h + 1 + 2 * int k) = bsym (bit x (7 - k))"
  proof (intro allI impI)
    fix k :: nat assume k: "k < 8"
    show "?t2 (h + 1 + 2 * int k) = bsym (bit x (7 - k))"
    proof (cases "k = 7")
      case True
      then show ?thesis by simp
    next
      case False
      with k have "k < 7" by simp
      with b show ?thesis by simp
    qed
  qed
  have 5: "\<forall>c. (\<forall>k < 8. c \<noteq> h + 1 + 2 * int k) \<longrightarrow> ?t2 c = tape c"
  proof (intro allI impI)
    fix c assume c: "\<forall>k < 8. c \<noteq> h + 1 + 2 * int k"
    from c [rule_format, of 7] have "c \<noteq> h + 15" by simp
    moreover from c have "\<forall>k < 7. c \<noteq> h + 1 + 2 * int k" by simp
    ultimately show "?t2 c = tape c" using f by simp
  qed
  from 1 2 3 have "runs ?W (q, tape, h) (r, ?t2, h + 16)" by (blast intro: runs_trans)
  with 4 5 show ?thesis by blast
qed

section \<open>Register blocks before a match\<close>

lemma blocks_upto_skip:
  assumes "blocks_upto tape (m + 1) bs" and "reg_block tape m idx" and "m < p" and "p \<le> m + 19"
  shows "blocks_upto tape p bs"
proof -
  have nm: "no_marker tape p x" if "no_marker tape (m + 1) x" for x
    using that assms(3) by (simp add: no_marker_def)
  have le: "p \<le> x" if "tape x = REGISTER \<or> tape x = END" and "m + 1 \<le> x" for x
  proof (rule ccontr)
    assume "\<not> p \<le> x"
    with assms(4) that(2) have "m < x \<and> x \<le> m + 18" by simp
    with assms(2) that(1) show False by (simp add: reg_block_def)
  qed
  show ?thesis
    using assms(1) by (cases bs) (auto simp add: nm le reg_block_def)
qed

lemma fr_found:
  assumes T: "fr_table T q reg r n rej"
  shows "blocks_upto tape h bs \<Longrightarrow> find (\<lambda>b. same8 (snd b) reg) bs = Some b \<Longrightarrow>
     runs T (q, tape, h) (r, tape, fst b + 19)"
proof (induction bs arbitrary: h)
  case Nil
  then show ?case by simp
next
  case (Cons c bs)
  from Cons.prems(1) have "h \<le> fst c" "no_marker tape h (fst c)" "tape (fst c) = REGISTER"
    by (simp_all add: reg_block_def)
  then have 1: "runs T (q, tape, h) (n, tape, fst c)"
    by (intro fr_find(1) [OF T])
  from Cons.prems(1) have rb: "reg_block tape (fst c) (snd c)" by simp
  show ?case
  proof (cases "same8 (snd c) reg")
    case True
    with Cons.prems(2) have "b = c" by simp
    with fr_match [OF T rb True] 1 show ?thesis by (auto intro: runs_trans)
  next
    case False
    from fr_mismatch [OF T rb False] obtain p
      where p: "fst c < p" "p \<le> fst c + 19" "runs T (n, tape, fst c) (q, tape, p)" by blast
    from Cons.prems(1) have "blocks_upto tape (fst c + 1) bs" by simp
    then have "blocks_upto tape p bs" using rb p(1,2) by (rule blocks_upto_skip)
    moreover from Cons.prems(2) False have "find (\<lambda>b. same8 (snd b) reg) bs = Some b" by simp
    ultimately have "runs T (q, tape, p) (r, tape, fst b + 19)" by (rule Cons.IH)
    with 1 p(3) show ?thesis by (blast intro: runs_trans)
  qed
qed

lemma blocks_upto_cells:
  "cells_at tape off (concat (map reg_cells regs)) \<Longrightarrow> h \<le> off \<Longrightarrow> no_marker tape h off \<Longrightarrow>
     blocks_upto tape h (reg_blocks off regs)"
proof (induction regs arbitrary: off h)
  case Nil
  show ?case by simp
next
  case (Cons b regs)
  from Cons.prems(1) have b: "cells_at tape off (reg_cells b)"
    and c: "cells_at tape (off + 36) (concat (map reg_cells regs))"
    by (simp_all add: cells_at_append)
  note rb = reg_cells_block [OF b]
  from rb(3) have "no_marker tape off (off + 1)" by (intro no_marker_single) simp_all
  with Cons.prems(3) have 1: "no_marker tape h (off + 1)" by (rule no_marker_append)
  have 2: "blocks_upto tape (off + 2) (reg_blocks (off + 36) regs)"
    using c _ rb(2) by (rule Cons.IH) simp
  from 1 2 rb(1) Cons.prems(2) show ?case by (simp add: algebra_simps)
qed

lemma first_reg_less: "first_reg reg regs = Some j \<Longrightarrow> j < length regs"
  by (induction regs arbitrary: j) (auto split: if_splits)

section \<open>Cells of a tape given as a list\<close>

lemma cells_at_nth:
  "cells_at tape off (concat (map reg_cells regs)) \<Longrightarrow> j < length regs \<Longrightarrow>
     cells_at tape (off + 36 * int j) (reg_cells (regs ! j))"
proof (induction regs arbitrary: off j)
  case Nil
  then show ?case by simp
next
  case (Cons b regs)
  from Cons.prems(1) have b: "cells_at tape off (reg_cells b)"
    and c: "cells_at tape (off + 36) (concat (map reg_cells regs))"
    by (simp_all add: cells_at_append)
  show ?case
  proof (cases j)
    case 0
    with b show ?thesis by simp
  next
    case (Suc j')
    with Cons.prems(2) Cons.IH [OF c, of j'] show ?thesis by (simp add: algebra_simps)
  qed
qed

lemma spread_bits_cells:
  "cells_at tape off (spread_bits w i) \<longleftrightarrow>
     (\<forall>k < i. tape (off + 2 * int k) = BLANK \<and>
        tape (off + 1 + 2 * int k) = bsym (bit w (i - 1 - k)))"
proof (induction i arbitrary: off)
  case 0
  show ?case by simp
next
  case (Suc i)
  show ?case
  proof
    assume a: "cells_at tape off (spread_bits w (Suc i))"
    show "\<forall>k < Suc i. tape (off + 2 * int k) = BLANK \<and>
        tape (off + 1 + 2 * int k) = bsym (bit w (Suc i - 1 - k))"
    proof (intro allI impI)
      fix k assume k: "k < Suc i"
      show "tape (off + 2 * int k) = BLANK \<and>
          tape (off + 1 + 2 * int k) = bsym (bit w (Suc i - 1 - k))"
      proof (cases k)
        case 0
        with a show ?thesis by simp
      next
        case (Suc k')
        from a have "cells_at tape (off + 2) (spread_bits w i)" by (simp add: add.commute)
        with Suc.IH [of "off + 2"] k Suc show ?thesis by (simp add: algebra_simps)
      qed
    qed
  next
    assume a: "\<forall>k < Suc i. tape (off + 2 * int k) = BLANK \<and>
        tape (off + 1 + 2 * int k) = bsym (bit w (Suc i - 1 - k))"
    have "cells_at tape (off + 2) (spread_bits w i)"
      unfolding Suc.IH
    proof (intro allI impI)
      fix k assume "k < i"
      with a [rule_format, of "Suc k"]
      show "tape (off + 2 + 2 * int k) = BLANK \<and>
          tape (off + 2 + 1 + 2 * int k) = bsym (bit w (i - 1 - k))"
        by (simp add: algebra_simps)
    qed
    with a [rule_format, of 0] show "cells_at tape off (spread_bits w (Suc i))"
      by (simp add: add.commute)
  qed
qed

lemma tape_of_outside: "i < 0 \<or> int (length cs) \<le> i \<Longrightarrow> tape_of cs i = BLANK"
  by (auto simp add: tape_of_def)

lemma tape_of_inside: "0 \<le> i \<Longrightarrow> i < int (length cs) \<Longrightarrow> tape_of cs i = cs ! nat i"
  by (simp add: tape_of_def)

lemma tape_of_set: "tape_of cs i \<in> insert BLANK (set cs)"
proof (cases "0 \<le> i \<and> i < int (length cs)")
  case True
  then have "nat i < length cs" by arith
  then have "cs ! nat i \<in> set cs" by (rule nth_mem)
  with True show ?thesis by (simp add: tape_of_def)
next
  case False
  then show ?thesis by (auto simp add: tape_of_def)
qed

text \<open>A tape that agrees with \<open>pre @ [END]\<close> before the end sentinel and holds the cells
  \<open>new\<close> from there on.\<close>

lemma tape_of_extend:
  assumes "\<forall>i. i < int (length pre) \<longrightarrow> tape' i = tape_of (pre @ [c]) i"
    and "cells_at tape' (int (length pre)) new"
    and "\<forall>i. int (length pre) + int (length new) \<le> i \<longrightarrow> tape' i = BLANK"
  shows "tape' = tape_of (pre @ new)"
proof
  fix i
  consider "i < 0" | "0 \<le> i" "i < int (length pre)"
    | "int (length pre) \<le> i" "i < int (length pre) + int (length new)"
    | "int (length pre) + int (length new) \<le> i"
    by linarith
  then show "tape' i = tape_of (pre @ new) i"
  proof cases
    case 1
    with assms(1) show ?thesis by (simp add: tape_of_def)
  next
    case 2
    then have n: "nat i < length pre" by arith
    from 2 assms(1) have "tape' i = tape_of (pre @ [c]) i" by simp
    also from 2 n have "\<dots> = pre ! nat i" by (simp add: tape_of_def nth_append)
    also from 2 n have "\<dots> = tape_of (pre @ new) i" by (simp add: tape_of_def nth_append)
    finally show ?thesis .
  next
    case 3
    then have n: "nat (i - int (length pre)) < length new" by arith
    from 3 have e: "int (length pre) + int (nat (i - int (length pre))) = i" by simp
    from assms(2) [unfolded cells_at_def, rule_format, OF n]
    have "tape' i = new ! nat (i - int (length pre))" unfolding e .
    moreover from 3 have "nat i - length pre = nat (i - int (length pre))" by arith
    moreover from 3 have "\<not> nat i < length pre" by arith
    ultimately show ?thesis using 3 by (simp add: tape_of_def nth_append)
  next
    case 4
    with assms(3) show ?thesis by (simp add: tape_of_def)
  qed
qed

section \<open>Well-formed tapes\<close>

lemma length_regs [simp]: "length (concat (map reg_cells regs)) = 36 * length regs"
  by (induction regs) simp_all

lemma set_reg_cells: "set (reg_cells b) \<subseteq> {BLANK, REGISTER, VALUE, ZERO, ONE}"
  using set_spread [of "fst b"] set_spread [of "snd b"] by (auto simp add: reg_cells_def)

lemma set_regs: "set (concat (map reg_cells regs)) \<subseteq> {BLANK, REGISTER, VALUE, ZERO, ONE}"
  using set_reg_cells by auto

lemma wf_tape_facts:
  fixes regs rest
  defines "e \<equiv> wf_end regs rest"
  defines "tape \<equiv> tape_of (wf_tape regs rest)"
  assumes pl: "plain rest"
  shows "tape 0 = START" and "tape e = END"
    and "\<And>i. 0 < i \<Longrightarrow> i < e \<Longrightarrow>
       tape i \<noteq> START \<and> tape i \<noteq> END \<and> tape i \<noteq> SRC \<and> tape i \<noteq> DST"
    and "\<And>i. i < 0 \<or> e < i \<Longrightarrow> tape i = BLANK"
    and "cells_at tape 1 (concat (map reg_cells regs))"
    and "cells_at tape (1 + 36 * int (length regs)) rest"
proof -
  let ?R = "concat (map reg_cells regs)"
  have c: "cells_at tape 0 (wf_tape regs rest)" unfolding tape_def by (rule cells_at_tape_of)
  then show "tape 0 = START" by (simp add: wf_tape_def)
  from c have m: "cells_at tape 1 (?R @ rest)" and "tape (1 + int (length (?R @ rest))) = END"
    by (simp_all add: wf_tape_def cells_at_append algebra_simps)
  then show "tape e = END" by (simp add: e_def wf_end_def algebra_simps)
  from m show "cells_at tape 1 ?R" "cells_at tape (1 + 36 * int (length regs)) rest"
    by (simp_all add: cells_at_append)
  show "tape i \<noteq> START \<and> tape i \<noteq> END \<and> tape i \<noteq> SRC \<and> tape i \<noteq> DST"
    if "0 < i" "i < e" for i
  proof -
    from that have "tape i \<in> set (?R @ rest)"
      by (intro cells_at_set [OF m]) (simp_all add: e_def wf_end_def)
    with set_regs [of regs] pl show ?thesis by (auto simp add: plain_def)
  qed
  show "tape i = BLANK" if "i < 0 \<or> e < i" for i
    unfolding tape_def using that by (intro tape_of_outside) (auto simp add: wf_tape_def e_def wf_end_def)
qed

lemma srcs_putc_imm: "srcs (putc_imm_code q x n) \<subseteq> insert q {n ..< n + 20}"
  using srcs_write_bits [of "n + 1" x "n + 2" "n + 3"] by (auto simp add: putc_imm_code_def)

lemma srcs_prologue:
  "srcs (prologue_code m n) \<subseteq> insert 0 {n ..< n + 220 + 36 * int (length (module_data m))}"
  using chain_prologue [of "{}" n m] by (auto simp add: chain_def)

section \<open>PUTC with an immediate\<close>

lemma odd_even_cells: "(a::int) + 1 + 2 * int k \<noteq> a + 2 + 2 * int j"
  by presburger

lemma putc_imm_run:
  assumes q: "q < n" and pl: "plain rest" and w: "\<forall>k < 8. bit x k = bit w k"
  shows "runs (putc_imm_code q x n) (q, tape_of (wf_tape regs rest), 0)
     (n + 20, tape_of (wf_tape regs (rest @ out_cells w)), 0)"
proof -
  let ?T = "putc_imm_code q x n"
  let ?W = "write_bits_code (n + 1) x (n + 2) (n + 3)"
  let ?e = "wf_end regs rest"
  let ?t0 = "tape_of (wf_tape regs rest)"
  note f = wf_tape_facts [where regs = regs and rest = rest, OF pl]
  have e1: "1 \<le> ?e" by (simp add: wf_end_def)
  have sw: "srcs ?W \<subseteq> insert (n + 1) {n + 3 ..< n + 18}"
    using srcs_write_bits [of "n + 1" x "n + 2" "n + 3"] by auto
  then have nw: "n + 2 \<notin> srcs ?W" "n + 18 \<notin> srcs ?W" "n + 19 \<notin> srcs ?W" by auto
  have h1: "has ?T q (\<lambda>s. if s = END then (s, 0, n) else (s, 1, q))"
    by (simp add: putc_imm_code_def has_block_here)
  have h2: "has ?T n (\<lambda>s. (OUTPUT, 1, n + 1))"
    using q by (simp add: putc_imm_code_def has_block_here has_block_skip)
  have h3: "has ?T (n + 2) (\<lambda>s. (BLANK, 1, n + 18))"
    using q nw by (simp add: putc_imm_code_def has_block_here has_block_skip has_append_right)
  have h4: "has ?T (n + 18) (\<lambda>s. (END, 0, n + 19))"
    using q nw by (simp add: putc_imm_code_def has_block_here has_block_skip has_append_right)
  have h5: "has ?T (n + 19) (\<lambda>s. if s = START then (s, 0, n + 20) else (s, - 1, n + 19))"
    using q nw by (simp add: putc_imm_code_def has_block_skip has_append_right)
  have "sub_table ?W ((block q (\<lambda>s. if s = END then (s, 0, n) else (s, 1, q)) @
      block n (\<lambda>s. (OUTPUT, 1, n + 1))) @ ?W @
      block (n + 2) (\<lambda>s. (BLANK, 1, n + 18)) @ block (n + 18) (\<lambda>s. (END, 0, n + 19)) @
      block (n + 19) (\<lambda>s. if s = START then (s, 0, n + 20) else (s, -1, n + 19)))"
    using sw q by (intro sub_table_mid) auto
  then have sub: "sub_table ?W ?T" by (simp add: putc_imm_code_def)
  have 0: "runs ?T (q, ?t0, 0) (n, ?t0, ?e)"
  proof (rule ffwd_run [OF h1])
    show "0 \<le> ?e" using e1 by simp
    show "?t0 ?e = END" by (rule f(2))
    show "\<forall>i. 0 \<le> i \<and> i < ?e \<longrightarrow> ?t0 i \<noteq> END"
    proof (intro allI impI)
      fix i assume i: "0 \<le> i \<and> i < ?e"
      show "?t0 i \<noteq> END"
      proof (cases "i = 0")
        case True
        with f(1) show ?thesis by simp
      next
        case False
        with i f(3) [of i] show ?thesis by simp
      qed
    qed
  qed
  let ?t1 = "?t0(?e := OUTPUT)"
  have 1: "runs ?T (n, ?t0, ?e) (n + 1, ?t1, ?e + 1)"
    by (rule run_write [OF h2]) (simp_all add: dir_ok_def)
  have "n + 1 < n + 3" by simp
  from write_bits_run [OF this, of x "n + 2" ?t1 "?e + 1"] obtain t2
    where r2: "runs ?W (n + 1, ?t1, ?e + 1) (n + 2, t2, ?e + 1 + 16)"
      and b2: "\<forall>k < 8. t2 (?e + 1 + 1 + 2 * int k) = bsym (bit x (7 - k))"
      and f2: "\<forall>c. (\<forall>k < 8. c \<noteq> ?e + 1 + 1 + 2 * int k) \<longrightarrow> t2 c = ?t1 c"
    by blast
  from runs_sub [OF sub r2] have 2: "runs ?T (n + 1, ?t1, ?e + 1) (n + 2, t2, ?e + 17)"
    by (simp add: algebra_simps)
  let ?t3 = "t2(?e + 17 := BLANK)"
  let ?t4 = "?t3(?e + 18 := END)"
  have "runs ?T (n + 2, t2, ?e + 17) (n + 18, ?t3, ?e + 17 + 1)"
    by (rule run_write [OF h3]) (simp_all add: dir_ok_def)
  then have 3: "runs ?T (n + 2, t2, ?e + 17) (n + 18, ?t3, ?e + 18)"
    by (simp add: algebra_simps)
  have "runs ?T (n + 18, ?t3, ?e + 18) (n + 19, ?t4, ?e + 18 + 0)"
    by (rule run_write [OF h4]) (simp_all add: dir_ok_def)
  then have 4: "runs ?T (n + 18, ?t3, ?e + 18) (n + 19, ?t4, ?e + 18)"
    by (simp add: algebra_simps)
  have A: "?t4 i = ?t0 i" if "i < ?e \<or> ?e + 18 < i" for i
  proof -
    have "\<forall>k < 8. i \<noteq> ?e + 1 + 1 + 2 * int k" using that by auto
    with f2 have "t2 i = ?t1 i" by simp
    with that show ?thesis by auto
  qed
  have B: "?t4 (?e + 1 + 1 + 2 * int k) = bsym (bit w (7 - k))" if "k < 8" for k
    using that b2 w by simp
  have C: "?t4 (?e + 1 + 2 * int k) = BLANK" if "k < 8" for k
  proof -
    have "\<forall>j < 8. ?e + 1 + 2 * int k \<noteq> ?e + 1 + 1 + 2 * int j"
      using odd_even_cells [of ?e k] by simp
    with f2 have "t2 (?e + 1 + 2 * int k) = ?t1 (?e + 1 + 2 * int k)" by simp
    moreover have "?t0 (?e + 1 + 2 * int k) = BLANK" by (rule f(4)) simp
    ultimately show ?thesis using that by simp
  qed
  have D: "?t4 ?e = OUTPUT"
  proof -
    have "\<forall>k < 8. ?e \<noteq> ?e + 1 + 1 + 2 * int k" by simp
    with f2 have "t2 ?e = ?t1 ?e" by simp
    then show ?thesis by simp
  qed
  have S: "?t4 i \<noteq> START" if "0 < i" for i
  proof -
    consider "i < ?e" | "i = ?e" | "?e < i" "i \<le> ?e + 18" | "?e + 18 < i" by linarith
    then show ?thesis
    proof cases
      case 1
      with A [of i] f(3) [of i] that show ?thesis by simp
    next
      case 2
      with D show ?thesis by simp
    next
      case 3
      show ?thesis
      proof (cases "\<exists>k < 8. i = ?e + 1 + 1 + 2 * int k")
        case True
        then obtain k where "k < 8" "i = ?e + 1 + 1 + 2 * int k" by blast
        with b2 have "?t4 i = bsym (bit x (7 - k))" by simp
        then show ?thesis by (simp add: bsym_def)
      next
        case False
        with f2 have "t2 i = ?t1 i" by simp
        moreover from 3 have "?t0 i = BLANK" by (intro f(4)) simp
        ultimately show ?thesis using 3 by simp
      qed
    next
      case 4
      with A [of i] f(4) [of i] show ?thesis by simp
    qed
  qed
  have 5: "runs ?T (n + 19, ?t4, ?e + 18) (n + 20, ?t4, 0)"
  proof (rule rewind_run [OF h5])
    show "0 \<le> ?e + 18" using e1 by simp
    from A [of 0] f(1) e1 show "?t4 0 = START" by simp
    from S show "\<forall>i. 0 < i \<and> i \<le> ?e + 18 \<longrightarrow> ?t4 i \<noteq> START" by simp
  qed
  let ?pre = "START # concat (map reg_cells regs) @ rest"
  have lp: "int (length ?pre) = ?e" by (simp add: wf_end_def)
  have "?t4 = tape_of (?pre @ out_cells w @ [END])"
  proof (rule tape_of_extend [where c = END])
    show "\<forall>i. i < int (length ?pre) \<longrightarrow> ?t4 i = tape_of (?pre @ [END]) i"
      unfolding lp
    proof (intro allI impI)
      fix i assume "i < ?e"
      then have "?t4 i = ?t0 i" by (intro A) simp
      then show "?t4 i = tape_of (?pre @ [END]) i" by (simp only: wf_tape_def append_Cons append_assoc)
    qed
    have "cells_at ?t4 (?e + 1) (spread_bits w 8)"
      unfolding spread_bits_cells using B C by simp
    with D show "cells_at ?t4 (int (length ?pre)) (out_cells w @ [END])"
      unfolding lp by (simp add: out_cells_def spread_def cells_at_append)
    show "\<forall>i. int (length ?pre) + int (length (out_cells w @ [END])) \<le> i \<longrightarrow> ?t4 i = BLANK"
      unfolding lp
    proof (intro allI impI)
      fix i assume "?e + int (length (out_cells w @ [END])) \<le> i"
      then have i: "?e + 18 < i" by (simp add: out_cells_def)
      with A [of i] f(4) [of i] show "?t4 i = BLANK" by simp
    qed
  qed
  then have F: "?t4 = tape_of (wf_tape regs (rest @ out_cells w))" by (simp add: wf_tape_def)
  from 0 1 2 3 4 5 have "runs ?T (q, ?t0, 0) (n + 20, ?t4, 0)" by (blast intro: runs_trans)
  then show ?thesis unfolding F .
qed

section \<open>PUTC with a register\<close>

text \<open>The value word of the register block at position \<open>j\<close> of a well-formed tape.\<close>

lemma wf_value_cells:
  assumes pl: "plain rest" and j: "j < length regs" and k: "k < 8"
  shows "tape_of (wf_tape regs rest) (21 + 36 * int j + 2 * int k) = BLANK"
    and "tape_of (wf_tape regs rest) (21 + 36 * int j + 1 + 2 * int k) =
      bsym (bit (snd (regs ! j)) (7 - k))"
proof -
  note f = wf_tape_facts [where regs = regs and rest = rest, OF pl]
  from cells_at_nth [OF f(5) j]
  have "cells_at (tape_of (wf_tape regs rest)) (1 + 36 * int j + 20) (spread_bits (snd (regs ! j)) 8)"
    by (simp add: reg_cells_def cells_at_append spread_def)
  then have "cells_at (tape_of (wf_tape regs rest)) (21 + 36 * int j) (spread_bits (snd (regs ! j)) 8)"
    by (simp add: algebra_simps)
  from this [unfolded spread_bits_cells, rule_format, OF k]
  show "tape_of (wf_tape regs rest) (21 + 36 * int j + 2 * int k) = BLANK"
    and "tape_of (wf_tape regs rest) (21 + 36 * int j + 1 + 2 * int k) =
      bsym (bit (snd (regs ! j)) (7 - k))"
    by simp_all
qed

lemma putc_reg_tables:
  fixes q n rej :: int and sr :: nat
  defines "T \<equiv> putc_reg_code q sr n rej"
  assumes q: "q < n"
  shows "has T q (\<lambda>s. if s = END then (s, 0, n) else (s, 1, q))"
    and "has T n (\<lambda>s. (OUTPUT, 1, n + 1))"
    and "has T (n + 1) (\<lambda>s. (DST, - 1, n + 2))"
    and "has T (n + 2) (\<lambda>s. if s = START then (s, 0, n + 3) else (s, - 1, n + 2))"
    and "fr_table T (n + 3) sr (n + 4) (n + 5) rej"
    and "sub_table (copy_helper_code (n + 4) 1 True False (n + 24) (n + 25) rej) T"
    and "has T (n + 24) (\<lambda>s. (BLANK, 1, n + 39))"
    and "has T (n + 39) (\<lambda>s. (END, 0, n + 40))"
    and "has T (n + 40) (\<lambda>s. if s = START then (s, 0, n + 41) else (s, - 1, n + 40))"
proof -
  let ?A = "block q (\<lambda>s. if s = END then (s, 0, n) else (s, 1, q)) @
     block n (\<lambda>s. (OUTPUT, 1, n + 1)) @
     block (n + 1) (\<lambda>s. (DST, -1, n + 2)) @
     block (n + 2) (\<lambda>s. if s = START then (s, 0, n + 3) else (s, -1, n + 2))"
  let ?F = "find_register_code (n + 3) sr (n + 4) (n + 5) rej"
  let ?C = "copy_helper_code (n + 4) 1 True False (n + 24) (n + 25) rej"
  let ?B = "block (n + 24) (\<lambda>s. (BLANK, 1, n + 39)) @
     block (n + 39) (\<lambda>s. (END, 0, n + 40)) @
     block (n + 40) (\<lambda>s. if s = START then (s, 0, n + 41) else (s, -1, n + 40))"
  have sF: "srcs ?F \<subseteq> insert (n + 3) {n + 5 ..< n + 24}"
    using srcs_find_register [of "n + 3" sr "n + 4" "n + 5" rej] by auto
  have sC: "srcs ?C \<subseteq> insert (n + 4) {n + 25 ..< n + 39}"
    using srcs_copy [of "n + 4" 1 True "n + 24" "n + 25" rej] by (auto simp add: cp_off_def)
  have sA: "srcs ?A = {q, n, n + 1, n + 2}" by (auto simp add: srcs_simps)
  have mF: "x = n + 3 \<or> n + 5 \<le> x \<and> x < n + 24" if "x \<in> srcs ?F" for x
    using sF that by auto
  have mC: "x = n + 4 \<or> n + 25 \<le> x \<and> x < n + 39" if "x \<in> srcs ?C" for x
    using sC that by auto
  have T: "T = ?A @ ?F @ ?C @ ?B" by (simp add: T_def putc_reg_code_def)
  have T': "T = (?A @ ?F) @ ?C @ ?B" by (simp add: T_def putc_reg_code_def)
  show "has T q (\<lambda>s. if s = END then (s, 0, n) else (s, 1, q))"
    unfolding T by (simp add: has_block_here)
  from q show "has T n (\<lambda>s. (OUTPUT, 1, n + 1))"
    unfolding T by (simp add: has_block_here has_block_skip)
  from q show "has T (n + 1) (\<lambda>s. (DST, - 1, n + 2))"
    unfolding T by (simp add: has_block_here has_block_skip)
  from q show "has T (n + 2) (\<lambda>s. if s = START then (s, 0, n + 3) else (s, - 1, n + 2))"
    unfolding T by (simp add: has_block_here has_block_skip)
  have "sub_table ?F (?A @ ?F @ ?C @ ?B)"
    using sF q unfolding sA [symmetric] by (intro sub_table_mid) (auto simp add: sA)
  then have sF': "sub_table ?F T" unfolding T .
  have "fr_table ?F (n + 3) sr (n + 4) (n + 5) rej" by (rule fr_table_code) simp
  then show "fr_table T (n + 3) sr (n + 4) (n + 5) rej" using sF' by (rule fr_table_sub)
  have "srcs (?A @ ?F) \<inter> srcs ?C = {}"
    using q by (auto simp add: srcs_simps dest!: mF mC)
  then have "sub_table ?C ((?A @ ?F) @ ?C @ ?B)" by (intro sub_table_mid) simp_all
  then show "sub_table ?C T" unfolding T' .
  have n24: "n + 24 \<notin> srcs (?A @ ?F @ ?C)" "n + 39 \<notin> srcs (?A @ ?F @ ?C)"
    "n + 40 \<notin> srcs (?A @ ?F @ ?C)"
    using q by (auto simp add: srcs_simps dest!: mF mC)
  have T2: "T = (?A @ ?F @ ?C) @ ?B" by (simp add: T_def putc_reg_code_def)
  show "has T (n + 24) (\<lambda>s. (BLANK, 1, n + 39))"
    unfolding T2 by (rule has_append_right [THEN iffD2, OF n24(1)]) (simp add: has_block_here)
  show "has T (n + 39) (\<lambda>s. (END, 0, n + 40))"
    unfolding T2
    by (rule has_append_right [THEN iffD2, OF n24(2)]) (simp add: has_block_here has_block_skip)
  show "has T (n + 40) (\<lambda>s. if s = START then (s, 0, n + 41) else (s, - 1, n + 40))"
    unfolding T2
    by (rule has_append_right [THEN iffD2, OF n24(3)]) (simp add: has_block_here has_block_skip)
qed

text \<open>A tape that agrees with a well-formed tape outside the 19 cells from its end sentinel
  on, and holds an output cell with the byte \<open>w\<close> and the end sentinel there.\<close>

lemma appended_tape:
  fixes regs rest
  defines "e \<equiv> wf_end regs rest"
  assumes pl: "plain rest"
    and A: "\<And>i. i < e \<or> e + 18 < i \<Longrightarrow> t i = tape_of (wf_tape regs rest) i"
    and D: "t e = OUTPUT"
    and B: "\<And>k. k < 8 \<Longrightarrow> t (e + 1 + 2 * int k) = BLANK"
    and C: "\<And>k. k < 8 \<Longrightarrow> t (e + 1 + 1 + 2 * int k) = bsym (bit w (7 - k))"
    and E: "t (e + 17) = BLANK" and F: "t (e + 18) = END"
  shows "t = tape_of (wf_tape regs (rest @ out_cells w))"
    and "t 0 = START" and "\<forall>i. 0 < i \<and> i \<le> e + 18 \<longrightarrow> t i \<noteq> START"
proof -
  let ?t0 = "tape_of (wf_tape regs rest)"
  note f = wf_tape_facts [where regs = regs and rest = rest, OF pl, folded e_def]
  have e1: "1 \<le> e" by (simp add: e_def wf_end_def)
  from A [of 0] f(1) e1 show "t 0 = START" by simp
  have c: "cells_at t (e + 1) (spread_bits w 8)"
    unfolding spread_bits_cells using B C by simp
  show "\<forall>i. 0 < i \<and> i \<le> e + 18 \<longrightarrow> t i \<noteq> START"
  proof (intro allI impI)
    fix i assume i: "0 < i \<and> i \<le> e + 18"
    consider "i < e" | "i = e" | "e + 1 \<le> i" "i < e + 1 + 16" | "i = e + 17" | "i = e + 18"
      using i by linarith
    then show "t i \<noteq> START"
    proof cases
      case 1
      with A [of i] f(3) [of i] i show ?thesis by simp
    next
      case 2
      with D show ?thesis by simp
    next
      case 3
      then have "t i \<in> set (spread_bits w 8)" by (intro cells_at_set [OF c]) simp_all
      with set_spread_bits [of w 8] show ?thesis by auto
    next
      case 4
      with E show ?thesis by simp
    next
      case 5
      with F show ?thesis by simp
    qed
  qed
  let ?pre = "START # concat (map reg_cells regs) @ rest"
  have lp: "int (length ?pre) = e" by (simp add: e_def wf_end_def)
  have "t = tape_of (?pre @ out_cells w @ [END])"
  proof (rule tape_of_extend [where c = END])
    show "\<forall>i. i < int (length ?pre) \<longrightarrow> t i = tape_of (?pre @ [END]) i"
      unfolding lp
    proof (intro allI impI)
      fix i assume "i < e"
      then have "t i = ?t0 i" by (intro A) simp
      then show "t i = tape_of (?pre @ [END]) i"
        by (simp only: wf_tape_def append_Cons append_assoc)
    qed
    from c D E F show "cells_at t (int (length ?pre)) (out_cells w @ [END])"
      unfolding lp by (simp add: out_cells_def spread_def cells_at_append algebra_simps)
    show "\<forall>i. int (length ?pre) + int (length (out_cells w @ [END])) \<le> i \<longrightarrow> t i = BLANK"
      unfolding lp
    proof (intro allI impI)
      fix i assume "e + int (length (out_cells w @ [END])) \<le> i"
      then have i: "e + 18 < i" by (simp add: out_cells_def)
      with A [of i] f(4) [of i] show "t i = BLANK" by simp
    qed
  qed
  then show "t = tape_of (wf_tape regs (rest @ out_cells w))" by (simp add: wf_tape_def)
qed

lemma cells_at_cong:
  assumes "cells_at tape off cs"
    and "\<And>i. off \<le> i \<Longrightarrow> i < off + int (length cs) \<Longrightarrow> tape' i = tape i"
  shows "cells_at tape' off cs"
  using assms by (simp add: cells_at_def)

lemma putc_reg_run:
  assumes q: "q < n" and pl: "plain rest" and fr: "first_reg sr regs = Some j"
    and g16: "tape_of (wf_tape regs rest) (37 + 36 * int j) = BLANK"
    and g17: "tape_of (wf_tape regs rest) (38 + 36 * int j) \<noteq> ZERO"
      "tape_of (wf_tape regs rest) (38 + 36 * int j) \<noteq> ONE"
    and lt: "37 + 36 * int j < wf_end regs rest"
  shows "runs (putc_reg_code q sr n rej) (q, tape_of (wf_tape regs rest), 0)
     (n + 41, tape_of (wf_tape regs (rest @ out_cells (snd (regs ! j)))), 0)"
proof -
  let ?T = "putc_reg_code q sr n rej"
  let ?t0 = "tape_of (wf_tape regs rest)"
  let ?v = "snd (regs ! j)"
  define e where "e = wf_end regs rest"
  define p where "p = 21 + 36 * int j"
  note f = wf_tape_facts [where regs = regs and rest = rest, OF pl, folded e_def]
  note h = putc_reg_tables [OF q, where sr = sr and rej = rej]
  from fr have jl: "j < length regs" by (rule first_reg_less)
  have pe: "p + 16 < e" "0 < p" using lt by (simp_all add: p_def e_def)
  have ne: "?t0 i \<noteq> END" if "0 \<le> i" "i < e" for i
  proof (cases "i = 0")
    case True
    with f(1) show ?thesis by simp
  next
    case False
    with that f(3) [of i] show ?thesis by simp
  qed
  have 0: "runs ?T (q, ?t0, 0) (n, ?t0, e)"
    by (rule ffwd_run [OF h(1)]) (use pe f(2) ne in auto)
  let ?t1 = "?t0(e := OUTPUT)"
  let ?t2 = "?t1(e + 1 := DST)"
  have 1: "runs ?T (n, ?t0, e) (n + 1, ?t1, e + 1)"
    by (rule run_write [OF h(2)]) (simp_all add: dir_ok_def)
  have "runs ?T (n + 1, ?t1, e + 1) (n + 2, ?t2, e + 1 + - 1)"
    by (rule run_write [OF h(3)]) (simp_all add: dir_ok_def)
  then have 2: "runs ?T (n + 1, ?t1, e + 1) (n + 2, ?t2, e)" by simp
  have low: "?t2 i = ?t0 i" if "i < e" for i using that by simp
  have pl2: "?t2 i \<noteq> START \<and> ?t2 i \<noteq> END \<and> ?t2 i \<noteq> SRC \<and> ?t2 i \<noteq> DST"
    if "0 < i" "i \<le> e" for i
  proof (cases "i = e")
    case True
    then show ?thesis by simp
  next
    case False
    with that f(3) [of i] show ?thesis by simp
  qed
  have 3: "runs ?T (n + 2, ?t2, e) (n + 3, ?t2, 0)"
  proof (rule rewind_run [OF h(4)])
    show "0 \<le> e" using pe by simp
    show "?t2 0 = START" using pe f(1) by simp
    show "\<forall>i. 0 < i \<and> i \<le> e \<longrightarrow> ?t2 i \<noteq> START" using pl2 by blast
  qed
  have c2: "cells_at ?t2 1 (concat (map reg_cells regs))"
  proof (rule cells_at_cong [OF f(5)])
    fix i :: int assume "i < 1 + int (length (concat (map reg_cells regs)))"
    then have "i < e" by (simp add: e_def wf_end_def)
    then show "?t2 i = ?t0 i" by (rule low)
  qed
  have "?t2 0 = START" using pe f(1) by simp
  then have "no_marker ?t2 0 (0 + 1)" by (intro no_marker_single) simp_all
  then have "no_marker ?t2 0 1" by simp
  with blocks_upto_cells [OF c2, of 0]
  have bu: "blocks_upto ?t2 0 (reg_blocks 1 regs)" by simp
  have fb: "find (\<lambda>b. same8 (snd b) sr) (reg_blocks 1 regs) =
      Some (1 + 1 + 36 * int j, fst (regs ! j))"
    by (simp add: find_reg_blocks fr)
  from fr_found [OF h(5) bu fb]
  have 4: "runs ?T (n + 3, ?t2, 0) (n + 4, ?t2, p)" by (simp add: p_def)
  have "\<exists>t3. runs ?T (n + 4, ?t2, p) (n + 24, t3, e + 1 + 16) \<and>
     (\<forall>k < 8. t3 (e + 1 + 1 + 2 * int k) = bsym (bit ?v (7 - k))) \<and>
     (\<forall>k \<le> 8. t3 (e + 1 + 2 * int k) = BLANK) \<and>
     (\<forall>k < 8. t3 (p + 1 + 2 * int k) = bsym (bit ?v (7 - k))) \<and>
     (\<forall>k \<le> 8. t3 (p + 2 * int k) = BLANK) \<and>
     (\<forall>i. \<not> (e + 1 \<le> i \<and> i \<le> e + 1 + 16) \<and> (\<forall>k \<le> 8. i \<noteq> p + 2 * int k) \<longrightarrow>
        t3 i = ?t2 i)"
  proof (rule copy8_run [where f = "\<lambda>k. bit ?v (7 - k)", OF _ h(6)])
    show "n + 4 < n + 25" by simp
    show "(1::int) = 1 \<and> p + 17 < e + 1 \<or> (1::int) = - 1 \<and> e + 1 + 16 < p"
      using pe by simp
    show "?t2 (e + 1) = DST" by simp
    show "\<forall>k < 8. ?t2 (p + 1 + 2 * int k) = bsym (bit ?v (7 - k))"
    proof (intro allI impI)
      fix k :: nat assume k: "k < 8"
      with pe have "p + 1 + 2 * int k < e" by simp
      then have "?t2 (p + 1 + 2 * int k) = ?t0 (p + 1 + 2 * int k)" by (rule low)
      with wf_value_cells(2) [OF pl jl k]
      show "?t2 (p + 1 + 2 * int k) = bsym (bit ?v (7 - k))" by (simp add: p_def)
    qed
    have "?t2 (p + 17) \<noteq> ZERO \<and> ?t2 (p + 17) \<noteq> ONE"
    proof (cases "p + 17 = e")
      case True
      then show ?thesis by simp
    next
      case False
      with pe have "p + 17 < e" by simp
      then have "?t2 (p + 17) = ?t0 (p + 17)" by (rule low)
      with g17 show ?thesis by (simp add: p_def)
    qed
    then show "?t2 (p + 17) \<noteq> ZERO" "?t2 (p + 17) \<noteq> ONE" by simp_all
    show "(1::int) = 1 \<longrightarrow> (\<forall>i. p + 2 < i \<and> i < e + 1 \<longrightarrow>
        ?t2 i \<noteq> SRC \<and> ?t2 i \<noteq> DST \<and> ?t2 i \<noteq> START \<and> ?t2 i \<noteq> END)"
    proof (intro allI impI)
      fix i assume "p + 2 < i \<and> i < e + 1"
      with pe have "0 < i" "i \<le> e" by simp_all
      from pl2 [OF this]
      show "?t2 i \<noteq> SRC \<and> ?t2 i \<noteq> DST \<and> ?t2 i \<noteq> START \<and> ?t2 i \<noteq> END" by simp
    qed
    show "(1::int) = - 1 \<longrightarrow> (\<forall>i. e + 1 < i \<and> i < p \<longrightarrow> ?t2 i \<noteq> DST \<and> ?t2 i \<noteq> START) \<and>
        (\<forall>i. e + 1 + 2 < i \<and> i < p \<longrightarrow> ?t2 i \<noteq> SRC \<and> ?t2 i \<noteq> END) \<and>
        ?t2 (p + 17) \<noteq> DST \<and> ?t2 (p + 17) \<noteq> START"
      by simp
  qed
  then obtain t3 where r5: "runs ?T (n + 4, ?t2, p) (n + 24, t3, e + 1 + 16)"
    and b3: "\<And>k. k < 8 \<Longrightarrow> t3 (e + 1 + 1 + 2 * int k) = bsym (bit ?v (7 - k))"
    and bl3: "\<And>k. k \<le> 8 \<Longrightarrow> t3 (e + 1 + 2 * int k) = BLANK"
    and sb3: "\<And>k. k \<le> 8 \<Longrightarrow> t3 (p + 2 * int k) = BLANK"
    and fr3: "\<And>i. \<not> (e + 1 \<le> i \<and> i \<le> e + 1 + 16) \<Longrightarrow> (\<forall>k \<le> 8. i \<noteq> p + 2 * int k) \<Longrightarrow>
        t3 i = ?t2 i"
    by blast
  from r5 have 5: "runs ?T (n + 4, ?t2, p) (n + 24, t3, e + 17)" by (simp add: algebra_simps)
  let ?t4 = "t3(e + 17 := BLANK)"
  let ?t5 = "?t4(e + 18 := END)"
  have "runs ?T (n + 24, t3, e + 17) (n + 39, ?t4, e + 17 + 1)"
    by (rule run_write [OF h(7)]) (simp_all add: dir_ok_def)
  then have 6: "runs ?T (n + 24, t3, e + 17) (n + 39, ?t4, e + 18)" by (simp add: algebra_simps)
  have "runs ?T (n + 39, ?t4, e + 18) (n + 40, ?t5, e + 18 + 0)"
    by (rule run_write [OF h(8)]) (simp_all add: dir_ok_def)
  then have 7: "runs ?T (n + 39, ?t4, e + 18) (n + 40, ?t5, e + 18)" by simp
  have src0: "?t0 (p + 2 * int k) = BLANK" if "k \<le> 8" for k
  proof (cases "k = 8")
    case True
    with g16 show ?thesis by (simp add: p_def)
  next
    case False
    with that have "k < 8" by simp
    from wf_value_cells(1) [OF pl jl this] show ?thesis by (simp add: p_def)
  qed
  have A: "?t5 i = ?t0 i" if i: "i < e \<or> e + 18 < i" for i
  proof (cases "\<exists>k \<le> 8. i = p + 2 * int k")
    case True
    then obtain k where k: "k \<le> 8" "i = p + 2 * int k" by blast
    with pe have "i < e" by simp
    with k sb3 [OF k(1)] src0 [OF k(1)] show ?thesis by simp
  next
    case False
    with i have "t3 i = ?t2 i" by (intro fr3) auto
    with i show ?thesis by auto
  qed
  have D: "?t5 e = OUTPUT"
  proof -
    have "\<forall>k \<le> 8. e \<noteq> p + 2 * int k" using pe by auto
    then have "t3 e = ?t2 e" by (intro fr3) auto
    then show ?thesis by simp
  qed
  have B: "?t5 (e + 1 + 2 * int k) = BLANK" if "k < 8" for k
    using that bl3 [of k] by simp
  have C: "?t5 (e + 1 + 1 + 2 * int k) = bsym (bit ?v (7 - k))" if "k < 8" for k
    using that b3 [of k] by simp
  have E: "?t5 (e + 17) = BLANK" by simp
  have F: "?t5 (e + 18) = END" by simp
  note r = appended_tape [where regs = regs and rest = rest and t = ?t5 and w = ?v, OF pl,
      folded e_def, OF A D B C E F]
  have 8: "runs ?T (n + 40, ?t5, e + 18) (n + 41, ?t5, 0)"
  proof (rule rewind_run [OF h(9)])
    show "0 \<le> e + 18" using pe by simp
    show "?t5 0 = START" by (rule r(2))
    show "\<forall>i. 0 < i \<and> i \<le> e + 18 \<longrightarrow> ?t5 i \<noteq> START" by (rule r(3))
  qed
  have "runs ?T (q, ?t0, 0) (n + 41, ?t5, 0)"
    by (rule runs_trans [OF 0], rule runs_trans [OF 1], rule runs_trans [OF 2],
        rule runs_trans [OF 3], rule runs_trans [OF 4], rule runs_trans [OF 5],
        rule runs_trans [OF 6], rule runs_trans [OF 7], rule 8)
  then show ?thesis by (simp only: r(1))
qed

section \<open>The tape between two instructions\<close>

lemma plain_mem: "plain (concat (map mem_cells mem))"
proof -
  have "set (mem_cells b) \<subseteq> {BLANK, ADDRESS, VALUE, ZERO, ONE}" for b
    using set_spread [of "fst b"] set_spread [of "snd b"] by (auto simp add: mem_cells_def)
  then have "set (concat (map mem_cells mem)) \<subseteq> {BLANK, ADDRESS, VALUE, ZERO, ONE}" by auto
  then show ?thesis by (auto simp add: plain_def)
qed

lemma plain_outs: "plain (concat (map out_cells outs))"
proof -
  have "set (out_cells v) \<subseteq> {BLANK, OUTPUT, ZERO, ONE}" for v
    using set_spread [of v] by (auto simp add: out_cells_def)
  then have "set (concat (map out_cells outs)) \<subseteq> {BLANK, OUTPUT, ZERO, ONE}" by auto
  then show ?thesis by (auto simp add: plain_def)
qed

lemma plain_rest: "plain (concat (map mem_cells mem) @ BLANK # concat (map out_cells outs))"
  using plain_mem [of mem] plain_outs [of outs] by (simp add: plain_def)

lemma machine_tape_append:
  "machine_tape regs mem (outs @ [w]) =
     wf_tape regs ((concat (map mem_cells mem) @ BLANK # concat (map out_cells outs)) @ out_cells w)"
  by (simp add: machine_tape_def)

text \<open>The output cell replaces the end sentinel; nothing before it changes.\<close>

lemma machine_tape_grow:
  "machine_tape regs mem (outs @ [w]) =
     butlast (machine_tape regs mem outs) @ OUTPUT # spread w @ [BLANK, END]"
  by (simp add: machine_tape_def wf_tape_def out_cells_def butlast_append)

text \<open>The two cells after the value word of the register block at position \<open>j\<close>.\<close>

lemma after_value_word:
  fixes regs mem outs
  defines "rest \<equiv> concat (map mem_cells mem) @ BLANK # concat (map out_cells outs)"
  assumes j: "j < length regs"
  shows "tape_of (wf_tape regs rest) (37 + 36 * int j) = BLANK"
    and "tape_of (wf_tape regs rest) (38 + 36 * int j) \<noteq> ZERO"
    and "tape_of (wf_tape regs rest) (38 + 36 * int j) \<noteq> ONE"
    and "37 + 36 * int j < wf_end regs rest"
proof -
  let ?t = "tape_of (wf_tape regs rest)"
  have pl: "plain rest" unfolding rest_def by (rule plain_rest)
  note f = wf_tape_facts [where regs = regs and rest = rest, OF pl]
  have r: "rest \<noteq> []" by (simp add: rest_def)
  then have "0 < int (length rest)" by simp
  moreover from j have "int j + 1 \<le> int (length regs)" by simp
  ultimately show lt: "37 + 36 * int j < wf_end regs rest" unfolding wf_end_def by linarith
  have "?t (37 + 36 * int j) = BLANK \<and> ?t (38 + 36 * int j) \<noteq> ZERO \<and>
      ?t (38 + 36 * int j) \<noteq> ONE"
  proof (cases "Suc j < length regs")
    case True
    from cells_at_nth [OF f(5) True]
    have "?t (1 + 36 * int (Suc j)) = BLANK" "?t (1 + 36 * int (Suc j) + 1) = REGISTER"
      by (simp_all add: reg_cells_def)
    then show ?thesis by (simp add: algebra_simps)
  next
    case False
    with j have l: "int (length regs) = int j + 1" by simp
    have o: "1 + 36 * int (length regs) = 37 + 36 * int j" unfolding l by simp
    note c = f(6) [unfolded o]
    show ?thesis
    proof (cases mem)
      case (Cons m ms)
      with c have "?t (37 + 36 * int j) = BLANK" "?t (37 + 36 * int j + 1) = ADDRESS"
        by (simp_all add: rest_def mem_cells_def)
      then show ?thesis by (simp add: algebra_simps)
    next
      case Nil
      note mem = Nil
      with c have b: "?t (37 + 36 * int j) = BLANK" by (simp add: rest_def)
      show ?thesis
      proof (cases outs)
        case Nil
        with mem have "wf_end regs rest = 38 + 36 * int j"
          by (simp add: wf_end_def rest_def l)
        with f(2) b show ?thesis by simp
      next
        case (Cons v vs)
        with mem c have "?t (37 + 36 * int j + 1) = OUTPUT"
          by (simp add: rest_def out_cells_def)
        with b show ?thesis by (simp add: algebra_simps)
      qed
    qed
  qed
  then show "?t (37 + 36 * int j) = BLANK" "?t (38 + 36 * int j) \<noteq> ZERO"
    "?t (38 + 36 * int j) \<noteq> ONE"
    by simp_all
qed

lemma low_bits_imm:
  "k < 8 \<Longrightarrow> bit (word_of_int v :: 32 word) k = bit (nat (v mod 256)) k"
proof -
  assume k: "k < 8"
  have "v mod 256 = take_bit 8 v" by (simp add: take_bit_eq_mod)
  then have "bit (nat (v mod 256)) k = bit (take_bit 8 v) k"
    by (simp add: bit_nat_iff)
  with k show ?thesis by (simp add: bit_word_of_int_iff bit_take_bit_iff)
qed

lemma code_of_PUTC:
  "op inst = PUTC \<Longrightarrow> src inst = IMM v \<Longrightarrow>
     code_of (tm_inst q inst) g = putc_imm_code q (word_of_int v) (next_state g)"
  "op inst = PUTC \<Longrightarrow> src inst = REG sr \<Longrightarrow>
     code_of (tm_inst q inst) g = putc_reg_code q sr (next_state g) (q_reject g)"
  by (simp_all add: code_of_def tm_inst_PUTC_imm tm_inst_PUTC_reg adv_def)

section \<open>The states of EXIT (claim C6)\<close>

lemma exit_tables:
  fixes q n rej :: int
  defines "T \<equiv> exit_code q n rej"
  assumes q: "q < n"
  shows "has T q (\<lambda>s. (DST, 1, n))"
    and "has T n (findf 1 OUTPUT (n + 2) (n + 1) n)"
    and "has T (n + 2) (\<lambda>s. (BLANK, 1, n + 3))"
    and "sub_table (copy_helper_code (n + 3) (- 1) False False (n + 4) (n + 5) rej) T"
    and "has T (n + 4) (\<lambda>s. (DST, 1, n))"
    and "has T (n + 1) (\<lambda>s. if s = END then (s, 0, n + 17) else (s, 1, n + 1))"
    and "has T (n + 17) (\<lambda>s. if s = DST then (BLANK, 0, - 1) else (BLANK, - 1, n + 17))"
proof -
  let ?A = "block q (\<lambda>s. (DST, 1, n)) @ find_code n 1 OUTPUT (n + 2) (n + 1) @
     block (n + 2) (\<lambda>s. (BLANK, 1, n + 3))"
  let ?C = "copy_helper_code (n + 3) (- 1) False False (n + 4) (n + 5) rej"
  let ?B = "block (n + 4) (\<lambda>s. (DST, 1, n)) @
     block (n + 1) (\<lambda>s. if s = END then (s, 0, n + 17) else (s, 1, n + 1)) @
     block (n + 17) (\<lambda>s. if s = DST then (BLANK, 0, -1) else (BLANK, -1, n + 17))"
  have sC: "srcs ?C \<subseteq> insert (n + 3) {n + 5 ..< n + 17}"
    using srcs_copy [of "n + 3" "- 1" False "n + 4" "n + 5" rej] by (auto simp add: cp_off_def)
  have mC: "x = n + 3 \<or> n + 5 \<le> x \<and> x < n + 17" if "x \<in> srcs ?C" for x
    using sC that by auto
  have T: "T = ?A @ ?C @ ?B" by (simp add: T_def exit_code_def)
  have T2: "T = (?A @ ?C) @ ?B" by (simp add: T_def exit_code_def)
  have f: "has (find_code n 1 OUTPUT (n + 2) (n + 1) @ X) n (findf 1 OUTPUT (n + 2) (n + 1) n)" for X
    by (rule has_append_left) (rule has_find_code)
  have fs: "has (find_code n 1 OUTPUT (n + 2) (n + 1) @ X) x g = has X x g" if "x \<noteq> n" for X x g
    using that by (simp add: has_append_right)
  show "has T q (\<lambda>s. (DST, 1, n))"
    unfolding T by (simp add: has_block_here)
  from q show "has T n (findf 1 OUTPUT (n + 2) (n + 1) n)"
    unfolding T by (simp add: has_block_skip f)
  from q show "has T (n + 2) (\<lambda>s. (BLANK, 1, n + 3))"
    unfolding T by (simp add: has_block_skip fs has_block_here)
  have "srcs ?A \<inter> srcs ?C = {}"
    using q by (auto dest!: mC)
  then have "sub_table ?C (?A @ ?C @ ?B)" by (intro sub_table_mid) simp_all
  then show "sub_table ?C T" unfolding T .
  have n: "n + 4 \<notin> srcs (?A @ ?C)" "n + 1 \<notin> srcs (?A @ ?C)" "n + 17 \<notin> srcs (?A @ ?C)"
    using q by (auto dest!: mC)
  show "has T (n + 4) (\<lambda>s. (DST, 1, n))"
    unfolding T2 by (rule has_append_right [THEN iffD2, OF n(1)]) (simp add: has_block_here)
  show "has T (n + 1) (\<lambda>s. if s = END then (s, 0, n + 17) else (s, 1, n + 1))"
    unfolding T2
    by (rule has_append_right [THEN iffD2, OF n(2)]) (simp add: has_block_here has_block_skip)
  show "has T (n + 17) (\<lambda>s. if s = DST then (BLANK, 0, - 1) else (BLANK, - 1, n + 17))"
    unfolding T2
    by (rule has_append_right [THEN iffD2, OF n(3)]) (simp add: has_block_here has_block_skip)
qed

text \<open>The last state of EXIT blanks every cell from the head down to the destination marker
  and halts there.\<close>

lemma clear_run:
  assumes T: "has T q (\<lambda>s. if s = DST then (BLANK, 0, r) else (BLANK, - 1, q))"
  shows "tape x = DST \<Longrightarrow> h = x + int k \<Longrightarrow> \<forall>i. x < i \<and> i \<le> h \<longrightarrow> tape i \<noteq> DST \<Longrightarrow>
     runs T (q, tape, h) (r, \<lambda>i. if x \<le> i \<and> i \<le> h then BLANK else tape i, x)"
proof (induction k arbitrary: tape h)
  case 0
  then have h: "h = x" by simp
  have "runs T (q, tape, x) (r, tape(x := BLANK), x + 0)"
    by (rule run_write [OF T]) (simp_all add: 0 dir_ok_def)
  moreover have "tape(x := BLANK) = (\<lambda>i. if x \<le> i \<and> i \<le> x then BLANK else tape i)"
    by auto
  ultimately show ?case unfolding h by simp
next
  case (Suc k)
  from Suc.prems(2) have h: "x < h" "h - 1 = x + int k" by simp_all
  with Suc.prems(3) have nd: "tape h \<noteq> DST" by simp
  have "runs T (q, tape, h) (q, tape(h := BLANK), h + - 1)"
    by (rule run_write [OF T]) (simp_all add: nd dir_ok_def)
  then have 1: "runs T (q, tape, h) (q, tape(h := BLANK), h - 1)" by simp
  have 2: "runs T (q, tape(h := BLANK), h - 1)
      (r, \<lambda>i. if x \<le> i \<and> i \<le> h - 1 then BLANK else (tape(h := BLANK)) i, x)"
  proof (rule Suc.IH [OF _ h(2)])
    from h Suc.prems(1) show "(tape(h := BLANK)) x = DST" by simp
    from Suc.prems(3) show "\<forall>i. x < i \<and> i \<le> h - 1 \<longrightarrow> (tape(h := BLANK)) i \<noteq> DST" by simp
  qed
  have "(\<lambda>i. if x \<le> i \<and> i \<le> h - 1 then BLANK else (tape(h := BLANK)) i) =
      (\<lambda>i. if x \<le> i \<and> i \<le> h then BLANK else tape i)"
  proof
    fix i
    from h(1) show "(if x \<le> i \<and> i \<le> h - 1 then BLANK else (tape(h := BLANK)) i) =
        (if x \<le> i \<and> i \<le> h then BLANK else tape i)"
      by (cases "i = h") auto
  qed
  with 2 have "runs T (q, tape(h := BLANK), h - 1)
      (r, \<lambda>i. if x \<le> i \<and> i \<le> h then BLANK else tape i, x)"
    by simp
  with 1 show ?case by (rule runs_trans)
qed

section \<open>Aborted and completed generations\<close>

lemma succeedsI: "(\<And>g :: gen. m g = (Inr (r g), h g)) \<Longrightarrow> succeeds m"
  by (simp add: succeeds_def)

lemma succeeds_ret [simp]: "succeeds (ret x)"
  by (simp add: succeeds_def ret_def)

lemma succeeds_new_state [simp]: "succeeds new_state"
  by (simp add: succeeds_def new_state_def)

lemma succeeds_bind: "succeeds m \<Longrightarrow> (\<And>x. succeeds (f x)) \<Longrightarrow> succeeds (bnd m f)"
  unfolding succeeds_def
proof (intro allI)
  fix g assume m: "\<forall>g. \<not> failed (m g)" and f: "\<And>x. \<forall>g. \<not> failed (f x g)"
  obtain r g' where r: "m g = (r, g')" by (cases "m g")
  with m [rule_format, of g] obtain x where "r = Inr x" by (cases r) auto
  with r f [of x, rule_format, of g'] show "\<not> failed (bnd m f g)" by (simp add: bnd_def)
qed

lemma succeeds_emitters [simp]:
  "dir_ok d \<Longrightarrow> succeeds (tm_write q b d r)"
  "dir_ok d \<Longrightarrow> succeeds (tm_move q d r)"
  "succeeds (tm_noop q r)"
  "succeeds (tm_rewind q r)"
  "succeeds (tm_ffwd q r)"
  "succeeds (tm_write_word q x r)"
  "succeeds (tm_write_byte q x r)"
  "succeeds (tm_find_register q reg r)"
  "dir_ok d \<Longrightarrow> succeeds (tm_copy q d r)"
  "dir_ok d \<Longrightarrow> succeeds (tm_copy_to_scratch q d r)"
  "succeeds (tm_add q r)"
  "succeeds (tm_sub q r)"
  by (simp_all add: succeeds_def tm_write_code tm_move_code tm_noop_code tm_rewind_code
      tm_ffwd_code tm_write_word_code tm_write_byte_code tm_find_register_code tm_copy_code
      tm_copy_to_scratch_code tm_add_code tm_sub_code)

lemma succeeds_arith:
  assumes "\<exists>r. dst inst = REG r" and "src inst \<noteq> OTHER" and "\<not> same_reg_arith inst"
    and "op inst = ADD \<or> op inst = SUB"
  shows "succeeds (tm_arith q inst)"
  using assms
  by (cases "op inst = ADD"; cases "dst inst"; cases "src inst")
     (simp_all add: tm_arith_def same_reg_arith_def succeeds_bind dir_ok_simps)

lemma succeeds_inst: "accepted inst \<Longrightarrow> succeeds (tm_inst q inst)"
proof (cases "op inst")
  case MOV
  assume "accepted inst"
  with MOV show ?thesis
    by (cases "dst inst"; cases "src inst")
       (simp_all add: tm_inst_def accepted_def unsupported_def succeeds_bind dir_ok_simps)
next
  case ADD
  assume "accepted inst"
  with ADD show ?thesis
    by (simp add: tm_inst_def accepted_def unsupported_def succeeds_arith)
next
  case SUB
  assume "accepted inst"
  with SUB show ?thesis
    by (simp add: tm_inst_def accepted_def unsupported_def succeeds_arith)
next
  case JMP
  assume "accepted inst"
  with JMP show ?thesis
    by (cases "jmp inst") (simp_all add: tm_inst_def accepted_def unsupported_def)
next
  case PUTC
  assume "accepted inst"
  with PUTC show ?thesis
    by (cases "src inst")
       (simp_all add: tm_inst_def accepted_def unsupported_def succeeds_bind dir_ok_simps)
next
  case EXIT
  then show ?thesis by (simp add: succeeds_def tm_inst_EXIT)
next
  case DUMP
  then show ?thesis by (simp add: tm_inst_def)
next
  case OTHER_OP
  assume "accepted inst"
  with OTHER_OP show ?thesis by (simp add: accepted_def unsupported_def)
qed

lemma aborts_error [simp]: "aborts (error e g) e"
  by (simp add: aborts_def error_def)

lemma aborts_bnd_Inl: "aborts (m g) e \<Longrightarrow> aborts (bnd m f g) e"
  by (cases "m g") (auto simp: bnd_def aborts_def split: sum.splits)

lemma aborts_bnd_Inr: "m g = (Inr x, g') \<Longrightarrow> aborts (f x g') e \<Longrightarrow> aborts (bnd m f g) e"
  by (simp add: bnd_def)

lemma aborts_arith:
  assumes "op inst = ADD \<or> op inst = SUB"
    and "src inst = OTHER \<or> same_reg_arith inst \<or> (\<forall>r. dst inst \<noteq> REG r)"
  shows "aborts (tm_arith q inst g) (diagnostic inst)"
  using assms
  by (cases "dst inst"; cases "src inst")
     (auto simp: tm_arith_def same_reg_arith_def diagnostic_def code_simps)

lemma aborts_inst: "\<not> accepted inst \<Longrightarrow> aborts (tm_inst q inst g) (diagnostic inst)"
proof (cases "op inst")
  case MOV
  assume "\<not> accepted inst"
  with MOV show ?thesis
    by (cases "dst inst"; cases "src inst")
       (auto simp: tm_inst_def accepted_def unsupported_def diagnostic_def code_simps)
next
  case ADD
  assume "\<not> accepted inst"
  with ADD have "src inst = OTHER \<or> same_reg_arith inst \<or> (\<forall>r. dst inst \<noteq> REG r)"
    by (auto simp: accepted_def unsupported_def)
  with ADD show ?thesis by (simp add: tm_inst_def aborts_arith)
next
  case SUB
  assume "\<not> accepted inst"
  with SUB have "src inst = OTHER \<or> same_reg_arith inst \<or> (\<forall>r. dst inst \<noteq> REG r)"
    by (auto simp: accepted_def unsupported_def)
  with SUB show ?thesis by (simp add: tm_inst_def aborts_arith)
next
  case JMP
  assume "\<not> accepted inst"
  with JMP show ?thesis
    by (cases "jmp inst") (auto simp: tm_inst_def accepted_def unsupported_def diagnostic_def)
next
  case PUTC
  assume "\<not> accepted inst"
  with PUTC show ?thesis
    by (cases "src inst")
       (auto simp: tm_inst_def accepted_def unsupported_def diagnostic_def code_simps)
next
  case EXIT
  assume "\<not> accepted inst"
  with EXIT show ?thesis by (simp add: accepted_def unsupported_def)
next
  case DUMP
  assume "\<not> accepted inst"
  with DUMP show ?thesis by (simp add: accepted_def unsupported_def)
next
  case OTHER_OP
  then show ?thesis by (simp add: tm_inst_def diagnostic_def)
qed

lemma aborts_text:
  assumes "\<forall>j \<in> set pre. accepted j" and "\<not> accepted i"
  shows "aborts (tm_text prev q (pre @ i # post) g) (diagnostic i)"
  using assms(1)
proof (induction pre arbitrary: prev q g)
  case Nil
  let ?s = "if pc i \<noteq> prev \<and> q \<noteq> pc i then tm_noop q (pc i) else ret q"
  obtain q1 g1 where s: "?s g = (Inr q1, g1)"
    by (cases "pc i \<noteq> prev \<and> q \<noteq> pc i") (auto simp: tm_noop_code ret_def)
  have b: "bnd ?s f g = f q1 g1" for f :: "int \<Rightarrow> int gm"
    using s by (simp add: bnd_def)
  have "aborts (bnd (tm_inst q1 i) (\<lambda>q. tm_text (pc i) q post) g1) (diagnostic i)"
    by (rule aborts_bnd_Inl) (rule aborts_inst [OF assms(2)])
  then show ?case by (simp add: b)
next
  case (Cons j pre)
  let ?s = "if pc j \<noteq> prev \<and> q \<noteq> pc j then tm_noop q (pc j) else ret q"
  obtain q1 g1 where s: "?s g = (Inr q1, g1)"
    by (cases "pc j \<noteq> prev \<and> q \<noteq> pc j") (auto simp: tm_noop_code ret_def)
  from Cons.prems have "accepted j" by simp
  then have "succeeds (tm_inst q1 j)" by (rule succeeds_inst)
  then have nf: "\<not> failed (tm_inst q1 j g1)" by (simp add: succeeds_def)
  obtain q2 g2 where t: "tm_inst q1 j g1 = (Inr q2, g2)"
  proof (cases "tm_inst q1 j g1")
    case (Pair res g2)
    with nf obtain q2 where "res = Inr q2" by (cases res) simp_all
    with Pair show ?thesis by (intro that [of q2 g2]) simp
  qed
  have b: "bnd ?s f g = f q1 g1" for f :: "int \<Rightarrow> int gm"
    using s by (simp add: bnd_def)
  have c: "bnd (tm_inst q1 j) f g1 = f q2 g2" for f :: "int \<Rightarrow> int gm"
    using t by (simp add: bnd_def)
  from Cons.prems have "\<forall>j \<in> set pre. accepted j" by simp
  from Cons.IH [OF this, of "pc j" q2 g2] show ?case
    by (simp add: b c)
qed

text \<open>The condition \<open>counter_fits\<close> bounds the program counters: the state counter starts
  above every pc and never decreases.\<close>

lemma seed_next_state_fold:
  "n \<le> foldl (\<lambda>n inst. if pc inst \<ge> n then pc inst + 1 else n) n insts \<and>
   (\<forall>i \<in> set insts. pc i < foldl (\<lambda>n inst. if pc inst \<ge> n then pc inst + 1 else n) n insts)"
proof (induction insts arbitrary: n)
  case Nil
  show ?case by simp
next
  case (Cons a insts)
  let ?n = "if pc a \<ge> n then pc a + 1 else n"
  from Cons.IH [of ?n] show ?case by (auto split: if_splits)
qed

lemma seed_next_state_above:
  "i \<in> set insts \<Longrightarrow> pc i < seed_next_state insts"
  using seed_next_state_fold [of 0 insts] by (simp add: seed_next_state_def)

lemma seed_next_state_nonneg: "0 \<le> seed_next_state insts"
  using seed_next_state_fold [of 0 insts] by (simp add: seed_next_state_def)

lemma target_tm_counter:
  "seed_next_state (module_text m) < next_state (snd (target_tm m gen0))"
proof -
  let ?f = "bnd (prologue_body m) (\<lambda>q. tm_text 0 q (module_text m))"
  let ?g = "seeded m gen0"
  from unit_target [of m, unfolded unit_ok_def, rule_format, of ?g]
  obtain k N where s: "snd (?f ?g) = kept (fst (?f ?g)) (adv k N ?g)" and k: "0 \<le> k"
    by auto
  have "next_state (snd (?f ?g)) = next_state ?g + k"
    unfolding s by (cases "fst (?f ?g)") (simp_all add: adv_def)
  with k show ?thesis by (simp add: target_tm_seeded seeded_def)
qed

lemma counter_fits_pc:
  assumes "counter_fits m" and "i \<in> set (module_text m)"
  shows "pc i < int_max" and "seed_next_state (module_text m) < int_max"
  using assms seed_next_state_above [of i "module_text m"] target_tm_counter [of m]
  by (simp_all add: counter_fits_def)

section \<open>Example modules with unsupported instructions\<close>

section \<open>State identifiers (claim C9)\<close>

lemma bnd_ret_right [simp]: "bnd m ret = m"
  by (auto simp: bnd_def ret_def fun_eq_iff split: prod.splits sum.splits)

lemma target_tm_single:
  assumes "module_text m = [i]" and "pc i = 0" and "module_data m = []"
  shows "target_tm m g = tm_inst 221 i (adv 220 (prologue_code m 2) (seeded m g))"
    and "seed_next_state (module_text m) = 1"
proof -
  show s: "seed_next_state (module_text m) = 1"
    using assms by (simp add: seed_next_state_def)
  have "tm_text 0 q (module_text m) = tm_inst q i" for q
    using assms by simp
  then show "target_tm m g = tm_inst 221 i (adv 220 (prologue_code m 2) (seeded m g))"
    using assms(3) by (simp add: target_tm_unfold s)
qed

lemma out_prog_exit:
  "out (snd (target_tm prog_exit gen0)) = prologue_code prog_exit 2 @ exit_code 221 222 1"
proof -
  have "target_tm prog_exit gen0 =
      tm_inst 221 \<lparr>op = EXIT, dst = OTHER, src = OTHER, jmp = OTHER, pc = 0\<rparr>
        (adv 220 (prologue_code prog_exit 2) (seeded prog_exit gen0))"
    by (rule target_tm_single) (simp_all add: prog_exit_def)
  moreover have "seed_next_state (module_text prog_exit) = 1"
    by (rule target_tm_single(2) [where i = "\<lparr>op = EXIT, dst = OTHER, src = OTHER, jmp = OTHER, pc = 0\<rparr>"])
       (simp_all add: prog_exit_def)
  ultimately show ?thesis
    by (simp add: tm_inst_EXIT gen0_def)
qed

text \<open>
  C9 (as the code has it). For a module whose program counters and immediate jump targets
  are non-negative, and on which the run of the generator is defined (the state counter
  stays within C's \<open>int\<close>, the data are in the domain of \<open>isprint\<close>), every current state
  of the emitted table is a non-negative integer, and every next state is non-negative or
  is \<open>-1\<close>; the next state \<open>-1\<close> occurs only when the module has an EXIT instruction, whose
  clearing loop uses it as the halting target.
\<close>

theorem states_nonnegative_but_halt:
  assumes "\<forall>i \<in> set (module_text m). 0 \<le> pc i \<and> (\<forall>t. op i = JMP \<and> jmp i = IMM t \<longrightarrow> 0 \<le> t)"
    and "run_defined m"
  shows "\<forall>t \<in> set (out (snd (target_tm m gen0))).
           0 \<le> t_state t \<and>
           (0 \<le> t_next t \<or> t_next t = -1 \<and> (\<exists>i \<in> set (module_text m). op i = EXIT))"
proof
  fix t assume t: "t \<in> set (out (snd (target_tm m gen0)))"
  let ?T = "out (snd (target_tm m gen0))"
  let ?s = "seed_next_state (module_text m)"
  obtain k ro where c: "chain (text_states m) (insert ?s (halt_states m)) 0 ro (?s + 1) k ?T"
    by (rule target_tm_chain)
  have xs: "0 \<le> x" if "x \<in> text_states m" for x
  proof -
    from that obtain i where i: "i \<in> set (module_text m)" and x: "x = pc i \<or> x \<in> jmp_targets i"
      by (auto simp: text_states_def)
    from assms(1) i have p: "0 \<le> pc i"
      and j: "\<And>t. op i = JMP \<Longrightarrow> jmp i = IMM t \<Longrightarrow> 0 \<le> t"
      by auto
    have "0 \<le> y" if "y \<in> jmp_targets i" for y
      using that j by (cases "op i"; cases "jmp i") (simp_all add: jmp_targets_def)
    with x p show ?thesis by auto
  qed
  have s: "0 \<le> ?s" by (rule seed_next_state_ge)
  from c t have "t_state t \<in> insert 0 (text_states m) \<union> {?s + 1 ..< ?s + 1 + k}"
    by (auto simp: chain_def srcs_def)
  with xs s have 1: "0 \<le> t_state t" by auto
  from c t have "t_next t \<in> insert 0 (text_states m) \<union> insert ?s (halt_states m) \<union>
      {?s + 1 ..< ?s + 1 + k}"
    by (auto simp: chain_def tgts_def)
  with xs s have "0 \<le> t_next t \<or> t_next t \<in> halt_states m" by auto
  then have 2: "0 \<le> t_next t \<or> t_next t = -1 \<and> (\<exists>i \<in> set (module_text m). op i = EXIT)"
    by (auto simp: halt_states_def split: if_splits)
  from 1 2 show "0 \<le> t_state t \<and>
      (0 \<le> t_next t \<or> t_next t = -1 \<and> (\<exists>i \<in> set (module_text m). op i = EXIT))"
    by simp
qed

theorem states_nonnegative_but_halt_witness:
  "Transition 239 DST (-1) BLANK DirN \<in> set (out (snd (target_tm prog_exit gen0))) \<and>
   0 \<le> t_state (Transition 239 DST (-1) BLANK DirN) \<and>
   t_next (Transition 239 DST (-1) BLANK DirN) = -1 \<and>
   (\<exists>i \<in> set (module_text prog_exit). op i = EXIT)"
proof -
  have m: "Transition 239 DST (-1) BLANK DirN \<in> set (out (snd (target_tm prog_exit gen0)))"
    by (simp add: out_prog_exit exit_code_def set_block dn_def image_iff)
  have h: "\<forall>i \<in> set (module_text prog_exit).
      0 \<le> pc i \<and> (\<forall>t. op i = JMP \<and> jmp i = IMM t \<longrightarrow> 0 \<le> t)"
    by (simp add: prog_exit_def)
  have "module_text prog_exit = [\<lparr>op = EXIT, dst = OTHER, src = OTHER, jmp = OTHER, pc = 0\<rparr>]"
    "module_data prog_exit = []"
    by (simp_all add: prog_exit_def)
  then have "next_state (snd (target_tm prog_exit gen0)) = 240"
    using target_tm_single(1) [where m = prog_exit and g = gen0
        and i = "\<lparr>op = EXIT, dst = OTHER, src = OTHER, jmp = OTHER, pc = 0\<rparr>"]
      target_tm_single(2) [where m = prog_exit
        and i = "\<lparr>op = EXIT, dst = OTHER, src = OTHER, jmp = OTHER, pc = 0\<rparr>"]
    by (simp add: tm_inst_EXIT)
  then have d: "run_defined prog_exit"
    by (simp add: run_defined_def counter_fits_def data_in_range_def int_max_def prog_exit_def)
  from states_nonnegative_but_halt [OF h d, rule_format, OF m] m show ?thesis
    by simp
qed

theorem exit_emits_negative_state:
  "Transition 239 DST (-1) BLANK DirN \<in> set (out (snd (target_tm prog_exit gen0)))"
  by (simp add: out_prog_exit exit_code_def set_block dn_def image_iff)

section \<open>Totality (claim C2)\<close>

text \<open>
  C2 (as the code has it). Every state from which the generator has emitted a transition has
  an emitted transition for each of the 12 alphabet symbols, because every emitter writes a
  full block. States that only occur as targets, such as the reject state, have none.
\<close>

theorem emitted_states_cover_alphabet:
  "\<forall>t \<in> set (out (snd (target_tm m gen0))). \<forall>a.
     \<exists>t' \<in> set (out (snd (target_tm m gen0))). t_state t' = t_state t \<and> t_read t' = a"
proof -
  obtain k ro where "chain (text_states m)
      (insert (seed_next_state (module_text m)) (halt_states m)) 0 ro
      (seed_next_state (module_text m) + 1) k (out (snd (target_tm m gen0)))"
    by (rule target_tm_chain)
  then have "full (out (snd (target_tm m gen0)))"
    by (simp add: chain_def)
  then show ?thesis
    by (simp add: full_def)
qed

theorem emitted_states_cover_alphabet_witness:
  "\<exists>t' \<in> set (out (snd (target_tm prog_exit gen0))). t_state t' = 239 \<and> t_read t' = SYM11"
proof -
  have m: "Transition 239 DST (-1) BLANK DirN \<in> set (out (snd (target_tm prog_exit gen0)))"
    by (simp add: out_prog_exit exit_code_def set_block dn_def image_iff)
  from emitted_states_cover_alphabet [of prog_exit, rule_format, OF m, of SYM11]
  show ?thesis by simp
qed

lemma reject_reachable_prog_mov:
  "q_reject (snd (target_tm prog_mov gen0)) = 1 \<and>
   set (prologue_code prog_mov 2) \<subseteq> set (out (snd (target_tm prog_mov gen0))) \<and>
   set (find_code 221 1 REGISTER 223 1) \<subseteq> set (out (snd (target_tm prog_mov gen0)))"
proof -
  have "target_tm prog_mov gen0 =
      tm_inst 221 \<lparr>op = MOV, dst = REG 0, src = IMM 5, jmp = OTHER, pc = 0\<rparr>
        (adv 220 (prologue_code prog_mov 2) (seeded prog_mov gen0))"
    by (rule target_tm_single) (simp_all add: prog_mov_def)
  moreover have "seed_next_state (module_text prog_mov) = 1"
    by (rule target_tm_single(2)
          [where i = "\<lparr>op = MOV, dst = REG 0, src = IMM 5, jmp = OTHER, pc = 0\<rparr>"])
       (simp_all add: prog_mov_def)
  ultimately show ?thesis
    by (auto simp: tm_inst_def code_simps gen0_def find_register_code_def)
qed

text \<open>
  C2, as stated, fails on the reject state. For the module \<open>MOV r0, 5\<close> the reject state is
  state 1; it is reachable from state 0 in the transition graph (the register search of the
  MOV goes to it on the end sentinel), and no transition at all is emitted for it.
\<close>

theorem reject_state_has_no_transitions:
  "q_reject (snd (target_tm prog_mov gen0)) = 1 \<and>
   reach (out (snd (target_tm prog_mov gen0))) 0 1 \<and>
   1 \<notin> srcs (out (snd (target_tm prog_mov gen0)))"
proof -
  let ?T = "out (snd (target_tm prog_mov gen0))"
  note r = reject_reachable_prog_mov
  have "reach (prologue_code prog_mov 2) 0 221"
    using chain_prologue [of "{}" 2 prog_mov] by (simp add: chain_def prog_mov_def)
  then have a: "reach ?T 0 221"
    by (rule reach_mono [rotated]) (use r in simp)
  have b: "reach ?T 221 1"
    by (rule reach_find_no [where d = 1 and a = REGISTER and ry = 223]) (use r in simp_all)
  have s: "seed_next_state (module_text prog_mov) = 1"
    by (simp add: prog_mov_def seed_next_state_def)
  obtain k ro where "chain (text_states prog_mov)
      (insert (seed_next_state (module_text prog_mov)) (halt_states prog_mov)) 0 ro
      (seed_next_state (module_text prog_mov) + 1) k ?T"
    by (rule target_tm_chain)
  then have "srcs ?T \<subseteq> insert 0 (text_states prog_mov) \<union> {2 ..< 2 + k}"
    by (simp add: chain_def s)
  moreover have "text_states prog_mov = {0}"
    by (simp add: text_states_def prog_mov_def jmp_targets_def)
  ultimately have c: "1 \<notin> srcs ?T" by auto
  from r reach_trans [OF a b] c show ?thesis by simp
qed

section \<open>Determinism (claim C3)\<close>

text \<open>
  C3 fails on the code. For the module \<open>0: JMP 2; 1: DUMP; 2: PUTC 0\<close> the generator
  leaves the jump with the current state 2 and stitches that state to the next block
  (state 2 goes to state 1 on every symbol); later it emits the code of block 2 from state 2
  again. The table holds two different transitions for state 2 reading a blank.
\<close>

theorem jump_target_emitted_twice:
  "Transition 2 BLANK 1 BLANK DirN \<in> set (out (snd (target_tm prog_jmp_over gen0))) \<and>
   Transition 2 BLANK 2 BLANK DirR \<in> set (out (snd (target_tm prog_jmp_over gen0))) \<and>
   \<not> distinct (map (\<lambda>t. (t_state t, t_read t)) (out (snd (target_tm prog_jmp_over gen0))))"
proof -
  let ?T = "out (snd (target_tm prog_jmp_over gen0))"
  have s: "seed_next_state (module_text prog_jmp_over) = 3"
    by (simp add: prog_jmp_over_def seed_next_state_def)
  have 1: "Transition 2 BLANK 1 BLANK DirN \<in> set ?T"
    by (simp add: target_tm_unfold s)
       (simp add: prog_jmp_over_def tm_inst_def code_simps gen0_def ret_apply set_block dn_def
          image_iff)
  have 2: "Transition 2 BLANK 2 BLANK DirR \<in> set ?T"
    by (simp add: target_tm_unfold s)
       (simp add: prog_jmp_over_def tm_inst_def code_simps gen0_def ret_apply set_block dn_def
          image_iff)
  have "\<not> inj_on (\<lambda>t. (t_state t, t_read t)) (set ?T)"
  proof
    assume "inj_on (\<lambda>t. (t_state t, t_read t)) (set ?T)"
    from inj_onD [OF this _ 1 2] show False by simp
  qed
  then have 3: "\<not> distinct (map (\<lambda>t. (t_state t, t_read t)) ?T)"
    by (simp add: distinct_map)
  from 1 2 3 show ?thesis by simp
qed

section \<open>Arithmetic correctness (claim C4)\<close>

text \<open>
  C4. Let the table be what \<open>tm_add q r\<close> emits, with \<open>q\<close> an older state than the four
  it allocates. On a tape that holds bit \<open>j\<close> of \<open>a\<close> in the main cell \<open>p + 15 - 2j\<close> and
  bit \<open>j\<close> of \<open>b\<close> in the scratch cell \<open>p + 16 - 2j\<close> to its right, with a non-bit symbol in
  cell \<open>p\<close>, the machine started in state \<open>q\<close> on the rightmost scratch cell \<open>p + 16\<close>
  reaches the caller state \<open>r\<close> after 17 steps with the head on cell \<open>p\<close>, the scratch cell
  left of the result; the main cells hold \<open>a + b\<close> modulo 256, the scratch cells and cell
  \<open>p\<close> are blank and the rest of the tape is unchanged. The table of \<open>tm_sub q r\<close> leaves
  \<open>a - b\<close> modulo 256 in the same way.
\<close>

theorem tm_add_sub_correct:
  fixes a b :: "8 word"
  assumes "q < next_state g"
    and "\<forall>j < 8. tape (p + 15 - 2 * int j) = bsym (bit a j) \<and>
           tape (p + 16 - 2 * int j) = bsym (bit b j)"
    and "tape p \<noteq> ZERO" and "tape p \<noteq> ONE"
  shows "(\<exists>tape'. run (code_of (tm_add q r) g) 17 (q, tape, p + 16) = Some (r, tape', p) \<and>
            tape' p = BLANK \<and>
            (\<forall>j < 8. tape' (p + 15 - 2 * int j) = bsym (bit (a + b) j) \<and>
               tape' (p + 16 - 2 * int j) = BLANK) \<and>
            (\<forall>i. i < p \<or> p + 16 < i \<longrightarrow> tape' i = tape i)) \<and>
         (\<exists>tape'. run (code_of (tm_sub q r) g) 17 (q, tape, p + 16) = Some (r, tape', p) \<and>
            tape' p = BLANK \<and>
            (\<forall>j < 8. tape' (p + 15 - 2 * int j) = bsym (bit (a - b) j) \<and>
               tape' (p + 16 - 2 * int j) = BLANK) \<and>
            (\<forall>i. i < p \<or> p + 16 < i \<longrightarrow> tape' i = tape i))"
proof
  show "\<exists>tape'. run (code_of (tm_add q r) g) 17 (q, tape, p + 16) = Some (r, tape', p) \<and>
            tape' p = BLANK \<and>
            (\<forall>j < 8. tape' (p + 15 - 2 * int j) = bsym (bit (a + b) j) \<and>
               tape' (p + 16 - 2 * int j) = BLANK) \<and>
            (\<forall>i. i < p \<or> p + 16 < i \<longrightarrow> tape' i = tape i)"
    unfolding code_of_tm_add
    by (rule arith_run [where rf = add_bits and a = a and b = b and n = "next_state g"
          and cf = "\<lambda>x y c. (x \<and> y) \<or> (c \<and> (x \<or> y))"])
       (simp_all add: add_pair add_fin add_bits_word assms)
  show "\<exists>tape'. run (code_of (tm_sub q r) g) 17 (q, tape, p + 16) = Some (r, tape', p) \<and>
            tape' p = BLANK \<and>
            (\<forall>j < 8. tape' (p + 15 - 2 * int j) = bsym (bit (a - b) j) \<and>
               tape' (p + 16 - 2 * int j) = BLANK) \<and>
            (\<forall>i. i < p \<or> p + 16 < i \<longrightarrow> tape' i = tape i)"
    unfolding code_of_tm_sub
    by (rule arith_run [where rf = sub_bits and a = a and b = b and n = "next_state g"
          and cf = "\<lambda>x y c. (\<not> x \<and> (y \<or> c)) \<or> (y \<and> c)"])
       (simp_all add: sub_pair sub_fin sub_bits_word assms)
qed

theorem tm_add_sub_correct_witness:
  "(\<exists>tape'. run (code_of (tm_add 0 5) \<lparr>next_state = 1, q_reject = 9, out = []\<rparr>) 17
        (0, interleaved 200 100, 16) = Some (5, tape', 0) \<and>
      tape' 0 = BLANK \<and>
      (\<forall>j < 8. tape' (15 - 2 * int j) = bsym (bit (200 + 100 :: 8 word) j) \<and>
         tape' (16 - 2 * int j) = BLANK) \<and>
      (\<forall>i. i < 0 \<or> 16 < i \<longrightarrow> tape' i = interleaved 200 100 i)) \<and>
   (\<exists>tape'. run (code_of (tm_sub 0 5) \<lparr>next_state = 1, q_reject = 9, out = []\<rparr>) 17
        (0, interleaved 200 100, 16) = Some (5, tape', 0) \<and>
      tape' 0 = BLANK \<and>
      (\<forall>j < 8. tape' (15 - 2 * int j) = bsym (bit (200 - 100 :: 8 word) j) \<and>
         tape' (16 - 2 * int j) = BLANK) \<and>
      (\<forall>i. i < 0 \<or> 16 < i \<longrightarrow> tape' i = interleaved 200 100 i))"
proof -
  have 1: "(0::int) < next_state \<lparr>next_state = 1, q_reject = 9, out = []\<rparr>"
    by simp
  have 2: "\<forall>j < 8. interleaved 200 100 (0 + 15 - 2 * int j) = bsym (bit (200 :: 8 word) j) \<and>
      interleaved 200 100 (0 + 16 - 2 * int j) = bsym (bit (100 :: 8 word) j)"
    by (simp add: interleaved_def)
  have 3: "interleaved 200 100 0 \<noteq> ZERO" "interleaved 200 100 0 \<noteq> ONE"
    by (simp_all add: interleaved_def)
  from tm_add_sub_correct [OF 1 2 3, of 5] show ?thesis
    by simp
qed

section \<open>Claim C7: register lookup\<close>

text \<open>
  Claim C7. The states emitted by \<open>tm_find_register q reg r\<close>, started in state \<open>q\<close> with the
  head on the start sentinel of a well-formed tape, leave the tape as it is and reach: state
  \<open>r\<close> with the head on the scratch cell before the value word of the first register block
  (in tape order) whose eight index bits are those of \<open>reg\<close>, which is cell \<open>21 + 36 * j\<close> for
  the block at position \<open>j\<close>; or the reject state with the head on the end sentinel when no
  block has these index bits.
\<close>

theorem find_register_first_match:
  assumes "q < next_state g" and "REGISTER \<notin> set rest" and "END \<notin> set rest"
  shows "runs (code_of (tm_find_register q reg r) g) (q, tape_of (wf_tape regs rest), 0)
     (case first_reg reg regs of
        Some j \<Rightarrow> (r, tape_of (wf_tape regs rest), 21 + 36 * int j)
      | None \<Rightarrow> (q_reject g, tape_of (wf_tape regs rest),
          1 + 36 * int (length regs) + int (length rest)))"
proof -
  let ?tape = "tape_of (wf_tape regs rest)"
  let ?T = "code_of (tm_find_register q reg r) g"
  from assms(1) have T: "fr_table ?T q reg r (next_state g) (q_reject g)"
    by (simp add: code_of_tm_find_register fr_table_code)
  have "cells_at ?tape 0 (wf_tape regs rest)" by (rule cells_at_tape_of)
  then have s: "?tape 0 = START"
    and c: "cells_at ?tape 1 (concat (map reg_cells regs) @ rest @ [END])"
    by (simp_all add: wf_tape_def)
  from s have "no_marker ?tape 0 (0 + 1)" by (intro no_marker_single) simp_all
  then have "no_marker ?tape 0 1" by simp
  with blocks_cells [OF assms(2,3) c, of 0]
  have "blocks ?tape 0 (reg_blocks 1 regs) (1 + 36 * int (length regs) + int (length rest))"
    by simp
  from fr_blocks [OF T this] show ?thesis
    by (cases "first_reg reg regs") (simp_all add: find_reg_blocks algebra_simps)
qed

theorem find_register_first_match_witness:
  "runs (code_of (tm_find_register 3 1 9) \<lparr>next_state = 10, q_reject = 4, out = []\<rparr>)
     (3, tape_of (wf_tape [(0, 5), (1, 7), (2, 0)] [BLANK, ADDRESS, BLANK, OUTPUT]), 0)
     (9, tape_of (wf_tape [(0, 5), (1, 7), (2, 0)] [BLANK, ADDRESS, BLANK, OUTPUT]), 57) \<and>
   runs (code_of (tm_find_register 3 6 9) \<lparr>next_state = 10, q_reject = 4, out = []\<rparr>)
     (3, tape_of (wf_tape [(0, 5), (1, 7), (2, 0)] [BLANK, ADDRESS, BLANK, OUTPUT]), 0)
     (4, tape_of (wf_tape [(0, 5), (1, 7), (2, 0)] [BLANK, ADDRESS, BLANK, OUTPUT]), 113)"
  using find_register_first_match [of 3 "\<lparr>next_state = 10, q_reject = 4, out = []\<rparr>"
      "[BLANK, ADDRESS, BLANK, OUTPUT]" 1 9 "[(0, 5), (1, 7), (2, 0)]"]
    find_register_first_match [of 3 "\<lparr>next_state = 10, q_reject = 4, out = []\<rparr>"
      "[BLANK, ADDRESS, BLANK, OUTPUT]" 6 9 "[(0, 5), (1, 7), (2, 0)]"]
  by (simp add: same8_mod)

section \<open>Claim C5: copying a word\<close>

lemma interleaved_plain:
  "interleaved a b i \<noteq> SRC" "interleaved a b i \<noteq> DST" "interleaved a b i \<noteq> START"
  "interleaved a b i \<noteq> END"
  by (simp_all add: interleaved_def bsym_def)

lemma interleaved_word:
  assumes "j < 8"
  shows "interleaved a b (1 + 2 * int j) = bsym (bit a (7 - j))"
proof -
  have "nat ((15 - (1 + 2 * int j)) div 2) = 7 - j" using assms by simp
  with assms show ?thesis by (simp add: interleaved_def)
qed

text \<open>
  Claim C5, for the directions \<open>+1\<close> and \<open>-1\<close>. The head is on the scratch cell \<open>p\<close> left of a
  source word \<open>a\<close> (bits in the cells \<open>p + 1, p + 3, \<dots>, p + 15\<close>, most significant first, the
  cell \<open>p + 17\<close> holding no bit), and the destination marker is at cell \<open>t\<close>, on the side of the
  source that the direction \<open>d\<close> names and clear of the source word. The searches of the copy
  loop find their markers: for \<open>d = 1\<close>, the cells between \<open>p + 2\<close> and \<open>t\<close> hold no marker and
  no sentinel; for \<open>d = -1\<close>, the cells between \<open>t\<close> and \<open>p\<close> and the cell \<open>p + 17\<close> hold neither
  a destination marker nor the sentinel \<open>START\<close> (what the search to the left stops at), and the
  cells between \<open>t + 2\<close> and \<open>p\<close> hold neither a source marker nor the sentinel \<open>END\<close> (what the
  search back to the right stops at); so the sentinel \<open>END\<close> may follow the source word.
  Then the states emitted by \<open>tm_copy q d r\<close> reach state \<open>r\<close> with the head on cell \<open>t + 16\<close>,
  the cell right of the destination word; the destination word holds the bits of \<open>a\<close> in the
  cells \<open>t + 1, t + 3, \<dots>, t + 15\<close>, the cells \<open>t, t + 2, \<dots>, t + 16\<close> are blank, the source bits
  are still there, the source scratch cells are blank, and no other cell has changed.
\<close>

theorem tm_copy_left_or_right:
  fixes a :: "8 word"
  assumes "q < next_state g"
    and "d = 1 \<and> p + 17 < t \<or> d = - 1 \<and> t + 16 < p"
    and "tape t = DST"
    and "\<forall>j < 8. tape (p + 1 + 2 * int j) = bsym (bit a (7 - j))"
    and "tape (p + 17) \<noteq> ZERO" and "tape (p + 17) \<noteq> ONE"
    and "d = 1 \<longrightarrow> (\<forall>i. p + 2 < i \<and> i < t \<longrightarrow>
           tape i \<noteq> SRC \<and> tape i \<noteq> DST \<and> tape i \<noteq> START \<and> tape i \<noteq> END)"
    and "d = - 1 \<longrightarrow> (\<forall>i. t < i \<and> i < p \<longrightarrow> tape i \<noteq> DST \<and> tape i \<noteq> START) \<and>
           (\<forall>i. t + 2 < i \<and> i < p \<longrightarrow> tape i \<noteq> SRC \<and> tape i \<noteq> END) \<and>
           tape (p + 17) \<noteq> DST \<and> tape (p + 17) \<noteq> START"
  shows "\<exists>tape'. runs (code_of (tm_copy q d r) g) (q, tape, p) (r, tape', t + 16) \<and>
     (\<forall>j < 8. tape' (t + 1 + 2 * int j) = bsym (bit a (7 - j))) \<and>
     (\<forall>j \<le> 8. tape' (t + 2 * int j) = BLANK) \<and>
     (\<forall>j < 8. tape' (p + 1 + 2 * int j) = bsym (bit a (7 - j))) \<and>
     (\<forall>j \<le> 8. tape' (p + 2 * int j) = BLANK) \<and>
     (\<forall>i. \<not> (t \<le> i \<and> i \<le> t + 16) \<and> (\<forall>j \<le> 8. i \<noteq> p + 2 * int j) \<longrightarrow> tape' i = tape i)"
proof -
  from assms(2) have "dir_ok d" by (auto simp add: dir_ok_def)
  then have T: "code_of (tm_copy q d r) g =
      copy_helper_code q d True False r (next_state g) (q_reject g)"
    by (rule code_of_tm_copy)
  show ?thesis
    unfolding T
    by (rule copy8_run [where f = "\<lambda>j. bit a (7 - j)", OF assms(1) sub_table_refl assms(2-8)])
qed

theorem tm_copy_left_or_right_witness:
  "(\<exists>tape'. runs (code_of (tm_copy 0 1 30) \<lparr>next_state = 1, q_reject = 9, out = []\<rparr>)
        (0, (interleaved 200 100)(20 := DST), 0) (30, tape', 20 + 16) \<and>
      (\<forall>j < 8. tape' (20 + 1 + 2 * int j) = bsym (bit (200 :: 8 word) (7 - j))) \<and>
      (\<forall>j \<le> 8. tape' (20 + 2 * int j) = BLANK) \<and>
      (\<forall>j < 8. tape' (0 + 1 + 2 * int j) = bsym (bit (200 :: 8 word) (7 - j))) \<and>
      (\<forall>j \<le> 8. tape' (0 + 2 * int j) = BLANK) \<and>
      (\<forall>i. \<not> (20 \<le> i \<and> i \<le> 20 + 16) \<and> (\<forall>j \<le> 8. i \<noteq> 0 + 2 * int j) \<longrightarrow>
         tape' i = ((interleaved 200 100)(20 := DST)) i)) \<and>
   (\<exists>tape'. runs (code_of (tm_copy 0 (- 1) 30) \<lparr>next_state = 1, q_reject = 9, out = []\<rparr>)
        (0, (interleaved 200 100)(- 20 := DST, 17 := END), 0) (30, tape', - 20 + 16) \<and>
      (\<forall>j < 8. tape' (- 20 + 1 + 2 * int j) = bsym (bit (200 :: 8 word) (7 - j))) \<and>
      (\<forall>j \<le> 8. tape' (- 20 + 2 * int j) = BLANK) \<and>
      (\<forall>j < 8. tape' (0 + 1 + 2 * int j) = bsym (bit (200 :: 8 word) (7 - j))) \<and>
      (\<forall>j \<le> 8. tape' (0 + 2 * int j) = BLANK) \<and>
      (\<forall>i. \<not> (- 20 \<le> i \<and> i \<le> - 20 + 16) \<and> (\<forall>j \<le> 8. i \<noteq> 0 + 2 * int j) \<longrightarrow>
         tape' i = ((interleaved 200 100)(- 20 := DST, 17 := END)) i))"
proof -
  let ?R = "(interleaved 200 100)(20 := DST)"
  let ?L = "(interleaved 200 100)(- 20 := DST, 17 := END)"
  have 1: "(0::int) < next_state \<lparr>next_state = 1, q_reject = 9, out = []\<rparr>"
    by simp
  have w: "1 + 2 * int j \<noteq> 20" "1 + 2 * int j \<noteq> - 20" "j < 8 \<Longrightarrow> 1 + 2 * int j \<noteq> 17" for j
    by presburger+
  have bR: "\<forall>j < 8. ?R (0 + 1 + 2 * int j) = bsym (bit (200 :: 8 word) (7 - j))"
    by (simp add: w interleaved_word)
  have bL: "\<forall>j < 8. ?L (0 + 1 + 2 * int j) = bsym (bit (200 :: 8 word) (7 - j))"
    by (simp add: w interleaved_word)
  have zR: "?R (0 + 17) \<noteq> ZERO" "?R (0 + 17) \<noteq> ONE"
    by (simp_all add: interleaved_def)
  have zL: "?L (0 + 17) \<noteq> ZERO" "?L (0 + 17) \<noteq> ONE"
    by simp_all
  have d1: "(1::int) = 1 \<and> (0::int) + 17 < 20 \<or> (1::int) = - 1 \<and> (20::int) + 16 < 0"
    by simp
  have DR: "?R 20 = DST" by simp
  have cR: "(1::int) = 1 \<longrightarrow> (\<forall>i. 0 + 2 < i \<and> i < 20 \<longrightarrow>
      ?R i \<noteq> SRC \<and> ?R i \<noteq> DST \<and> ?R i \<noteq> START \<and> ?R i \<noteq> END)"
    by (simp add: interleaved_plain)
  have eR: "(1::int) = - 1 \<longrightarrow> (\<forall>i. 20 < i \<and> i < 0 \<longrightarrow> ?R i \<noteq> DST \<and> ?R i \<noteq> START) \<and>
      (\<forall>i. 20 + 2 < i \<and> i < 0 \<longrightarrow> ?R i \<noteq> SRC \<and> ?R i \<noteq> END) \<and>
      ?R (0 + 17) \<noteq> DST \<and> ?R (0 + 17) \<noteq> START"
    by simp
  have A: "\<exists>tape'. runs (code_of (tm_copy 0 1 30) \<lparr>next_state = 1, q_reject = 9, out = []\<rparr>)
        (0, ?R, 0) (30, tape', 20 + 16) \<and>
      (\<forall>j < 8. tape' (20 + 1 + 2 * int j) = bsym (bit (200 :: 8 word) (7 - j))) \<and>
      (\<forall>j \<le> 8. tape' (20 + 2 * int j) = BLANK) \<and>
      (\<forall>j < 8. tape' (0 + 1 + 2 * int j) = bsym (bit (200 :: 8 word) (7 - j))) \<and>
      (\<forall>j \<le> 8. tape' (0 + 2 * int j) = BLANK) \<and>
      (\<forall>i. \<not> (20 \<le> i \<and> i \<le> 20 + 16) \<and> (\<forall>j \<le> 8. i \<noteq> 0 + 2 * int j) \<longrightarrow>
         tape' i = ?R i)"
    by (rule tm_copy_left_or_right [OF 1 d1 DR bR zR cR eR])
  have d2: "(- 1::int) = 1 \<and> (0::int) + 17 < - 20 \<or> (- 1::int) = - 1 \<and> (- 20::int) + 16 < 0"
    by simp
  have DL: "?L (- 20) = DST" by simp
  have cL: "(- 1::int) = 1 \<longrightarrow> (\<forall>i. 0 + 2 < i \<and> i < - 20 \<longrightarrow>
      ?L i \<noteq> SRC \<and> ?L i \<noteq> DST \<and> ?L i \<noteq> START \<and> ?L i \<noteq> END)"
    by simp
  have eL: "(- 1::int) = - 1 \<longrightarrow> (\<forall>i. - 20 < i \<and> i < 0 \<longrightarrow> ?L i \<noteq> DST \<and> ?L i \<noteq> START) \<and>
      (\<forall>i. - 20 + 2 < i \<and> i < 0 \<longrightarrow> ?L i \<noteq> SRC \<and> ?L i \<noteq> END) \<and>
      ?L (0 + 17) \<noteq> DST \<and> ?L (0 + 17) \<noteq> START"
    by (simp add: interleaved_plain)
  have B: "\<exists>tape'. runs (code_of (tm_copy 0 (- 1) 30) \<lparr>next_state = 1, q_reject = 9, out = []\<rparr>)
        (0, ?L, 0) (30, tape', - 20 + 16) \<and>
      (\<forall>j < 8. tape' (- 20 + 1 + 2 * int j) = bsym (bit (200 :: 8 word) (7 - j))) \<and>
      (\<forall>j \<le> 8. tape' (- 20 + 2 * int j) = BLANK) \<and>
      (\<forall>j < 8. tape' (0 + 1 + 2 * int j) = bsym (bit (200 :: 8 word) (7 - j))) \<and>
      (\<forall>j \<le> 8. tape' (0 + 2 * int j) = BLANK) \<and>
      (\<forall>i. \<not> (- 20 \<le> i \<and> i \<le> - 20 + 16) \<and> (\<forall>j \<le> 8. i \<noteq> 0 + 2 * int j) \<longrightarrow>
         tape' i = ?L i)"
    by (rule tm_copy_left_or_right [OF 1 d2 DL bL zL cL eL])
  from A B show ?thesis by (rule conjI)
qed

text \<open>
  Claim C5 as stated, for the direction \<open>0\<close>: the states emitted by \<open>tm_copy 0 0 30\<close>, started
  on the scratch cell left of the source word \<open>200\<close>, never reach state \<open>30\<close>, whether the
  destination marker is on the source's own scratch cell or elsewhere: the search for the
  destination marker stays on the second bit of the source word for ever.
\<close>

theorem tm_copy_direction_zero_never_returns:
  "(\<forall>k. \<exists>c. run (code_of (tm_copy 0 0 30) \<lparr>next_state = 1, q_reject = 9, out = []\<rparr>) k
        (0, (interleaved 200 100)(0 := DST), 0) = Some c \<and> fst c \<noteq> 30) \<and>
   (\<forall>k. \<exists>c. run (code_of (tm_copy 0 0 30) \<lparr>next_state = 1, q_reject = 9, out = []\<rparr>) k
        (0, (interleaved 200 100)(36 := DST), 0) = Some c \<and> fst c \<noteq> 30)"
proof -
  let ?N = "copy_helper_code 0 0 True False 30 1 9"
  have T: "code_of (tm_copy 0 0 30) \<lparr>next_state = 1, q_reject = 9, out = []\<rparr> = ?N"
    by (simp add: code_of_tm_copy dir_ok_def)
  have "\<exists>c. run ?N k (0, (interleaved 200 100)(t := DST), 0) = Some c \<and> fst c \<noteq> 30"
    if t: "t = 0 \<or> t = 36" for t k
  proof -
    let ?tape = "(interleaved 200 100)(t := DST)"
    have b: "?tape (0 + 1) = bsym True" using t by (auto simp add: interleaved_def)
    have c: "?tape (0 + 3) \<noteq> DST" "?tape (0 + 3) \<noteq> END"
      using t by (auto simp add: interleaved_def bsym_def)
    note s = copy_zero_stuck [of 0 1 ?tape 0 True, OF _ b c]
    show ?thesis
    proof (cases "k < 4")
      case True
      from s(3) [OF _ True, of True 30 9] show ?thesis by auto
    next
      case False
      then have k: "k = 4 + (k - 4)" by simp
      have "run ?N (4 + (k - 4)) (0, ?tape, 0) =
          Some (cp_find 1 True True, ?tape(0 := BLANK, 0 + 2 := SRC), 0 + 3)"
        by (rule run_stuck [OF s(1) s(2)]) simp_all
      with k have "run ?N k (0, ?tape, 0) =
          Some (cp_find 1 True True, ?tape(0 := BLANK, 0 + 2 := SRC), 0 + 3)"
        by simp
      then show ?thesis by (simp add: cp_find_def)
    qed
  qed
  then show ?thesis unfolding T by simp
qed

section \<open>Claim C8: generation-time errors\<close>

text \<open>
  Claim C8. For an IR input containing a register-indirect jump, a same-register
  register-to-register ADD or SUB, an unrecognised opcode or an operand of an invalid kind
  (and on which the run of the generator is defined), code generation aborts: at the first
  instruction that the generator does not accept, with the diagnostic of that instruction,
  whatever follows it; and the aborted generation has produced no transition table.
\<close>

theorem unsupported_input_aborts_without_table:
  assumes "\<exists>i \<in> set (module_text m). unsupported i" and "run_defined m"
  shows "\<exists>pre i post. module_text m = pre @ i # post \<and> (\<forall>j \<in> set pre. accepted j) \<and>
           \<not> accepted i \<and> fst (target_tm m gen0) = Inl (diagnostic i) \<and>
           out (snd (target_tm m gen0)) = []"
proof -
  from assms(1) have "\<exists>i \<in> set (module_text m). \<not> accepted i"
    by (auto simp: accepted_def)
  then obtain pre i post where d: "module_text m = pre @ i # post" and i: "\<not> accepted i"
    and p: "\<forall>j \<in> set pre. \<not> \<not> accepted j"
    by (rule split_list_first_propE)
  from p have p': "\<forall>j \<in> set pre. accepted j" by simp
  have "aborts (target_tm m gen0) (diagnostic i)"
    unfolding target_tm_unfold d by (rule aborts_text [OF p' i])
  with d i p' show ?thesis by (auto simp: aborts_def)
qed

theorem unsupported_input_aborts_without_table_witness:
  "fst (target_tm prog_jmp_reg gen0) = Inl NotImplemented \<and>
   out (snd (target_tm prog_jmp_reg gen0)) = []"
proof -
  let ?jmp = "\<lparr>op = JMP, dst = OTHER, src = OTHER, jmp = REG 0, pc = 0\<rparr>"
  have m: "module_text prog_jmp_reg = [?jmp]" "module_data prog_jmp_reg = []"
    by (simp_all add: prog_jmp_reg_def)
  have u: "\<exists>i \<in> set (module_text prog_jmp_reg). unsupported i"
    by (simp add: m unsupported_def)
  have "target_tm prog_jmp_reg gen0 =
      tm_inst 221 ?jmp (adv 220 (prologue_code prog_jmp_reg 2) (seeded prog_jmp_reg gen0))"
    by (rule target_tm_single(1) [OF m(1) _ m(2)]) simp
  then have "next_state (snd (target_tm prog_jmp_reg gen0)) = 222"
    using target_tm_single(2) [OF m(1) _ m(2)] by (simp add: tm_inst_def error_apply)
  then have d: "run_defined prog_jmp_reg"
    by (simp add: run_defined_def counter_fits_def data_in_range_def int_max_def m)
  from unsupported_input_aborts_without_table [OF u d] obtain pre i post
    where d: "module_text prog_jmp_reg = pre @ i # post"
      and r: "fst (target_tm prog_jmp_reg gen0) = Inl (diagnostic i)"
        "out (snd (target_tm prog_jmp_reg gen0)) = []"
    by blast
  from d have "[?jmp] = pre @ i # post" by (simp add: m)
  then have "i = ?jmp" by (cases pre) auto
  then have "diagnostic i = NotImplemented" by (simp add: diagnostic_def)
  with r show ?thesis by simp
qed

section \<open>Claim C1: program counters as states\<close>

text \<open>
  Claim C1 at \<open>p = 0\<close>, on the module \<open>0: PUTC 65; 1: JMP 0\<close>, on which the run of the
  generator is defined. The emitted table is the prologue
  (from state 0), the code of the PUTC at pc 0 (from state 222, the state in which the
  prologue ends), the stitch from state 243 to state 1, and the jump from state 1 to state 0.
  No line of the PUTC has state 0: state 0 is the first state of the prologue, whose line
  writes the start sentinel. So the jump to pc 0 does not execute the instruction at pc 0:
  from state 1, two steps later the machine has overwritten the cell under the head with
  the start sentinel and is in the second state of the prologue.
\<close>

theorem jump_to_pc_zero_reruns_prologue:
  "run_defined prog_loop \<and>
   out (snd (target_tm prog_loop gen0)) =
     prologue_code prog_loop 3 @ putc_imm_code 222 65 223 @
     block 243 (\<lambda>s. (s, 0, 1)) @ block 1 (\<lambda>s. (s, 0, 0)) \<and>
   0 \<notin> srcs (putc_imm_code 222 65 223) \<and>
   lookup (out (snd (target_tm prog_loop gen0))) 0 BLANK = Some (Transition 0 BLANK 3 START DirR) \<and>
   run (out (snd (target_tm prog_loop gen0))) 2 (1, tape, h) = Some (3, tape(h := START), h + 1)"
proof -
  let ?T = "out (snd (target_tm prog_loop gen0))"
  let ?P = "prologue_code prog_loop 3"
  let ?C = "putc_imm_code 222 65 223"
  have s: "seed_next_state (module_text prog_loop) = 2"
    by (simp add: prog_loop_def seed_next_state_def)
  let ?i0 = "\<lparr>op = PUTC, dst = OTHER, src = IMM 65, jmp = OTHER, pc = 0\<rparr>"
  let ?i1 = "\<lparr>op = JMP, dst = OTHER, src = OTHER, jmp = IMM 0, pc = 1\<rparr>"
  have m: "module_text prog_loop = [?i0, ?i1]" "module_data prog_loop = []"
    by (simp_all add: prog_loop_def)
  have i0: "tm_inst q ?i0 g =
      (Inr (next_state g + 20), adv 21 (putc_imm_code q 65 (next_state g)) g)" for q g
    using tm_inst_PUTC_imm [of ?i0 65 q g] by simp
  have i1: "tm_inst q ?i1 = tm_noop q 0" for q
    by (simp add: tm_inst_def)
  have "target_tm prog_loop gen0 =
      tm_text 0 222 [?i0, ?i1] (adv 220 ?P (seeded prog_loop gen0))"
    using s by (simp add: target_tm_unfold m)
  then have T: "?T = ?P @ ?C @ block 243 (\<lambda>s. (s, 0, 1)) @ block 1 (\<lambda>s. (s, 0, 0))"
    and N: "next_state (snd (target_tm prog_loop gen0)) = 244"
    by (simp_all add: i0 i1 tm_noop_code bnd_def ret_def s gen0_def)
  from N have d: "run_defined prog_loop"
    by (simp add: run_defined_def counter_fits_def data_in_range_def int_max_def m)
  have c: "0 \<notin> srcs ?C" "1 \<notin> srcs ?C"
    using srcs_putc_imm [of 222 65 223] by auto
  have p: "1 \<notin> srcs ?P"
    using srcs_prologue [of prog_loop 3] by auto
  have "has ?P 0 (\<lambda>a. (START, 1, 3))"
    by (simp add: prologue_code_def Let_def has_block_here)
  then have h0: "has ?T 0 (\<lambda>a. (START, 1, 3))"
    unfolding T by (rule has_append_left)
  have h1: "has ?T 1 (\<lambda>s. (s, 0, 0))"
    unfolding T using c p by (simp add: has_append_right has_block_skip)
  from h0 have l: "lookup ?T 0 BLANK = Some (Transition 0 BLANK 3 START DirR)"
    by (simp add: has_def dn_def)
  have "step ?T (1, tape, h) = Some (0, tape(h := tape h), h + 0)"
    by (rule has_step [OF h1]) (simp_all add: dir_ok_def)
  then have 1: "step ?T (1, tape, h) = Some (0, tape, h)" by simp
  have 2: "step ?T (0, tape, h) = Some (3, tape(h := START), h + 1)"
    by (rule has_step [OF h0]) (simp_all add: dir_ok_def)
  from 1 2 have r: "run ?T 2 (1, tape, h) = Some (3, tape(h := START), h + 1)"
    by (simp add: numeral_2_eq_2)
  from d T c(1) l r show ?thesis by simp
qed

section \<open>Claim C10: the frame of PUTC\<close>

text \<open>
  Claim C10. Let \<open>inst\<close> be a PUTC instruction whose operand is an immediate \<open>v\<close> or a
  register that has a block on the tape, generated from a state \<open>q\<close> older than the states
  it allocates, with the state counter staying within C's \<open>int\<close>. Started in state \<open>q\<close> with
  the head on the start sentinel of the tape between two instructions (register blocks
  \<open>regs\<close>, memory blocks \<open>mem\<close>, output cells \<open>outs\<close>), the emitted states reach the state that
  \<open>tm_inst\<close> returns with the head back on the start sentinel, and the tape then is the tape
  with the same register and memory blocks and one more output cell, holding the byte \<open>w\<close>:
  the low eight bits of \<open>v\<close>, or the value of the first register block whose index is the
  operand's. In cells: the tape is the old one up to the cell before the old end sentinel,
  then the output marker in the place of the old end sentinel, the eight bits of \<open>w\<close> with
  a scratch cell before each, a blank and the end sentinel.
\<close>

theorem putc_appends_output_cell:
  assumes "q < next_state g" and "op inst = PUTC"
    and "next_state (snd (tm_inst q inst g)) \<le> int_max"
    and "src inst = IMM v \<and> w = nat (v mod 256) \<or>
         src inst = REG sr \<and> (\<exists>j. first_reg sr regs = Some j \<and> w = snd (regs ! j))"
  shows "\<exists>r. fst (tm_inst q inst g) = Inr r \<and>
     runs (code_of (tm_inst q inst) g) (q, tape_of (machine_tape regs mem outs), 0)
       (r, tape_of (machine_tape regs mem (outs @ [w])), 0) \<and>
     machine_tape regs mem (outs @ [w]) =
       butlast (machine_tape regs mem outs) @ OUTPUT # spread w @ [BLANK, END]"
proof -
  let ?rest = "concat (map mem_cells mem) @ BLANK # concat (map out_cells outs)"
  have pl: "plain ?rest" by (rule plain_rest)
  from assms(4) show ?thesis
  proof (elim disjE conjE exE)
    assume s: "src inst = IMM v" and w: "w = nat (v mod 256)"
    have "\<forall>k < 8. bit (word_of_int v :: 32 word) k = bit w k"
      unfolding w by (simp add: low_bits_imm)
    from putc_imm_run [OF assms(1) pl this, of regs]
    have "runs (code_of (tm_inst q inst) g) (q, tape_of (machine_tape regs mem outs), 0)
        (next_state g + 20, tape_of (machine_tape regs mem (outs @ [w])), 0)"
      unfolding code_of_PUTC(1) [OF assms(2) s] machine_tape_append
      by (simp only: machine_tape_def)
    moreover have "fst (tm_inst q inst g) = Inr (next_state g + 20)"
      by (simp add: tm_inst_PUTC_imm [OF assms(2) s])
    ultimately show ?thesis using machine_tape_grow [of regs mem outs w] by blast
  next
    fix j assume s: "src inst = REG sr" and j: "first_reg sr regs = Some j"
      and w: "w = snd (regs ! j)"
    from j have jl: "j < length regs" by (rule first_reg_less)
    note a = after_value_word [OF jl, of mem outs]
    from putc_reg_run [OF assms(1) pl j a, of "q_reject g"]
    have "runs (code_of (tm_inst q inst) g) (q, tape_of (machine_tape regs mem outs), 0)
        (next_state g + 41, tape_of (machine_tape regs mem (outs @ [w])), 0)"
      unfolding code_of_PUTC(2) [OF assms(2) s] machine_tape_append w
      by (simp only: machine_tape_def)
    moreover have "fst (tm_inst q inst g) = Inr (next_state g + 41)"
      by (simp add: tm_inst_PUTC_reg [OF assms(2) s])
    ultimately show ?thesis using machine_tape_grow [of regs mem outs w] by blast
  qed
qed

theorem putc_appends_output_cell_witness:
  "(\<exists>r. fst (tm_inst 3 \<lparr>op = PUTC, dst = OTHER, src = IMM 321, jmp = OTHER, pc = 0\<rparr>
          \<lparr>next_state = 10, q_reject = 4, out = []\<rparr>) = Inr r \<and>
     runs (code_of (tm_inst 3 \<lparr>op = PUTC, dst = OTHER, src = IMM 321, jmp = OTHER, pc = 0\<rparr>)
          \<lparr>next_state = 10, q_reject = 4, out = []\<rparr>)
       (3, tape_of (machine_tape [(0, 5), (1, 7)] [(0, 72)] [33]), 0)
       (r, tape_of (machine_tape [(0, 5), (1, 7)] [(0, 72)] ([33] @ [65])), 0) \<and>
     machine_tape [(0, 5), (1, 7)] [(0, 72)] ([33] @ [65]) =
       butlast (machine_tape [(0, 5), (1, 7)] [(0, 72)] [33]) @ OUTPUT # spread 65 @ [BLANK, END]) \<and>
   (\<exists>r. fst (tm_inst 3 \<lparr>op = PUTC, dst = OTHER, src = REG 1, jmp = OTHER, pc = 0\<rparr>
          \<lparr>next_state = 10, q_reject = 4, out = []\<rparr>) = Inr r \<and>
     runs (code_of (tm_inst 3 \<lparr>op = PUTC, dst = OTHER, src = REG 1, jmp = OTHER, pc = 0\<rparr>)
          \<lparr>next_state = 10, q_reject = 4, out = []\<rparr>)
       (3, tape_of (machine_tape [(0, 5), (1, 7)] [] []), 0)
       (r, tape_of (machine_tape [(0, 5), (1, 7)] [] ([] @ [7])), 0) \<and>
     machine_tape [(0, 5), (1, 7)] [] ([] @ [7]) =
       butlast (machine_tape [(0, 5), (1, 7)] [] []) @ OUTPUT # spread 7 @ [BLANK, END])"
proof -
  let ?g = "\<lparr>next_state = 10, q_reject = 4, out = []\<rparr>"
  let ?i = "\<lparr>op = PUTC, dst = OTHER, src = IMM 321, jmp = OTHER, pc = 0\<rparr>"
  let ?r = "\<lparr>op = PUTC, dst = OTHER, src = REG 1, jmp = OTHER, pc = 0\<rparr>"
  have q: "(3::int) < next_state ?g" by simp
  have i: "op ?i = PUTC" "next_state (snd (tm_inst 3 ?i ?g)) \<le> int_max"
    "src ?i = IMM 321 \<and> (65::nat) = nat (321 mod 256) \<or>
     src ?i = REG 1 \<and> (\<exists>j. first_reg 1 [(0, 5), (1, 7)] = Some j \<and>
       (65::nat) = snd ([(0, 5), (1, 7)] ! j))"
    by (simp_all add: tm_inst_PUTC_imm adv_def int_max_def)
  have r: "op ?r = PUTC" "next_state (snd (tm_inst 3 ?r ?g)) \<le> int_max"
    "src ?r = IMM 0 \<and> (7::nat) = nat (0 mod 256) \<or>
     src ?r = REG 1 \<and> (\<exists>j. first_reg 1 [(0, 5), (1, 7)] = Some j \<and>
       (7::nat) = snd ([(0, 5), (1, 7)] ! j))"
    by (simp_all add: tm_inst_PUTC_reg adv_def int_max_def same8_mod)
  from putc_appends_output_cell [OF q i, of "[(0, 72)]" "[33]"]
    putc_appends_output_cell [OF q r, of "[]" "[]"]
  show ?thesis by (rule conjI)
qed

end
